(* ===== verification/Prelude.thy ===== *)
theory Prelude
  imports Main "HOL-Library.Word" "HOL-Library.Monad_Syntax"
begin

text \<open>
  The vocabulary shared by every component of the packet analyzer.

  \<^item> Machine integers: the C types \<open>uint8_t\<close>, \<open>uint16_t\<close>, \<open>uint32_t\<close> are words of that
    width, so that sums wrap and casts truncate as in C.
  \<^item> Memory: a buffer the C code reads through a pointer is the list of bytes from that
    pointer to the end of the object it points into. A read outside the object is undefined
    behaviour in C; here \<open>rd\<close>, \<open>memcpy_from\<close> and \<open>ptr_add\<close> return \<open>None\<close> for it. A function of
    the model that touches memory therefore has an \<open>option\<close> result, and ``the result is not
    \<open>None\<close>'' is its memory safety.
  \<^item> Nullable pointers are \<open>option\<close> arguments (\<open>None\<close> is \<open>NULL\<close>); an output parameter is passed in
    with its current contents and returned with its new contents.
\<close>

unbundle bit_operations_syntax

subsection \<open>Machine integers and buffers\<close>

type_synonym u8 = "8 word"
type_synonym u16 = "16 word"
type_synonym u32 = "32 word"
type_synonym buf = "u8 list"

definition rd :: "buf \<Rightarrow> nat \<Rightarrow> u8 option" where
  "rd d i = (if i < length d then Some (d ! i) else None)"

definition memcpy_from :: "buf \<Rightarrow> nat \<Rightarrow> nat \<Rightarrow> buf option" where
  "memcpy_from d off n = (if off + n \<le> length d then Some (take n (drop off d)) else None)"

definition ptr_add :: "buf \<Rightarrow> nat \<Rightarrow> buf option" where
  "ptr_add d n = (if n \<le> length d then Some (drop n d) else None)"

text \<open>
  The two byte-assembly idioms of the parsers: \<open>(uint16_t)((hi << 8) | lo)\<close>, where the operands
  are promoted to \<open>int\<close> first, and the four-byte form with a cast to \<open>uint32_t\<close> before each shift.
\<close>

definition be16 :: "u8 \<Rightarrow> u8 \<Rightarrow> u16" where
  "be16 hi lo = ucast (push_bit 8 (ucast hi :: u32) OR (ucast lo :: u32))"

definition be32 :: "u8 \<Rightarrow> u8 \<Rightarrow> u8 \<Rightarrow> u8 \<Rightarrow> u32" where
  "be32 b0 b1 b2 b3 =
     push_bit 24 (ucast b0) OR push_bit 16 (ucast b1) OR push_bit 8 (ucast b2) OR ucast b3"

definition rd16 :: "buf \<Rightarrow> nat \<Rightarrow> u16 option" where
  "rd16 d i = do { hi \<leftarrow> rd d i; lo \<leftarrow> rd d (i + 1); Some (be16 hi lo) }"

definition rd32 :: "buf \<Rightarrow> nat \<Rightarrow> u32 option" where
  "rd32 d i = do {
     b0 \<leftarrow> rd d i; b1 \<leftarrow> rd d (i + 1); b2 \<leftarrow> rd d (i + 2); b3 \<leftarrow> rd d (i + 3);
     Some (be32 b0 b1 b2 b3) }"

text \<open>The inverse direction, used by the specifications: the bytes of a value, high byte first.\<close>

definition bytes16 :: "u16 \<Rightarrow> buf" where
  "bytes16 w = [ucast (drop_bit 8 w), ucast w]"

definition bytes32 :: "u32 \<Rightarrow> buf" where
  "bytes32 w = [ucast (drop_bit 24 w), ucast (drop_bit 16 w), ucast (drop_bit 8 w), ucast w]"

subsection \<open>Cutting a buffer into fields\<close>

lemma drop_pair: "i + 2 \<le> length d \<Longrightarrow> drop i d = [d ! i, d ! Suc i] @ drop (i + 2) d"
  by (simp add: Cons_nth_drop_Suc)

lemma start_pair: "2 \<le> length d \<Longrightarrow> d = [d ! 0, d ! Suc 0] @ drop 2 d"
  using drop_pair [of 0 d] by (simp add: numeral_2_eq_2)

lemma drop_chunk: "drop i d = take n (drop i d) @ drop (i + n) d"
  by (metis add.commute append_take_drop_id drop_drop)

subsection \<open>Collections of rewrite rules\<close>

named_theorems mem_simps \<open>reads, copies and pointer moves that stay inside their buffer\<close>
named_theorems wire_simps \<open>values of fields assembled from bytes\<close>

lemma rd_inside [mem_simps]: "i < length d \<Longrightarrow> rd d i = Some (d ! i)"
  by (simp add: rd_def)

lemma rd_eq_Some [simp]: "rd d i = Some b \<longleftrightarrow> i < length d \<and> b = d ! i"
  by (auto simp: rd_def)

lemma rd16_inside [mem_simps]: "i + 1 < length d \<Longrightarrow> rd16 d i = Some (be16 (d ! i) (d ! (i + 1)))"
  by (simp add: rd16_def rd_inside)

lemma rd32_inside [mem_simps]:
  "i + 3 < length d \<Longrightarrow>
    rd32 d i = Some (be32 (d ! i) (d ! (i + 1)) (d ! (i + 2)) (d ! (i + 3)))"
  by (simp add: rd32_def rd_inside)

lemma rd_take: "i < n \<Longrightarrow> rd (take n d) i = rd d i"
  by (simp add: rd_def)

lemma rd_drop: "n \<le> length d \<Longrightarrow> rd (drop n d) i = rd d (n + i)"
  by (auto simp: rd_def add.commute)

lemma memcpy_from_inside [mem_simps]:
  "off + n \<le> length d \<Longrightarrow> memcpy_from d off n = Some (take n (drop off d))"
  by (simp add: memcpy_from_def)

lemma ptr_add_inside [mem_simps]: "n \<le> length d \<Longrightarrow> ptr_add d n = Some (drop n d)"
  by (simp add: ptr_add_def)

lemma ptr_add_eq_Some [simp]: "ptr_add d n = Some d' \<longleftrightarrow> n \<le> length d \<and> d' = drop n d"
  by (auto simp: ptr_add_def)

subsection \<open>Masks and shifts, read as arithmetic\<close>

lemma unat_and_mask: "unat (w AND mask n) = unat w mod 2 ^ n" for w :: "'a::len word"
  by (simp only: take_bit_eq_mask [symmetric] unsigned_take_bit_eq take_bit_eq_mod [of n "unat w"])

lemma unat_and_low [wire_simps]:
  fixes w :: "'a::len word"
  shows "unat (w AND 0x0F) = unat w mod 16"
    and "unat (w AND 0x3F) = unat w mod 64"
    and "unat (w AND 0xFF) = unat w mod 256"
    and "unat (w AND 0x0FFF) = unat w mod 4096"
    and "unat (w AND 0x1FFF) = unat w mod 8192"
    and "unat (w AND 0xFFFF) = unat w mod 65536"
  using unat_and_mask [of w 4] unat_and_mask [of w 6] unat_and_mask [of w 8] unat_and_mask [of w 12]
    unat_and_mask [of w 13] unat_and_mask [of w 16]
  by (simp_all add: mask_eq_exp_minus_1)

lemma unat_drop_bit [wire_simps]: "unat (drop_bit n w) = unat w div 2 ^ n" for w :: "'a::len word"
  proof -
  have "take_bit LENGTH('a) (unat w) = unat w"
    using unsigned_less [of w] by (simp add: take_bit_nat_eq_self)
  then show ?thesis
    by (simp only: unsigned_drop_bit_eq drop_bit_eq_div [of n "unat w"])
qed

subsection \<open>Values of assembled words\<close>

lemma unat_u8_bound: "unat (x :: u8) < 256"
  using unsigned_less [of x] by simp

lemma unat_u16_bound: "unat (x :: u16) < 65536"
  using unsigned_less [of x] by simp

lemma unat_u32_bound: "unat (x :: u32) < 4294967296"
  using unsigned_less [of x] by simp

lemma promoted_or: "push_bit 8 (ucast a :: u32) OR ucast b = of_nat (256 * unat a + unat b)" for a b :: u8
proof -
  have "push_bit 8 (ucast a :: u32) OR (ucast b :: u32) = push_bit 8 (ucast a :: u32) + ucast b"
    by (rule disjunctive_add_eq_or [symmetric])
      (auto simp: bit_eq_iff bit_simps dest!: bit_imp_le_length)
  also have "\<dots> = of_nat (256 * unat a + unat b)"
    by (simp add: push_bit_eq_mult)
  finally show ?thesis .
qed

lemma promoted_shift: "push_bit 8 (ucast a :: u32) = of_nat (256 * unat a)" for a :: u8
  using promoted_or [of a 0] by simp

lemma unat_be16 [wire_simps]: "unat (be16 a b) = 256 * unat a + unat b"
proof -
  have "unat a < 256" "unat b < 256" by (rule unat_u8_bound)+
  then show ?thesis
    by (simp add: be16_def promoted_or unsigned_ucast_eq take_bit_eq_mod unat_of_nat del: of_nat_add of_nat_mult)
qed

lemma be32_sum:
  "be32 a b c d = push_bit 24 (ucast a) + push_bit 16 (ucast b) + push_bit 8 (ucast c) + ucast d"
proof -
  let ?a = "push_bit 24 (ucast a :: u32)" and ?b = "push_bit 16 (ucast b :: u32)"
    and ?c = "push_bit 8 (ucast c :: u32)" and ?d = "ucast d :: u32"
  have "?a OR ?b = ?a + ?b"
    by (rule disjunctive_add_eq_or [symmetric])
      (auto simp: bit_eq_iff bit_simps dest!: bit_imp_le_length)
  moreover have "(?a OR ?b) OR ?c = (?a OR ?b) + ?c"
    by (rule disjunctive_add_eq_or [symmetric])
      (auto simp: bit_eq_iff bit_simps dest!: bit_imp_le_length)
  moreover have "((?a OR ?b) OR ?c) OR ?d = ((?a OR ?b) OR ?c) + ?d"
    by (rule disjunctive_add_eq_or [symmetric])
      (auto simp: bit_eq_iff bit_simps dest!: bit_imp_le_length)
  ultimately show ?thesis
    by (simp only: be32_def or.assoc [symmetric])
qed

lemma unat_be32 [wire_simps]:
  "unat (be32 a b c d) = 16777216 * unat a + 65536 * unat b + 256 * unat c + unat d"
proof -
  have "unat a < 256" "unat b < 256" "unat c < 256" "unat d < 256" by (rule unat_u8_bound)+
  then show ?thesis
    by (simp add: be32_sum push_bit_eq_mult unat_word_ariths unsigned_ucast_eq take_bit_eq_mod)
qed

lemma be16_bytes16 [wire_simps]: "be16 (ucast (drop_bit 8 w)) (ucast w) = (w :: u16)"
  unfolding be16_def
  by (rule bit_word_eqI) (auto simp: bit_simps not_less)

lemma base256_digits:
  fixes x :: nat
  shows "16777216 * (x div 16777216) + 65536 * (x div 65536 mod 256)
    + 256 * (x div 256 mod 256) + x mod 256 = x"
proof -
  have "x div 65536 = x div 256 div 256" "x div 16777216 = x div 256 div 256 div 256"
    by (simp_all flip: div_mult2_eq)
  moreover have "256 * (n div 256) + n mod 256 = n" for n :: nat
    by simp
  from this [of x] this [of "x div 256"] this [of "x div 256 div 256"]
  have "16777216 * (x div 256 div 256 div 256) + 65536 * (x div 256 div 256 mod 256)
    + 256 * (x div 256 mod 256) + x mod 256 = x"
    by linarith
  ultimately show ?thesis
    by (simp only:)
qed

lemma be32_bytes32 [wire_simps]:
  "be32 (ucast (drop_bit 24 w)) (ucast (drop_bit 16 w)) (ucast (drop_bit 8 w)) (ucast w) = (w :: u32)"
proof (rule word_unat_eq_iff [THEN iffD2])
  have "unat w < 4294967296" using unsigned_less [of w] by simp
  then show "unat (be32 (ucast (drop_bit 24 w)) (ucast (drop_bit 16 w)) (ucast (drop_bit 8 w)) (ucast w))
      = unat w"
    by (simp add: unat_be32 unsigned_ucast_eq unsigned_drop_bit_eq take_bit_eq_mod
        drop_bit_eq_div unat_div_distrib base256_digits)
qed

lemma bytes16_be16 [wire_simps]: "bytes16 (be16 a b) = [a, b]"
proof -
  have "unat a < 256" "unat b < 256" by (rule unat_u8_bound)+
  then have "ucast (drop_bit 8 (be16 a b)) = a" "ucast (be16 a b) = b"
    by (simp_all only: word_unat_eq_iff unsigned_ucast_eq)
      (simp_all add: unat_drop_bit unat_be16 take_bit_eq_mod)
  then show ?thesis by (simp add: bytes16_def)
qed

lemma bytes32_be32 [wire_simps]: "bytes32 (be32 a b c d) = [a, b, c, d]"
proof -
  have "ucast (drop_bit 24 (be32 a b c d)) = a" "ucast (drop_bit 16 (be32 a b c d)) = b"
    "ucast (drop_bit 8 (be32 a b c d)) = c" "ucast (be32 a b c d) = d"
    unfolding be32_def
    by (rule bit_word_eqI; auto simp: bit_simps dest: bit_imp_le_length)+
  then show ?thesis by (simp add: bytes32_def)
qed

lemma length_bytes16 [simp]: "length (bytes16 w) = 2"
  by (simp add: bytes16_def)

lemma length_bytes32 [simp]: "length (bytes32 w) = 4"
  by (simp add: bytes32_def)

subsection \<open>Casts to a byte\<close>

lemma mask_byte: "0xFF = (mask 8 :: 'a::len word)"
  by (simp add: mask_eq_exp_minus_1)

lemma low_byte [simp]: "ucast (w AND 0xFF) = (ucast w :: u8)" for w :: u32
  by (rule bit_word_eqI) (simp add: bit_simps mask_byte)

lemma byte_up_down [simp]: "ucast (ucast b :: u16) = b" "ucast (ucast b :: u32) = b" for b :: u8
  by (rule bit_word_eqI; auto simp: bit_simps dest: bit_imp_le_length)+

lemma unat_ucast_byte [simp]: "unat (ucast b :: u16) = unat b" "unat (ucast b :: u32) = unat b" for b :: u8
  using unat_u8_bound [of b] by (simp_all add: unsigned_ucast_eq take_bit_nat_eq_self)

lemma unat_ucast_u16 [simp]: "unat (ucast w :: u32) = unat w" for w :: u16
  using unat_u16_bound [of w] by (simp add: unsigned_ucast_eq take_bit_nat_eq_self)

lemma bytes16_ucast [simp]:
  "bytes16 (ucast w) = [ucast (drop_bit 8 w), ucast w]" for w :: u32
proof -
  have "(ucast (drop_bit 8 (ucast w :: u16)) :: u8) = ucast (drop_bit 8 w)"
    and "(ucast (ucast w :: u16) :: u8) = ucast w"
    by (rule bit_word_eqI; auto simp: bit_simps)+
  then show ?thesis by (simp add: bytes16_def)
qed

lemma take_4_nth: "4 \<le> length xs \<Longrightarrow> take 4 xs = [xs ! 0, xs ! 1, xs ! 2, xs ! 3]"
  by (simp add: list_eq_iff_nth_eq nth_Cons' numeral_eq_Suc less_Suc_eq)

subsection \<open>Packed bit fields\<close>

text \<open>Two fields in one word: the low \<open>k\<close> bits and the bits above them.\<close>

lemma bits_below: "unat w < 2 ^ k \<Longrightarrow> bit w n \<Longrightarrow> n < k" for w :: "'a::len word"
proof -
  assume "unat w < 2 ^ k" "bit w n"
  then have "take_bit k w = w"
    by (simp add: word_unat_eq_iff unsigned_take_bit_eq take_bit_nat_eq_self)
  with \<open>bit w n\<close> show "n < k" by (metis bit_take_bit_iff)
qed

lemma split_field: "push_bit k (drop_bit k w) OR (w AND mask k) = w" for w :: "'a::len word"
  by (rule bit_word_eqI) (auto simp: bit_simps)

lemma join_field_low:
  fixes v w :: "'a::len word"
  assumes "unat w < 2 ^ k"
  shows "(push_bit k v OR w) AND mask k = w"
  by (rule bit_word_eqI) (auto simp: bit_simps dest: bits_below [OF assms])

lemma join_field_high:
  fixes v w :: "'a::len word"
  assumes "unat w < 2 ^ k" "unat v < 2 ^ (LENGTH('a) - k)"
  shows "drop_bit k (push_bit k v OR w) = v"
  by (rule bit_word_eqI)
    (auto simp: bit_simps dest: bits_below [OF assms(1)] bits_below [OF assms(2)])

subsection \<open>One carry fold of a 32-bit sum\<close>

lemma unat_fold_step:
  "unat ((s AND 0xFFFF) + drop_bit 16 s) = unat s mod 65536 + unat s div 65536" for s :: u32
proof -
  have "unat s < 4294967296" using unsigned_less [of s] by simp
  then have "unat s div 65536 < 65536" by (simp add: div_less_iff_less_mult)
  moreover have "unat s mod 65536 < 65536" by simp
  ultimately show ?thesis
    by (simp add: unat_word_ariths unat_and_low unat_drop_bit del: mod_less_divisor)
qed

lemma drop_bit_16_0_iff: "drop_bit 16 s = 0 \<longleftrightarrow> unat s < 65536" for s :: u32
  using unat_drop_bit [of 16 s] by (simp only: word_unat_eq_iff) (simp add: div_eq_0_iff)

subsection \<open>Lengths as unsigned words\<close>

text \<open>
  Every parser receives the number of readable bytes as a \<open>uint32_t\<close>. The caller's side of the
  contract is \<open>buf_ok d len\<close>: the object really has that many bytes.
\<close>

definition buf_ok :: "buf \<Rightarrow> u32 \<Rightarrow> bool" where
  "buf_ok d len \<longleftrightarrow> unat len \<le> length d"

lemma buf_okD: "buf_ok d len \<Longrightarrow> n \<le> unat len \<Longrightarrow> n \<le> length d"
  by (simp add: buf_ok_def)

lemma len_split: "unat len = k + unat m \<longleftrightarrow> k \<le> unat len \<and> m = len - of_nat k" for len m :: u32
proof
  assume *: "unat len = k + unat m"
  then have "(of_nat (unat len) :: u32) = of_nat (k + unat m)" by (rule arg_cong)
  then have "len = of_nat k + m" by simp
  then show "k \<le> unat len \<and> m = len - of_nat k" using * by simp
next
  assume *: "k \<le> unat len \<and> m = len - of_nat k"
  then have "k < 4294967296" using unat_u32_bound [of len] by linarith
  then have "unat (of_nat k :: u32) = k" by (simp add: unat_of_nat)
  with * show "unat len = k + unat m"
    by (simp add: unat_sub word_le_nat_alt)
qed

lemma word_of_unat: "unat w = n \<Longrightarrow> w = of_nat n" for w :: "'a::len word"
  by auto

lemma not_less_unat: "\<not> len < k \<Longrightarrow> unat k \<le> unat len" for len k :: u32
  by (simp add: not_less word_le_nat_alt)

end
