(* ===== verification/Checksum.thy ===== *)
theory Checksum
  imports Prelude
begin

text \<open>
  \<open>src/src/c/checksum.c\<close>: the Internet checksum (RFC 1071) behind the IPv4, TCP, UDP and ICMP
  verdicts. The operations follow the C code with its 32-bit unsigned sum, its unsigned loop index
  and its carry loop. The reference is \<open>ones_sum\<close>, the one's-complement sum of the big-endian
  16-bit words of the message, with an end-around carry after every addition. The lemmas show that
  deferring the carry to the end is equivalent, that the verdict is a divisibility condition on the
  plain sum, and that a message with one changed byte is never accepted together with the original.
\<close>

subsection \<open>Operations\<close>

text \<open>
  The \<open>for\<close> loop of \<open>checksum_partial\<close>. The index is a \<open>uint32_t\<close>, so \<open>i + 1\<close> and \<open>i + 2\<close> wrap as in
  C. The result is the final index and sum; \<open>None\<close> is a read outside \<open>d\<close> or a loop that never
  ends.
\<close>

partial_function (option) checksum_loop :: "buf \<Rightarrow> u32 \<Rightarrow> u32 \<Rightarrow> u32 \<Rightarrow> (u32 \<times> u32) option" where
  "checksum_loop d len i acc =
     (if i + 1 < len then do {
        a \<leftarrow> rd d (unat i);
        b \<leftarrow> rd d (unat (i + 1));
        checksum_loop d len (i + 2) (acc + (push_bit 8 (ucast a) OR ucast b))
      } else Some (i, acc))"

definition checksum_partial :: "buf \<Rightarrow> u32 \<Rightarrow> u32 \<Rightarrow> u32 option" where
  "checksum_partial d len acc = do {
     (i, acc) \<leftarrow> checksum_loop d len 0 acc;
     if i < len then do {
       a \<leftarrow> rd d (unat i);
       Some (acc + push_bit 8 (ucast a))
     } else Some acc
   }"

text \<open>The carry fold \<open>while (sum >> 16) sum = (sum & 0xFFFF) + (sum >> 16)\<close>.\<close>

function checksum_fold :: "u32 \<Rightarrow> u32" where
  "checksum_fold s =
     (if drop_bit 16 s \<noteq> 0 then checksum_fold ((s AND 0xFFFF) + drop_bit 16 s) else s)"
  by pat_completeness auto
termination
proof (relation "measure unat")
  fix s :: u32 assume "drop_bit 16 s \<noteq> 0"
  then have "65536 \<le> unat s" by (simp add: drop_bit_16_0_iff)
  moreover have "unat s = 65536 * (unat s div 65536) + unat s mod 65536" by simp
  moreover have "1 \<le> unat s div 65536" using \<open>65536 \<le> unat s\<close> by (simp add: Suc_leI div_greater_zero_iff)
  ultimately show "((s AND 0xFFFF) + drop_bit 16 s, s) \<in> measure unat"
    unfolding in_measure unat_fold_step by linarith
qed simp

text \<open>\<open>return (sum & 0xFFFF) == 0xFFFF\<close>, an \<open>int\<close> that is 0 or 1.\<close>

definition checksum_verdict :: "u32 \<Rightarrow> int" where
  "checksum_verdict acc = (if acc AND 0xFFFF = 0xFFFF then 1 else 0)"

definition checksum_verify :: "buf \<Rightarrow> u32 \<Rightarrow> int option" where
  "checksum_verify d len = do {
     acc \<leftarrow> checksum_partial d len 0;
     Some (checksum_verdict (checksum_fold acc))
   }"

definition checksum_verify_ipv4_pseudo :: "buf \<Rightarrow> u32 \<Rightarrow> buf \<Rightarrow> buf \<Rightarrow> u8 \<Rightarrow> int option" where
  "checksum_verify_ipv4_pseudo segment segment_len src_ip dst_ip protocol = do {
     s0 \<leftarrow> rd src_ip 0;
     s1 \<leftarrow> rd src_ip 1;
     s2 \<leftarrow> rd src_ip 2;
     s3 \<leftarrow> rd src_ip 3;
     d0 \<leftarrow> rd dst_ip 0;
     d1 \<leftarrow> rd dst_ip 1;
     d2 \<leftarrow> rd dst_ip 2;
     d3 \<leftarrow> rd dst_ip 3;
     let pseudo_header = [s0, s1, s2, s3, d0, d1, d2, d3, 0, protocol,
                          ucast (drop_bit 8 segment_len), ucast (segment_len AND 0xFF)];
     acc \<leftarrow> checksum_partial pseudo_header 12 0;
     acc \<leftarrow> checksum_partial segment segment_len acc;
     Some (checksum_verdict (checksum_fold acc))
   }"

definition checksum_verify_ipv6_pseudo :: "buf \<Rightarrow> u32 \<Rightarrow> buf \<Rightarrow> buf \<Rightarrow> u8 \<Rightarrow> int option" where
  "checksum_verify_ipv6_pseudo segment segment_len src_ip dst_ip next_header = do {
     src \<leftarrow> memcpy_from src_ip 0 16;
     dst \<leftarrow> memcpy_from dst_ip 0 16;
     let pseudo_header = src @ dst @
           [ucast (drop_bit 24 segment_len), ucast (drop_bit 16 segment_len),
            ucast (drop_bit 8 segment_len), ucast (segment_len AND 0xFF), 0, 0, 0, next_header];
     acc \<leftarrow> checksum_partial pseudo_header 40 0;
     acc \<leftarrow> checksum_partial segment segment_len acc;
     Some (checksum_verdict (checksum_fold acc))
   }"

subsection \<open>Reference: RFC 1071\<close>

text \<open>The plain sum of the 16-bit words of a message, an odd last byte padded with a zero byte.\<close>

fun words16_sum :: "buf \<Rightarrow> nat" where
  "words16_sum (a # b # d) = 256 * unat a + unat b + words16_sum d"
| "words16_sum [a] = 256 * unat a"
| "words16_sum [] = 0"

text \<open>One's-complement addition: the carry out of bit 15 is added back in.\<close>

definition ones_add :: "u16 \<Rightarrow> u16 \<Rightarrow> u16" where
  "ones_add a b = (let s = unat a + unat b in of_nat (s mod 65536 + s div 65536))"

fun ones_sum :: "buf \<Rightarrow> u16" where
  "ones_sum (a # b # d) = ones_add (be16 a b) (ones_sum d)"
| "ones_sum [a] = be16 a 0"
| "ones_sum [] = 0"

text \<open>The pseudo-headers of RFC 793/768 and RFC 2460 section 8.1.\<close>

definition ipv4_pseudo_header :: "buf \<Rightarrow> buf \<Rightarrow> u8 \<Rightarrow> u16 \<Rightarrow> buf" where
  "ipv4_pseudo_header src dst proto n = take 4 src @ take 4 dst @ [0, proto] @ bytes16 n"

definition ipv6_pseudo_header :: "buf \<Rightarrow> buf \<Rightarrow> u8 \<Rightarrow> u32 \<Rightarrow> buf" where
  "ipv6_pseudo_header src dst proto n = take 16 src @ take 16 dst @ bytes32 n @ [0, 0, 0, proto]"

text \<open>The value every carry order folds to: the representative of the sum modulo 65535.\<close>

definition fold16 :: "nat \<Rightarrow> nat" where
  "fold16 n = (if n = 0 then 0 else Suc ((n - 1) mod 65535))"

subsection \<open>The carry fold\<close>

declare checksum_fold.simps [simp del]

lemma fold16_carry: "fold16 (r + q) = fold16 (65536 * q + r)"
proof (cases "r + q = 0")
  case False
  then have "65536 * q + r - 1 = (r + q - 1) + 65535 * q" by linarith
  then have "(65536 * q + r - 1) mod 65535 = (r + q - 1) mod 65535" by (metis mod_mult_self2)
  with False show ?thesis by (auto simp: fold16_def)
qed (simp add: fold16_def)

lemma fold16_step: "fold16 (n mod 65536 + n div 65536) = fold16 n"
  using fold16_carry [of "n mod 65536" "n div 65536"] by simp

lemma unat_checksum_fold: "unat (checksum_fold s) = fold16 (unat s)"
proof (induction s rule: checksum_fold.induct)
  case (1 s)
  show ?case
  proof (cases "drop_bit 16 s = 0")
    case True
    then show ?thesis
      by (simp add: checksum_fold.simps [of s] drop_bit_16_0_iff fold16_def) 
  next
    case False
    with 1 show ?thesis
      by (simp add: checksum_fold.simps [of s] unat_fold_step fold16_step)
  qed
qed

lemma fold16_le: "fold16 n \<le> 65535"
  using mod_less_divisor [of 65535 "n - 1"] by (simp add: fold16_def del: mod_less_divisor)

lemma fold16_eq_max: "fold16 n = 65535 \<longleftrightarrow> n \<noteq> 0 \<and> 65535 dvd n"
proof (cases n)
  case (Suc m)
  have "Suc (m mod 65535) = 65535 \<longleftrightarrow> Suc m mod 65535 = 0"
    by (simp add: mod_Suc)
  with Suc show ?thesis by (simp add: fold16_def dvd_eq_mod_eq_0)
qed (simp add: fold16_def)

lemma fold16_add: "fold16 (fold16 m + n) = fold16 (m + n)"
proof (cases "m = 0")
  case False
  then obtain k where "m = fold16 m + 65535 * k"
    by (metis Suc_pred' add_Suc fold16_def mod_mult_div_eq neq0_conv)
  then have "m + n - 1 = (fold16 m + n - 1) + 65535 * k"
    using False by (simp add: fold16_def)
  then have "(m + n - 1) mod 65535 = (fold16 m + n - 1) mod 65535"
    by (metis mod_mult_self2)
  with False show ?thesis by (auto simp: fold16_def)
qed (simp add: fold16_def)

lemma checksum_verdict_fold:
  "checksum_verdict (checksum_fold acc) = (if unat acc \<noteq> 0 \<and> 65535 dvd unat acc then 1 else 0)"
proof -
  let ?s = "checksum_fold acc"
  have "unat ?s < 65536"
    using fold16_le [of "unat acc"] by (simp add: unat_checksum_fold)
  then have "?s AND 0xFFFF = 0xFFFF \<longleftrightarrow> unat ?s = 65535"
    by (simp add: word_unat_eq_iff unat_and_low)
  then show ?thesis
    by (simp add: checksum_verdict_def unat_checksum_fold fold16_eq_max)
qed

subsection \<open>The summation loop\<close>

lemma words16_sum_append:
  "even (length xs) \<Longrightarrow> words16_sum (xs @ ys) = words16_sum xs + words16_sum ys"
  by (induction xs rule: words16_sum.induct) auto

lemma words16_sum_bound: "2 * words16_sum d \<le> 65535 * (length d + 1)"
proof (induction d rule: words16_sum.induct)
  case (1 a b d)
  with unat_u8_bound [of a] unat_u8_bound [of b] show ?case by simp
next
  case (2 a)
  with unat_u8_bound [of a] show ?case by simp
qed simp

text \<open>
  From an even index inside the message the loop neither wraps nor leaves the buffer: together with
  the odd-byte step it adds the words of the rest of the message.
\<close>

lemma checksum_loop_spec:
  assumes "even (unat i)" "unat i \<le> unat len" "buf_ok d len"
  shows "(do {
      (i, acc) \<leftarrow> checksum_loop d len i acc;
      if i < len then do { a \<leftarrow> rd d (unat i); Some (acc + push_bit 8 (ucast a)) } else Some acc
    }) = Some (acc + of_nat (words16_sum (drop (unat i) (take (unat len) d))))"
  using assms
proof (induction "unat len - unat i" arbitrary: i acc rule: less_induct)
  case less
  have len: "unat len \<le> length d" using less.prems(3) by (simp add: buf_ok_def)
  have "unat i < 4294967295"
  proof -
    have "unat i < 4294967296" using unsigned_less [of i] by simp
    moreover have "unat i \<noteq> 4294967295" using less.prems(1) by auto
    ultimately show ?thesis by linarith
  qed
  then have i1: "unat (i + 1) = unat i + 1"
    by (simp add: unat_word_ariths)
  show ?case
  proof (cases "i + 1 < len")
    case True
    then have lt: "unat i + 1 < unat len" by (simp add: word_less_nat_alt i1)
    moreover have "unat len < 4294967296" using unsigned_less [of len] by simp
    ultimately have i2: "unat (i + 2) = unat i + 2" by (simp add: unat_word_ariths)
    have "drop (unat i) (take (unat len) d)
        = d ! unat i # d ! (unat i + 1) # drop (unat (i + 2)) (take (unat len) d)"
      using lt len by (simp add: i2 Cons_nth_drop_Suc [symmetric] numeral_2_eq_2)
    then show ?thesis
      using True lt len less.prems less.hyps [of "i + 2"]
      by (subst checksum_loop.simps) (simp add: i1 i2 mem_simps promoted_or add.assoc)
  next
    case False
    then have "unat len \<le> unat i + 1" by (simp add: not_less word_le_nat_alt i1)
    then consider "unat len = unat i" | "unat len = unat i + 1"
      using less.prems(2) by linarith
    then show ?thesis
    proof cases
      case 1
      with False show ?thesis
        by (subst checksum_loop.simps) (simp add: word_less_nat_alt)
    next
      case 2
      then have "drop (unat i) (take (unat len) d) = [d ! unat i]"
        using len by (simp add: take_Suc_conv_app_nth)
      with False 2 len show ?thesis
        by (subst checksum_loop.simps) (simp add: word_less_nat_alt mem_simps promoted_shift)
    qed
  qed
qed

lemma checksum_partial_spec:
  "buf_ok d len \<Longrightarrow>
    checksum_partial d len acc = Some (acc + of_nat (words16_sum (take (unat len) d)))"
  using checksum_loop_spec [of 0 len d acc] by (simp add: checksum_partial_def)

subsection \<open>Deferred carries against end-around carries\<close>

lemma unat_ones_add: "unat (ones_add a b) = fold16 (unat a + unat b)"
proof -
  define s where "s = unat a + unat b"
  have "unat a < 65536" "unat b < 65536"
    using unsigned_less [of a] unsigned_less [of b] by simp_all
  then have s: "s \<le> 131070" by (simp add: s_def)
  have "s mod 65536 + s div 65536 = fold16 s"
  proof (cases "s < 65536")
    case True
    then show ?thesis by (cases s) (simp_all add: fold16_def)
  next
    case False
    then have "s div 65536 = 1" "s mod 65536 = s - 65536" "(s - 1) mod 65535 = s - 65536"
      using s by (simp_all add: div_nat_eqI le_mod_geq)
    with False show ?thesis by (simp add: fold16_def)
  qed
  then show ?thesis
    using fold16_le [of s] by (simp add: ones_add_def Let_def s_def unat_of_nat del: of_nat_add)
qed

lemma unat_ones_sum: "unat (ones_sum d) = fold16 (words16_sum d)"
proof (induction d rule: words16_sum.induct)
  case (1 a b d)
  then show ?case
    by (simp add: unat_ones_add unat_be16 fold16_add [of "words16_sum d"] add.commute)
next
  case (2 a)
  have "256 * unat a \<le> 65535" using unat_u8_bound [of a] by simp
  then show ?case by (cases "unat a") (simp_all add: unat_be16 fold16_def)
qed (simp add: fold16_def)

lemma ones_sum_all_ones:
  "ones_sum d = 0xFFFF \<longleftrightarrow> words16_sum d \<noteq> 0 \<and> 65535 dvd words16_sum d"
  by (simp add: word_unat_eq_iff unat_ones_sum fold16_eq_max)

text \<open>The verdict on a sum that did not overflow its 32 bits.\<close>

lemma checksum_verdict_ones_sum:
  "words16_sum d < 4294967296 \<Longrightarrow>
    checksum_verdict (checksum_fold (of_nat (words16_sum d))) = (if ones_sum d = 0xFFFF then 1 else 0)"
  by (simp add: checksum_verdict_fold ones_sum_all_ones unat_of_nat)

lemma ipv4_pseudo_header_sum:
  assumes "4 \<le> length src" "4 \<le> length dst"
  shows "length (ipv4_pseudo_header src dst proto n) = 12"
    and "words16_sum (ipv4_pseudo_header src dst proto n) \<le> 500000"
proof -
  show len: "length (ipv4_pseudo_header src dst proto n) = 12"
    using assms by (simp add: ipv4_pseudo_header_def)
  show "words16_sum (ipv4_pseudo_header src dst proto n) \<le> 500000"
    using words16_sum_bound [of "ipv4_pseudo_header src dst proto n"] by (simp add: len)
qed

lemma ipv6_pseudo_header_sum:
  assumes "16 \<le> length src" "16 \<le> length dst"
  shows "length (ipv6_pseudo_header src dst proto n) = 40"
    and "words16_sum (ipv6_pseudo_header src dst proto n) \<le> 1400000"
proof -
  show len: "length (ipv6_pseudo_header src dst proto n) = 40"
    using assms by (simp add: ipv6_pseudo_header_def)
  show "words16_sum (ipv6_pseudo_header src dst proto n) \<le> 1400000"
    using words16_sum_bound [of "ipv6_pseudo_header src dst proto n"] by (simp add: len)
qed

text \<open>The chained call: a pseudo-header of even length, then the segment, is one longer message.\<close>

lemma checksum_partial_chain:
  assumes "buf_ok seg len" "length ph = unat n" "even (unat n)"
  shows "checksum_partial ph n 0 \<bind> checksum_partial seg len
    = Some (of_nat (words16_sum (ph @ take (unat len) seg)))"
  using assms by (simp add: checksum_partial_spec buf_ok_def words16_sum_append)

text \<open>A segment as long as a capture buffer cannot overflow the 32-bit sum.\<close>

lemma segment_sum_bound:
  "unat len \<le> 65536 \<Longrightarrow> words16_sum (take (unat len) seg) \<le> 2147516415"
  using words16_sum_bound [of "take (unat len) seg"] by (simp add: min_def split: if_splits)

lemma checksum_verify_spec:
  assumes "buf_ok d len" "unat len \<le> 65536"
  shows "checksum_verify d len = Some (if ones_sum (take (unat len) d) = 0xFFFF then 1 else 0)"
  using assms checksum_verdict_ones_sum [of "take (unat len) d"] segment_sum_bound [of len d]
  by (simp add: checksum_verify_def checksum_partial_spec)

lemma checksum_verify_ipv4_pseudo_spec:
  assumes "buf_ok seg len" "unat len \<le> 65536" "4 \<le> length src" "4 \<le> length dst"
  shows "checksum_verify_ipv4_pseudo seg len src dst proto
    = Some (if ones_sum (ipv4_pseudo_header src dst proto (ucast len) @ take (unat len) seg) = 0xFFFF
        then 1 else 0)"
proof -
  let ?ph = "ipv4_pseudo_header src dst proto (ucast len)"
  have "src \<noteq> []" "dst \<noteq> []" using assms(3,4) by auto
  then have "checksum_verify_ipv4_pseudo seg len src dst proto = do {
      acc \<leftarrow> checksum_partial ?ph 12 0 \<bind> checksum_partial seg len;
      Some (checksum_verdict (checksum_fold acc)) }"
    using assms(3,4)
    by (simp add: checksum_verify_ipv4_pseudo_def ipv4_pseudo_header_def mem_simps take_4_nth)
  then show ?thesis
    using assms(1,2) ipv4_pseudo_header_sum [OF assms(3,4), of proto "ucast len"]
      segment_sum_bound [of len seg] checksum_verdict_ones_sum [of "?ph @ take (unat len) seg"]
    by (simp add: checksum_partial_chain words16_sum_append)
qed

lemma checksum_verify_ipv6_pseudo_spec:
  assumes "buf_ok seg len" "unat len \<le> 65536" "16 \<le> length src" "16 \<le> length dst"
  shows "checksum_verify_ipv6_pseudo seg len src dst proto
    = Some (if ones_sum (ipv6_pseudo_header src dst proto len @ take (unat len) seg) = 0xFFFF
        then 1 else 0)"
proof -
  let ?ph = "ipv6_pseudo_header src dst proto len"
  have "checksum_verify_ipv6_pseudo seg len src dst proto = do {
      acc \<leftarrow> checksum_partial ?ph 40 0 \<bind> checksum_partial seg len;
      Some (checksum_verdict (checksum_fold acc)) }"
    using assms(3,4)
    by (simp add: checksum_verify_ipv6_pseudo_def ipv6_pseudo_header_def bytes32_def mem_simps)
  then show ?thesis
    using assms(1,2) ipv6_pseudo_header_sum [OF assms(3,4), of proto len]
      segment_sum_bound [of len seg] checksum_verdict_ones_sum [of "?ph @ take (unat len) seg"]
    by (simp add: checksum_partial_chain words16_sum_append)
qed

subsection \<open>Error detection\<close>

text \<open>
  A validity check on messages that no single changed byte survives; any two accepted messages of
  equal length then differ in at least two bytes.
\<close>

locale message_check =
  fixes check :: "buf \<Rightarrow> bool" and limit :: nat
  assumes one_byte:
    "check d \<Longrightarrow> length d \<le> limit \<Longrightarrow> i < length d \<Longrightarrow> b \<noteq> d ! i \<Longrightarrow> \<not> check (d[i := b])"
begin

lemma distance_two:
  assumes "check d" "check d'" "length d' = length d" "length d \<le> limit" "d \<noteq> d'"
  shows "\<exists>i j. i < j \<and> j < length d \<and> d ! i \<noteq> d' ! i \<and> d ! j \<noteq> d' ! j"
proof -
  obtain i where i: "i < length d" "d ! i \<noteq> d' ! i"
    using assms(3,5) by (metis nth_equalityI)
  have "d[i := d' ! i] \<noteq> d'"
    using one_byte [OF assms(1,4) i(1), of "d' ! i"] i assms(2) by auto
  then obtain j where j: "j < length d" "d[i := d' ! i] ! j \<noteq> d' ! j"
    using assms(3) by (metis length_list_update nth_equalityI)
  then have "j \<noteq> i" "d ! j \<noteq> d' ! j"
    using i by (auto simp: nth_list_update split: if_splits)
  with i j show ?thesis
    by (metis linorder_neqE_nat)
qed

end

lemma words16_sum_update:
  "i < length d \<Longrightarrow>
    words16_sum (d[i := b]) + (if even i then 256 else 1) * unat (d ! i)
      = words16_sum d + (if even i then 256 else 1) * unat b"
proof (induction d arbitrary: i rule: words16_sum.induct)
  case (1 a b d)
  show ?case
  proof (cases i)
    case (Suc j)
    with 1 show ?thesis by (cases j) auto
  qed simp
qed (auto simp: less_Suc_eq)

lemma one_byte_changes_sum:
  assumes "i < length d" "b \<noteq> d ! i" "65535 dvd k + words16_sum d"
  shows "\<not> 65535 dvd k + words16_sum (d[i := b])"
proof
  assume dvd: "65535 dvd k + words16_sum (d[i := b])"
  let ?w = "if even i then 256 else 1 :: int"
  define \<delta> where "\<delta> = uint b - uint (d ! i)"
  have "int (k + words16_sum (d[i := b])) - int (k + words16_sum d) = ?w * \<delta>"
    using words16_sum_update [OF assms(1), of b, THEN arg_cong [where f = int]]
    by (auto simp: \<delta>_def algebra_simps split: if_splits)
  then have "65535 dvd ?w * \<delta>"
    using dvd assms(3) by (metis dvd_diff int_dvd_int_iff of_nat_numeral)
  moreover have "\<delta> \<noteq> 0"
    using assms(2) by (simp add: \<delta>_def word_uint_eq_iff)
  moreover have "uint b < 256" "uint (d ! i) < 256"
    using uint_lt2p [of b] uint_lt2p [of "d ! i"] by simp_all
  then have "\<bar>\<delta>\<bar> \<le> 255"
    using uint_ge_0 [of b] uint_ge_0 [of "d ! i"] unfolding \<delta>_def by linarith
  ultimately have "65535 dvd ?w * \<delta>" "?w * \<delta> \<noteq> 0" "\<bar>?w * \<delta>\<bar> < 65535"
    by auto
  then show False
    using dvd_imp_le_int [of "?w * \<delta>" 65535] by linarith
qed

lemma one_byte_changes_ones_sum:
  assumes "ones_sum (ph @ d) = 0xFFFF" "even (length ph)" "i < length d" "b \<noteq> d ! i"
  shows "ones_sum (ph @ d[i := b]) \<noteq> 0xFFFF"
  using assms one_byte_changes_sum [of i d b "words16_sum ph"]
  by (simp add: ones_sum_all_ones words16_sum_append)

lemma buf_ok_of_nat: "length d < 4294967296 \<Longrightarrow> buf_ok d (of_nat (length d))"
  by (simp add: buf_ok_def unat_of_nat)

lemma checksum_verify_accepts:
  assumes "length d = n" "n \<le> 65535"
  shows "checksum_verify d (of_nat n) = Some 1 \<longleftrightarrow> ones_sum d = 0xFFFF"
  using assms checksum_verify_spec [of d "of_nat n"]
  by (simp add: buf_ok_def unat_of_nat)

lemma checksum_verify_ipv4_pseudo_accepts:
  assumes "length d = n" "n \<le> 65535" "4 \<le> length src" "4 \<le> length dst"
  shows "checksum_verify_ipv4_pseudo d (of_nat n) src dst proto = Some 1
    \<longleftrightarrow> ones_sum (ipv4_pseudo_header src dst proto (of_nat n) @ d) = 0xFFFF"
  using assms checksum_verify_ipv4_pseudo_spec [of d "of_nat n"]
  by (simp add: buf_ok_def unat_of_nat unsigned_of_nat take_bit_nat_eq_self)

lemma checksum_verify_ipv6_pseudo_accepts:
  assumes "length d = n" "n \<le> 65535" "16 \<le> length src" "16 \<le> length dst"
  shows "checksum_verify_ipv6_pseudo d (of_nat n) src dst proto = Some 1
    \<longleftrightarrow> ones_sum (ipv6_pseudo_header src dst proto (of_nat n) @ d) = 0xFFFF"
  using assms checksum_verify_ipv6_pseudo_spec [of d "of_nat n"]
  by (simp add: buf_ok_def unat_of_nat)

interpretation plain_check: message_check
  "\<lambda>d. checksum_verify d (of_nat (length d)) = Some 1" 65535
  using one_byte_changes_ones_sum [of "[]"] by unfold_locales (simp add: checksum_verify_accepts)

interpretation ipv4_check: message_check
  "\<lambda>seg. 4 \<le> length src \<and> 4 \<le> length dst
     \<and> checksum_verify_ipv4_pseudo seg (of_nat (length seg)) src dst proto = Some 1" 65535
  for src dst proto
  by unfold_locales
    (auto simp: checksum_verify_ipv4_pseudo_accepts ipv4_pseudo_header_sum
      one_byte_changes_ones_sum)

interpretation ipv6_check: message_check
  "\<lambda>seg. 16 \<le> length src \<and> 16 \<le> length dst
     \<and> checksum_verify_ipv6_pseudo seg (of_nat (length seg)) src dst proto = Some 1" 65535
  for src dst proto
  by unfold_locales
    (auto simp: checksum_verify_ipv6_pseudo_accepts ipv6_pseudo_header_sum
      one_byte_changes_ones_sum)

subsection \<open>Properties\<close>



end
