(* ===== verification/Parser_Interface.thy ===== *)
theory Parser_Interface
  imports Prelude
begin

text \<open>
  The calling convention the protocol parsers share (\<open>eth_parse\<close>, \<open>ip_parse\<close>, \<open>ipv6_parse\<close>,
  \<open>tcp_parse\<close>, \<open>udp_parse\<close>): a nullable data pointer and its length, an output header, and two
  optional outputs for the payload pointer and its length. The locale \<open>header_parser\<close> is the
  contract the decoding pipeline relies on; the locale \<open>parser_stack\<close> derives what holds when one
  parser is run on the payload of another. The protocol theories interpret both.
\<close>

subsection \<open>The convention\<close>

text \<open>
  The result of a call: the return code and the contents of the three output parameters, each
  \<open>None\<close> where the caller passed \<open>NULL\<close>. An output payload slot holds a pointer, itself nullable.
\<close>

type_synonym 'h parse_out = "int \<times> 'h option \<times> buf option option \<times> u32 option"

type_synonym 'h parser =
  "buf option \<Rightarrow> u32 \<Rightarrow> 'h option \<Rightarrow> buf option option \<Rightarrow> u32 option \<Rightarrow> 'h parse_out option"

text \<open>\<open>if (out_payload != NULL) *out_payload = data + header_len;\<close>\<close>

definition store_payload :: "buf \<Rightarrow> u32 \<Rightarrow> buf option option \<Rightarrow> buf option option option" where
  "store_payload d header_len out_payload =
     (case out_payload of
        None \<Rightarrow> Some None
      | Some _ \<Rightarrow> do { p \<leftarrow> ptr_add d (unat header_len); Some (Some (Some p)) })"

text \<open>\<open>if (out_payload_len != NULL) *out_payload_len = n;\<close>\<close>

definition store_len :: "u32 \<Rightarrow> u32 option \<Rightarrow> u32 option" where
  "store_len n out_payload_len = map_option (\<lambda>_. n) out_payload_len"

lemma store_payload_inside [mem_simps]:
  "unat header_len \<le> length d \<Longrightarrow>
    store_payload d header_len op = Some (map_option (\<lambda>_. Some (drop (unat header_len) d)) op)"
  by (cases op) (simp_all add: store_payload_def mem_simps)

lemma store_len_Some [simp]: "store_len n (Some m) = Some n"
  and store_len_None [simp]: "store_len n None = None"
  by (simp_all add: store_len_def)

subsection \<open>The contract\<close>

locale header_parser =
  fixes parse :: "'h parser" and min_len :: nat
  assumes null: "data = None \<or> oh = None \<Longrightarrow> parse data len oh op ol = Some (-1, oh, op, ol)"
    and short: "unat len < min_len \<Longrightarrow> parse data len oh op ol = Some (-1, oh, op, ol)"
    and safe: "buf_ok d len \<Longrightarrow> parse (Some d) len (Some h) op ol \<noteq> None"
    and code: "buf_ok d len \<Longrightarrow> parse (Some d) len (Some h) op ol = Some (rc, oh', op', ol') \<Longrightarrow>
      rc = 0 \<or> rc = -1 \<and> op' = op \<and> ol' = ol"
    and keeps: "buf_ok d len \<Longrightarrow> parse (Some d) len (Some h) op ol = Some (rc, oh', op', ol') \<Longrightarrow>
      oh' \<noteq> None"
    and accepted: "buf_ok d len \<Longrightarrow> parse (Some d) len (Some h) op ol = Some (0, oh', op', ol') \<Longrightarrow>
      \<exists>h' off m. oh' = Some h' \<and> op' = map_option (\<lambda>_. Some (drop off d)) op \<and> ol' = store_len m ol
        \<and> min_len \<le> off \<and> off + unat m \<le> unat len"
    and initialises: "buf_ok d len \<Longrightarrow> parse (Some d) len (Some h) op ol = Some (0, oh', op', ol') \<Longrightarrow>
      parse (Some d) len (Some h0) op ol = Some (0, oh', op', ol')"
begin

lemma never_undefined: "buf_ok d len \<Longrightarrow> parse (Some d) len oh op ol \<noteq> None"
  using null [of "Some d" oh] safe by (cases oh) simp_all

lemma accepted_nonnull:
  "parse (Some d) len oh op ol = Some (0, oh', op', ol') \<Longrightarrow> \<exists>h. oh = Some h"
  using null [of "Some d" oh] by (cases oh) simp_all

text \<open>The payload handed to the next layer satisfies the precondition of its parser.\<close>

lemma payload_ok:
  assumes "buf_ok d len" "parse (Some d) len oh (Some p) (Some n) = Some (0, oh', op', ol')"
  obtains h off m where "oh' = Some h" "op' = Some (Some (drop off d))" "ol' = Some m"
    and "min_len \<le> off" "off + unat m \<le> unat len" "buf_ok (drop off d) m"
proof -
  obtain h where "oh = Some h" using accepted_nonnull [OF assms(2)] by blast
  with accepted [OF assms(1)] assms that show thesis by (fastforce simp: buf_ok_def)
qed

end

subsection \<open>Parsers that return no payload\<close>

text \<open>
  \<open>arp_parse\<close> and \<open>icmp_parse\<close> have no payload outputs, and the printer calls \<open>tcp_parse\<close> and
  \<open>udp_parse\<close> with both of them \<open>NULL\<close>.
\<close>

type_synonym 'h leaf_parser = "buf option \<Rightarrow> u32 \<Rightarrow> 'h option \<Rightarrow> (int \<times> 'h option) option"

locale leaf_parser =
  fixes leaf :: "'h leaf_parser" and min_len :: nat
  assumes null: "data = None \<or> oh = None \<Longrightarrow> leaf data len oh = Some (-1, oh)"
    and short: "unat len < min_len \<Longrightarrow> leaf data len oh = Some (-1, oh)"
    and safe: "buf_ok d len \<Longrightarrow> leaf (Some d) len (Some h) \<noteq> None"
    and code: "buf_ok d len \<Longrightarrow> leaf (Some d) len (Some h) = Some (rc, oh') \<Longrightarrow>
      (rc = 0 \<or> rc = -1) \<and> oh' \<noteq> None"
    and initialises: "buf_ok d len \<Longrightarrow> leaf (Some d) len (Some h) = Some (0, oh') \<Longrightarrow>
      leaf (Some d) len (Some h0) = Some (0, oh')"
begin

lemma outcome:
  assumes "buf_ok d len"
  obtains (accept) h' where "leaf (Some d) len (Some h) = Some (0, Some h')" "min_len \<le> unat len"
  | (reject) h' where "leaf (Some d) len (Some h) = Some (-1, Some h')"
proof -
  obtain rc h' where r: "leaf (Some d) len (Some h) = Some (rc, Some h')" "rc = 0 \<or> rc = -1"
    using safe [OF assms] code [OF assms] by (metis not_None_eq surj_pair)
  show thesis
  proof (cases "rc = 0")
    case True
    with r short [of len "Some d" "Some h"] accept show thesis by fastforce
  qed (use r reject in auto)
qed

end

definition without_payload :: "'h parser \<Rightarrow> 'h leaf_parser" where
  "without_payload parse data len oh =
     map_option (\<lambda>(rc, oh', _). (rc, oh')) (parse data len oh None None)"

lemma without_payload_Some:
  "without_payload parse data len oh = Some (rc, oh')
    \<longleftrightarrow> (\<exists>op ol. parse data len oh None None = Some (rc, oh', op, ol))"
  by (force simp: without_payload_def)

sublocale header_parser \<subseteq> leaf: leaf_parser "without_payload parse" min_len
proof
  fix d len h rc oh' h0 assume ok: "buf_ok d len"
  show "without_payload parse (Some d) len (Some h) \<noteq> None"
    using safe [OF ok] by (simp add: without_payload_def)
  show "without_payload parse (Some d) len (Some h) = Some (rc, oh') \<Longrightarrow>
      (rc = 0 \<or> rc = -1) \<and> oh' \<noteq> None"
    unfolding without_payload_Some using code [OF ok] keeps [OF ok] by blast
  show "without_payload parse (Some d) len (Some h) = Some (0, oh') \<Longrightarrow>
      without_payload parse (Some d) len (Some h0) = Some (0, oh')"
    unfolding without_payload_Some using initialises [OF ok] by blast
qed (simp_all add: without_payload_def null short)

subsection \<open>How the contracts are established\<close>

text \<open>
  Most parsers are described by one equation: on an acceptable buffer they store the fields and
  return the payload, on any other they touch nothing. The contracts follow from its shape.
\<close>

lemma header_parserI:
  assumes "\<And>data len oh op ol. data = None \<or> oh = None \<Longrightarrow> parse data len oh op ol = Some (-1, oh, op, ol)"
    and "\<And>data len oh op ol. unat len < min_len \<Longrightarrow> parse data len oh op ol = Some (-1, oh, op, ol)"
    and eq: "\<And>d len h op ol. buf_ok d len \<Longrightarrow> parse (Some d) len (Some h) op ol = Some
      (if accepts d len then (0, Some (fields d), map_option (\<lambda>_. Some (drop (off d) d)) op,
         store_len (plen d len) ol) else (-1, Some h, op, ol))"
    and bound: "\<And>d len. accepts d len \<Longrightarrow> min_len \<le> off d \<and> off d + unat (plen d len) \<le> unat len"
  shows "header_parser parse min_len"
proof
  fix d len h op ol oh' op' ol' assume ok: "buf_ok d len"
  assume "parse (Some d) len (Some h) op ol = Some (0, oh', op', ol')"
  with bound [of d len] show "\<exists>h' off m. oh' = Some h' \<and> op' = map_option (\<lambda>_. Some (drop off d)) op
      \<and> ol' = store_len m ol \<and> min_len \<le> off \<and> off + unat m \<le> unat len"
    by (auto simp: eq [OF ok] split: if_splits)
qed (auto simp: assms(1,2) eq split: if_splits)

lemma leaf_parserI:
  assumes "\<And>data len oh. data = None \<or> oh = None \<Longrightarrow> leaf data len oh = Some (-1, oh)"
    and "\<And>data len oh. unat len < min_len \<Longrightarrow> leaf data len oh = Some (-1, oh)"
    and "\<And>d len h. buf_ok d len \<Longrightarrow> leaf (Some d) len (Some h) = Some
      (if accepts d len then (0, Some (fields d)) else (-1, Some h))"
  shows "leaf_parser leaf min_len"
  by unfold_locales (auto simp: assms split: if_splits)

subsection \<open>A parser run on the payload of another\<close>

locale parser_stack =
  outer: header_parser parse1 n1 + inner: header_parser parse2 n2
  for parse1 :: "'h parser" and n1 :: nat and parse2 :: "'g parser" and n2 :: nat
begin

lemma nested_safe:
  assumes "buf_ok d len"
    and "parse1 (Some d) len oh (Some p) (Some n) = Some (0, oh', Some pl, Some m)"
  shows "parse2 pl m oh2 op2 ol2 \<noteq> None"
  using outer.payload_ok [OF assms] inner.never_undefined by (metis option.inject)

lemma nested_payload:
  assumes "buf_ok d len"
    and "parse1 (Some d) len oh (Some p) (Some n) = Some (0, oh', Some pl, Some m)"
    and "parse2 pl m oh2 (Some p2) (Some k) = Some (0, oh2', Some pl2, Some m2)"
  shows "\<exists>off. pl2 = Some (drop off d) \<and> n1 + n2 \<le> off \<and> off + unat m2 \<le> unat len"
proof -
  from outer.payload_ok [OF assms(1,2)] obtain off1
    where 1: "pl = Some (drop off1 d)" "n1 \<le> off1" "off1 + unat m \<le> unat len"
      "buf_ok (drop off1 d) m"
    by (metis option.inject)
  from inner.payload_ok [OF 1(4) assms(3) [unfolded 1(1)]] obtain off2
    where "pl2 = Some (drop off2 (drop off1 d))" "n2 \<le> off2" "off2 + unat m2 \<le> unat m"
    by (metis option.inject)
  with 1 show ?thesis
    by (intro exI [of _ "off1 + off2"]) (auto simp: add.commute)
qed

end

end
