(* ===== verification/C_Text.thy ===== *)
theory C_Text
  imports Prelude
begin

text \<open>
  The part of C's formatted output the program uses: \<open>%u\<close>/\<open>%d\<close> on non-negative values, \<open>%x\<close>,
  \<open>%02x\<close>, and \<open>snprintf\<close> into a buffer of given size. A C string is the list of its characters
  without the terminating NUL.
\<close>

subsection \<open>Digits and conversions\<close>

definition hex_digit :: "nat \<Rightarrow> char" where
  "hex_digit n = char_of (if n < 10 then 48 + n else 87 + n)"

fun fmt_u :: "nat \<Rightarrow> string" where
  "fmt_u n = (if n < 10 then [hex_digit n] else fmt_u (n div 10) @ [hex_digit (n mod 10)])"

fun fmt_x :: "nat \<Rightarrow> string" where
  "fmt_x n = (if n < 16 then [hex_digit n] else fmt_x (n div 16) @ [hex_digit (n mod 16)])"

definition fmt_02x :: "u8 \<Rightarrow> string" where
  "fmt_02x b = [hex_digit (unat b div 16), hex_digit (unat b mod 16)]"

text \<open>What \<open>snprintf(buf, n, ...)\<close> leaves in the buffer: the output cut to \<open>n - 1\<close> characters.\<close>

definition snprintf :: "nat \<Rightarrow> string \<Rightarrow> string" where
  "snprintf n s = take (n - 1) s"

declare fmt_u.simps [simp del] fmt_x.simps [simp del]

subsection \<open>Lengths\<close>

lemma length_fmt_u: "n < 10 ^ k \<Longrightarrow> 0 < k \<Longrightarrow> length (fmt_u n) \<le> k"
proof (induction n arbitrary: k rule: fmt_u.induct)
  case (1 n)
  show ?case
  proof (cases "n < 10")
    case False
    then obtain j where j: "k = Suc j" "0 < j"
      using "1.prems" by (cases k; cases "k = 1"; fastforce)
    then have "n div 10 < 10 ^ j"
      using "1.prems"(1) by (simp add: less_mult_imp_div_less mult.commute)
    with 1 False j show ?thesis by (simp add: fmt_u.simps [of n])
  qed (use 1 in \<open>simp add: fmt_u.simps [of n]\<close>)
qed

lemma length_fmt_x: "n < 16 ^ k \<Longrightarrow> 0 < k \<Longrightarrow> length (fmt_x n) \<le> k"
proof (induction n arbitrary: k rule: fmt_x.induct)
  case (1 n)
  show ?case
  proof (cases "n < 16")
    case False
    then obtain j where j: "k = Suc j" "0 < j"
      using "1.prems" by (cases k; cases "k = 1"; fastforce)
    then have "n div 16 < 16 ^ j"
      using "1.prems"(1) by (simp add: less_mult_imp_div_less mult.commute)
    with 1 False j show ?thesis by (simp add: fmt_x.simps [of n])
  qed (use 1 in \<open>simp add: fmt_x.simps [of n]\<close>)
qed

lemma length_fmt_02x [simp]: "length (fmt_02x b) = 2"
  by (simp add: fmt_02x_def)

lemma fmt_u_u8: "length (fmt_u (unat (b :: u8))) \<le> 3"
  using unat_u8_bound [of b] by (intro length_fmt_u) simp_all

lemma fmt_x_u16: "length (fmt_x (unat (w :: u16))) \<le> 4"
  using unat_u16_bound [of w] by (intro length_fmt_x) simp_all

lemma snprintf_fits: "length s < n \<Longrightarrow> snprintf n s = s"
  by (simp add: snprintf_def)

end
