(* ===== verification/Eth_Parser.thy ===== *)
theory Eth_Parser
  imports Parser_Interface C_Text
begin

text \<open>
  \<open>src/src/c/eth_parser.c\<close> and \<open>eth_parser.h\<close>: Ethernet II headers with an optional 802.1Q tag.
  \<open>eth_parse\<close> follows the C function statement by statement; \<open>eth_encode\<close> is the wire format of a
  header, and the lemmas show that parsing is exactly its inverse.
\<close>

subsection \<open>Constants and the header\<close>

abbreviation ETH_ADDR_LEN :: nat where "ETH_ADDR_LEN \<equiv> 6"
abbreviation ETH_HEADER_LEN :: u32 where "ETH_HEADER_LEN \<equiv> 14"
abbreviation ETH_VLAN_TAG_LEN :: u32 where "ETH_VLAN_TAG_LEN \<equiv> 4"

abbreviation ETH_TYPE_IPV4 :: u16 where "ETH_TYPE_IPV4 \<equiv> 0x0800"
abbreviation ETH_TYPE_ARP :: u16 where "ETH_TYPE_ARP \<equiv> 0x0806"
abbreviation ETH_TYPE_IPV6 :: u16 where "ETH_TYPE_IPV6 \<equiv> 0x86DD"
abbreviation ETH_TYPE_VLAN :: u16 where "ETH_TYPE_VLAN \<equiv> 0x8100"

record eth_header_t =
  dst_mac :: buf
  src_mac :: buf
  ether_type :: u16
  has_vlan :: u8
  vlan_tci :: u16

definition ETH_VLAN_ID :: "u16 \<Rightarrow> u16" where
  "ETH_VLAN_ID tci = tci AND 0x0FFF"

definition ETH_VLAN_PCP :: "u16 \<Rightarrow> u8" where
  "ETH_VLAN_PCP tci = ucast (drop_bit 13 tci)"

subsection \<open>Parsing\<close>

definition eth_parse :: "eth_header_t parser" where
  "eth_parse data len out_header out_payload out_payload_len =
     (case (data, out_header) of
        (Some d, Some h) \<Rightarrow>
          if len < ETH_HEADER_LEN then Some (-1, out_header, out_payload, out_payload_len)
          else do {
            dst \<leftarrow> memcpy_from d 0 ETH_ADDR_LEN;
            src \<leftarrow> memcpy_from d ETH_ADDR_LEN ETH_ADDR_LEN;
            let h = h\<lparr>dst_mac := dst, src_mac := src\<rparr>;
            type_or_tpid \<leftarrow> rd16 d 12;
            let header_len = ETH_HEADER_LEN;
            if type_or_tpid = ETH_TYPE_VLAN \<and> len < ETH_HEADER_LEN + ETH_VLAN_TAG_LEN then
              Some (-1, Some h, out_payload, out_payload_len)
            else do {
              (h, header_len) \<leftarrow>
                (if type_or_tpid = ETH_TYPE_VLAN then do {
                   tci \<leftarrow> rd16 d 14;
                   ety \<leftarrow> rd16 d 16;
                   Some (h\<lparr>has_vlan := 1, vlan_tci := tci, ether_type := ety\<rparr>,
                         header_len + ETH_VLAN_TAG_LEN)
                 } else
                   Some (h\<lparr>has_vlan := 0, vlan_tci := 0, ether_type := type_or_tpid\<rparr>, header_len));
              payload \<leftarrow> store_payload d header_len out_payload;
              Some (0, Some h, payload, store_len (len - header_len) out_payload_len)
            }
          }
      | _ \<Rightarrow> Some (-1, out_header, out_payload, out_payload_len))"

subsection \<open>Formatting\<close>

abbreviation ETH_MAC_STR_LEN :: nat where "ETH_MAC_STR_LEN \<equiv> 18"

definition eth_mac_to_str :: "buf \<Rightarrow> string option" where
  "eth_mac_to_str mac = do {
     m0 \<leftarrow> rd mac 0;
     m1 \<leftarrow> rd mac 1;
     m2 \<leftarrow> rd mac 2;
     m3 \<leftarrow> rd mac 3;
     m4 \<leftarrow> rd mac 4;
     m5 \<leftarrow> rd mac 5;
     Some (snprintf ETH_MAC_STR_LEN
       (fmt_02x m0 @ '':'' @ fmt_02x m1 @ '':'' @ fmt_02x m2 @ '':'' @
        fmt_02x m3 @ '':'' @ fmt_02x m4 @ '':'' @ fmt_02x m5))
   }"

lemma eth_mac_to_str_eq:
  "eth_mac_to_str [m0, m1, m2, m3, m4, m5] = Some
    (fmt_02x m0 @ '':'' @ fmt_02x m1 @ '':'' @ fmt_02x m2 @ '':'' @
     fmt_02x m3 @ '':'' @ fmt_02x m4 @ '':'' @ fmt_02x m5)"
  by (simp add: eth_mac_to_str_def mem_simps snprintf_fits)

subsection \<open>The wire format\<close>

definition eth_encode :: "eth_header_t \<Rightarrow> buf" where
  "eth_encode h = dst_mac h @ src_mac h
     @ (if has_vlan h = 1 then [0x81, 0x00] @ bytes16 (vlan_tci h) else []) @ bytes16 (ether_type h)"

definition eth_wf :: "eth_header_t \<Rightarrow> bool" where
  "eth_wf h \<longleftrightarrow> length (dst_mac h) = ETH_ADDR_LEN \<and> length (src_mac h) = ETH_ADDR_LEN
     \<and> (has_vlan h = 1 \<or> has_vlan h = 0 \<and> vlan_tci h = 0 \<and> ether_type h \<noteq> ETH_TYPE_VLAN)"

subsection \<open>What the branches compute\<close>

lemma eth_parse_null: "data = None \<or> oh = None \<Longrightarrow> eth_parse data len oh op ol = Some (-1, oh, op, ol)"
  by (auto simp: eth_parse_def split: option.splits)

lemma eth_parse_short: "unat len < 14 \<Longrightarrow> eth_parse data len oh op ol = Some (-1, oh, op, ol)"
  by (auto simp: eth_parse_def word_less_nat_alt split: option.splits)

lemma eth_parse_eq:
  assumes "buf_ok d len"
  shows "eth_parse (Some d) len (Some h) op ol = Some
    (if unat len < 14 then (-1, Some h, op, ol)
     else if be16 (d ! 12) (d ! 13) \<noteq> ETH_TYPE_VLAN then
       (0, Some \<lparr>dst_mac = take 6 d, src_mac = take 6 (drop 6 d),
                 ether_type = be16 (d ! 12) (d ! 13), has_vlan = 0, vlan_tci = 0\<rparr>,
        map_option (\<lambda>_. Some (drop 14 d)) op, store_len (len - 14) ol)
     else if unat len < 18 then
       (-1, Some (h\<lparr>dst_mac := take 6 d, src_mac := take 6 (drop 6 d)\<rparr>), op, ol)
     else
       (0, Some \<lparr>dst_mac = take 6 d, src_mac = take 6 (drop 6 d),
                 ether_type = be16 (d ! 16) (d ! 17), has_vlan = 1, vlan_tci = be16 (d ! 14) (d ! 15)\<rparr>,
        map_option (\<lambda>_. Some (drop 18 d)) op, store_len (len - 18) ol))"
  using assms by (simp add: eth_parse_def word_less_nat_alt buf_ok_def mem_simps)

interpretation eth: header_parser eth_parse 14
proof
  fix d len h op ol rc oh' op' ol' h0 assume ok: "buf_ok d len"
  show "eth_parse (Some d) len (Some h) op ol \<noteq> None"
    by (simp add: eth_parse_eq [OF ok])
  show "eth_parse (Some d) len (Some h) op ol = Some (rc, oh', op', ol') \<Longrightarrow>
      rc = 0 \<or> rc = -1 \<and> op' = op \<and> ol' = ol"
    by (auto simp: eth_parse_eq [OF ok] split: if_splits)
  show "eth_parse (Some d) len (Some h) op ol = Some (rc, oh', op', ol') \<Longrightarrow> oh' \<noteq> None"
    by (auto simp: eth_parse_eq [OF ok] split: if_splits)
  show "eth_parse (Some d) len (Some h) op ol = Some (0, oh', op', ol') \<Longrightarrow>
      \<exists>h' off m. oh' = Some h' \<and> op' = map_option (\<lambda>_. Some (drop off d)) op \<and> ol' = store_len m ol
        \<and> 14 \<le> off \<and> off + unat m \<le> unat len"
    by (force simp: eth_parse_eq [OF ok] unat_sub word_le_nat_alt split: if_splits)
  show "eth_parse (Some d) len (Some h) op ol = Some (0, oh', op', ol') \<Longrightarrow>
      eth_parse (Some d) len (Some h0) op ol = Some (0, oh', op', ol')"
    by (auto simp: eth_parse_eq [OF ok] split: if_splits)
qed (simp_all add: eth_parse_null eth_parse_short)

subsection \<open>Parsing inverts the wire format\<close>

lemma eth_encode_length: "eth_wf h \<Longrightarrow> length (eth_encode h) = (if has_vlan h = 1 then 18 else 14)"
  by (auto simp: eth_encode_def eth_wf_def)

lemma vlan_tpid: "be16 0x81 0x00 = ETH_TYPE_VLAN"
  by (simp add: be16_def)

lemma eth_encode_nth:
  assumes "eth_wf h"
  shows "take 6 (eth_encode h @ p) = dst_mac h" "take 6 (drop 6 (eth_encode h @ p)) = src_mac h"
    and "has_vlan h \<noteq> 1 \<Longrightarrow> be16 ((eth_encode h @ p) ! 12) ((eth_encode h @ p) ! 13) = ether_type h"
    and "has_vlan h = 1 \<Longrightarrow> be16 ((eth_encode h @ p) ! 12) ((eth_encode h @ p) ! 13) = ETH_TYPE_VLAN"
    and "has_vlan h = 1 \<Longrightarrow> be16 ((eth_encode h @ p) ! 14) ((eth_encode h @ p) ! 15) = vlan_tci h"
    and "has_vlan h = 1 \<Longrightarrow> be16 ((eth_encode h @ p) ! 16) ((eth_encode h @ p) ! 17) = ether_type h"
  using assms
  by (auto simp: eth_wf_def eth_encode_def nth_append bytes16_def be16_bytes16 vlan_tpid)

text \<open>
  Acceptance is characterised completely: the frame is the encoding of the header that was stored,
  followed by the payload.
\<close>

lemma eth_parse_encode:
  assumes "eth_wf h" "unat len = length (eth_encode h) + unat m" "unat m \<le> length p"
  shows "eth_parse (Some (eth_encode h @ p)) len (Some h0) (Some q) (Some n)
    = Some (0, Some h, Some (Some p), Some m)"
proof -
  note enc = eth_encode_nth [OF assms(1)] eth_encode_length [OF assms(1)]
  have ok: "buf_ok (eth_encode h @ p) len" using assms(2,3) by (simp add: buf_ok_def)
  have m: "length (eth_encode h) \<le> unat len" "m = len - of_nat (length (eth_encode h))"
    using assms(2) by (simp_all add: len_split)
  show ?thesis
  proof (cases "has_vlan h = 1")
    case True
    with m enc show ?thesis
      by (simp add: eth_parse_eq [OF ok])
  next
    case False
    with assms(1) m enc show ?thesis
      by (auto simp: eth_parse_eq [OF ok] eth_wf_def)
  qed
qed

lemma eth_parse_decode:
  assumes ok: "buf_ok d len"
    and "eth_parse (Some d) len (Some h0) (Some q) (Some n) = Some (0, Some h, Some (Some p), Some m)"
  shows "eth_wf h \<and> d = eth_encode h @ p \<and> unat len = length (eth_encode h) + unat m"
proof -
  have addrs: "d = take 6 d @ take 6 (drop 6 d) @ drop 12 d"
    using drop_chunk [of 6 d 6] by simp
  show ?thesis
  proof (cases "be16 (d ! 12) (d ! 13) = ETH_TYPE_VLAN")
    case True
    then have "d ! 12 = 0x81" "d ! 13 = 0x00"
      using bytes16_be16 [of "d ! 12" "d ! 13"] by (simp_all add: bytes16_def)
    then show ?thesis using True assms addrs drop_pair [of 12 d] drop_pair [of 14 d] drop_pair [of 16 d]
      by (auto simp: eth_parse_eq [OF ok] len_split eth_wf_def eth_encode_def bytes16_be16 buf_ok_def
          split: if_splits)
  next
    case False
    then show ?thesis using assms addrs drop_pair [of 12 d]
      by (auto simp: eth_parse_eq [OF ok] len_split eth_wf_def eth_encode_def bytes16_be16 buf_ok_def
          split: if_splits)
  qed
qed

end
