(* ===== verification/Arp_Parser.thy ===== *)
theory Arp_Parser
  imports Parser_Interface
begin

text \<open>
  \<open>src/src/c/arp_parser.c\<close>: ARP for Ethernet/IPv4. Acceptance is characterised completely: the
  28 bytes read are the encoding of the header that was stored.
\<close>

subsection \<open>Constants and the header\<close>

abbreviation ARP_HEADER_LEN :: u32 where "ARP_HEADER_LEN \<equiv> 28"
abbreviation ARP_HTYPE_ETHERNET :: u16 where "ARP_HTYPE_ETHERNET \<equiv> 1"
abbreviation ARP_PTYPE_IPV4 :: u16 where "ARP_PTYPE_IPV4 \<equiv> 0x0800"
abbreviation ARP_OP_REQUEST :: u16 where "ARP_OP_REQUEST \<equiv> 1"
abbreviation ARP_OP_REPLY :: u16 where "ARP_OP_REPLY \<equiv> 2"

record arp_header_t =
  hardware_type :: u16
  protocol_type :: u16
  hardware_addr_len :: u8
  protocol_addr_len :: u8
  opcode :: u16
  sender_mac :: buf
  sender_ip :: buf
  target_mac :: buf
  target_ip :: buf

subsection \<open>Parsing\<close>

definition arp_parse :: "arp_header_t leaf_parser" where
  "arp_parse data len out_header =
     (case (data, out_header) of
        (Some d, Some h) \<Rightarrow>
          if len < ARP_HEADER_LEN then Some (-1, out_header)
          else do {
            htype \<leftarrow> rd16 d 0;
            ptype \<leftarrow> rd16 d 2;
            hlen \<leftarrow> rd d 4;
            plen \<leftarrow> rd d 5;
            if htype \<noteq> ARP_HTYPE_ETHERNET \<or> ptype \<noteq> ARP_PTYPE_IPV4 \<or> hlen \<noteq> 6 \<or> plen \<noteq> 4 then
              Some (-1, out_header)
            else do {
              let h = h\<lparr>hardware_type := htype, protocol_type := ptype,
                       hardware_addr_len := hlen, protocol_addr_len := plen\<rparr>;
              op \<leftarrow> rd16 d 6;
              let h = h\<lparr>opcode := op\<rparr>;
              smac \<leftarrow> memcpy_from d 8 6;
              sip \<leftarrow> memcpy_from d 14 4;
              tmac \<leftarrow> memcpy_from d 18 6;
              tip \<leftarrow> memcpy_from d 24 4;
              Some (0, Some (h\<lparr>sender_mac := smac, sender_ip := sip,
                               target_mac := tmac, target_ip := tip\<rparr>))
            }
          }
      | _ \<Rightarrow> Some (-1, out_header))"

subsection \<open>The wire format\<close>

definition arp_encode :: "arp_header_t \<Rightarrow> buf" where
  "arp_encode h = bytes16 (hardware_type h) @ bytes16 (protocol_type h)
     @ [hardware_addr_len h, protocol_addr_len h] @ bytes16 (opcode h)
     @ sender_mac h @ sender_ip h @ target_mac h @ target_ip h"

definition arp_wf :: "arp_header_t \<Rightarrow> bool" where
  "arp_wf h \<longleftrightarrow> hardware_type h = ARP_HTYPE_ETHERNET \<and> protocol_type h = ARP_PTYPE_IPV4
     \<and> hardware_addr_len h = 6 \<and> protocol_addr_len h = 4
     \<and> length (sender_mac h) = 6 \<and> length (sender_ip h) = 4
     \<and> length (target_mac h) = 6 \<and> length (target_ip h) = 4"

subsection \<open>What the branches compute\<close>

definition arp_fields :: "buf \<Rightarrow> arp_header_t" where
  "arp_fields d = \<lparr>hardware_type = be16 (d ! 0) (d ! 1), protocol_type = be16 (d ! 2) (d ! 3),
     hardware_addr_len = d ! 4, protocol_addr_len = d ! 5, opcode = be16 (d ! 6) (d ! 7),
     sender_mac = take 6 (drop 8 d), sender_ip = take 4 (drop 14 d),
     target_mac = take 6 (drop 18 d), target_ip = take 4 (drop 24 d)\<rparr>"

lemma arp_parse_null: "data = None \<or> oh = None \<Longrightarrow> arp_parse data len oh = Some (-1, oh)"
  by (auto simp: arp_parse_def split: option.splits)

lemma arp_parse_short: "unat len < 28 \<Longrightarrow> arp_parse data len oh = Some (-1, oh)"
  by (auto simp: arp_parse_def word_less_nat_alt split: option.splits)

lemma arp_wf_fields:
  "28 \<le> length d \<Longrightarrow> arp_wf (arp_fields d) \<longleftrightarrow>
    be16 (d ! 0) (d ! 1) = ARP_HTYPE_ETHERNET \<and> be16 (d ! 2) (d ! 3) = ARP_PTYPE_IPV4
    \<and> d ! 4 = 6 \<and> d ! 5 = 4"
  by (simp add: arp_wf_def arp_fields_def)

lemma arp_parse_eq:
  assumes "buf_ok d len"
  shows "arp_parse (Some d) len (Some h) = Some
    (if 28 \<le> unat len \<and> arp_wf (arp_fields d) then (0, Some (arp_fields d)) else (-1, Some h))"
proof (cases "28 \<le> unat len")
  case True
  with assms have "28 \<le> length d" by (simp add: buf_ok_def)
  then have "d \<noteq> []" by auto
  with True \<open>28 \<le> length d\<close> show ?thesis
    by (simp add: arp_parse_def arp_wf_fields word_less_nat_alt mem_simps)
      (auto simp: arp_fields_def)
qed (simp add: arp_parse_short)

interpretation arp: leaf_parser arp_parse 28
  by (rule leaf_parserI [where accepts = "\<lambda>d len. 28 \<le> unat len \<and> arp_wf (arp_fields d)"
        and fields = arp_fields, OF arp_parse_null arp_parse_short arp_parse_eq])

subsection \<open>Parsing inverts the wire format\<close>

lemma arp_encode_length: "arp_wf h \<Longrightarrow> length (arp_encode h) = 28"
  by (simp add: arp_wf_def arp_encode_def)

lemma arp_fields_encode_lengths:
  assumes "length (sender_mac h) = 6" "length (sender_ip h) = 4"
    and "length (target_mac h) = 6" "length (target_ip h) = 4"
  shows "arp_fields (arp_encode h @ p) = h"
  using assms
  by (simp add: arp_fields_def arp_encode_def nth_append bytes16_def be16_bytes16)

lemma arp_fields_encode: "arp_wf h \<Longrightarrow> arp_fields (arp_encode h @ p) = h"
  by (simp add: arp_wf_def arp_fields_encode_lengths)

lemma arp_encode_fields:
  assumes "28 \<le> length d"
  shows "arp_encode (arp_fields d) = take 28 d"
proof -
  have "d = [d ! 0, d ! 1] @ [d ! 2, d ! 3] @ [d ! 4, d ! 5] @ [d ! 6, d ! 7] @ take 6 (drop 8 d)
      @ take 4 (drop 14 d) @ take 6 (drop 18 d) @ take 4 (drop 24 d) @ drop 28 d"
    using assms start_pair [of d] drop_pair [of 2 d] drop_pair [of 4 d] drop_pair [of 6 d]
      drop_chunk [of 8 d 6] drop_chunk [of 14 d 4] drop_chunk [of 18 d 6] drop_chunk [of 24 d 4]
    by simp
  then have "d = arp_encode (arp_fields d) @ drop 28 d"
    by (simp add: arp_encode_def arp_fields_def bytes16_be16)
  then show ?thesis
    by (metis append_take_drop_id append_same_eq)
qed

lemma arp_parse_iff:
  assumes "buf_ok d len"
  shows "arp_parse (Some d) len (Some h0) = Some (0, Some h)
    \<longleftrightarrow> 28 \<le> unat len \<and> arp_wf h \<and> take 28 d = arp_encode h"
proof (cases "28 \<le> unat len")
  case True
  with assms have len: "28 \<le> length d" by (simp add: buf_ok_def)
  have "arp_wf h \<Longrightarrow> take 28 d = arp_encode h \<Longrightarrow> arp_fields d = h"
    using arp_fields_encode [of h "drop 28 d"] by (metis append_take_drop_id)
  with True show ?thesis
    by (auto simp: arp_parse_eq [OF assms] arp_encode_fields [OF len])
qed (simp add: arp_parse_short)

end
