(* ===== verification/Ip_Parser.thy ===== *)
theory Ip_Parser
  imports Checksum Parser_Interface C_Text
begin

text \<open>
  \<open>src/src/c/ip_parser.c\<close>: IPv4 headers, with the header checksum verified on the way and the
  payload length reconciled between the captured bytes and the header's \<open>total_length\<close>.
\<close>

subsection \<open>Constants and the header\<close>

abbreviation IP_ADDR_LEN :: nat where "IP_ADDR_LEN \<equiv> 4"
abbreviation IP_HEADER_MIN_LEN :: u32 where "IP_HEADER_MIN_LEN \<equiv> 20"
abbreviation IP_PROTO_ICMP :: u8 where "IP_PROTO_ICMP \<equiv> 1"
abbreviation IP_PROTO_TCP :: u8 where "IP_PROTO_TCP \<equiv> 6"
abbreviation IP_PROTO_UDP :: u8 where "IP_PROTO_UDP \<equiv> 17"

record ip_header_t =
  ip_version :: u8
  ip_ihl :: u8
  ip_tos :: u8
  ip_total_length :: u16
  ip_identification :: u16
  ip_flags :: u8
  ip_fragment_offset :: u16
  ip_ttl :: u8
  ip_protocol :: u8
  ip_checksum :: u16
  ip_src_addr :: buf
  ip_dst_addr :: buf
  ip_checksum_valid :: u8

subsection \<open>Parsing\<close>

text \<open>The smaller of what was captured and what the header declares.\<close>

definition ip_payload_len :: "u32 \<Rightarrow> u32 \<Rightarrow> u16 \<Rightarrow> u32" where
  "ip_payload_len len header_len total_length =
     (let available_payload_len = len - header_len in
      if header_len \<le> ucast total_length then
        let declared_payload_len = ucast total_length - header_len in
        if declared_payload_len < available_payload_len then declared_payload_len
        else available_payload_len
      else available_payload_len)"

definition ip_parse :: "ip_header_t parser" where
  "ip_parse data len out_header out_payload out_payload_len =
     (case (data, out_header) of
        (Some d, Some h) \<Rightarrow>
          if len < IP_HEADER_MIN_LEN then Some (-1, out_header, out_payload, out_payload_len)
          else do {
            b0 \<leftarrow> rd d 0;
            let version = drop_bit 4 b0;
            let ihl = b0 AND 0x0F;
            let header_len = (ucast ihl :: u32) * 4;
            if version \<noteq> 4 \<or> ihl < 5 \<or> header_len > len then
              Some (-1, out_header, out_payload, out_payload_len)
            else do {
              csum_ok \<leftarrow> checksum_verify d header_len;
              let h = h\<lparr>ip_checksum_valid := word_of_int csum_ok,
                       ip_version := version, ip_ihl := ihl\<rparr>;
              b1 \<leftarrow> rd d 1;
              total \<leftarrow> rd16 d 2;
              ident \<leftarrow> rd16 d 4;
              flags_frag \<leftarrow> rd16 d 6;
              b8 \<leftarrow> rd d 8;
              b9 \<leftarrow> rd d 9;
              csum \<leftarrow> rd16 d 10;
              let h = h\<lparr>ip_tos := b1, ip_total_length := total, ip_identification := ident,
                       ip_flags := ucast (drop_bit 13 flags_frag),
                       ip_fragment_offset := flags_frag AND 0x1FFF,
                       ip_ttl := b8, ip_protocol := b9, ip_checksum := csum\<rparr>;
              s0 \<leftarrow> rd d 12;
              s1 \<leftarrow> rd d 13;
              s2 \<leftarrow> rd d 14;
              s3 \<leftarrow> rd d 15;
              d0 \<leftarrow> rd d 16;
              d1 \<leftarrow> rd d 17;
              d2 \<leftarrow> rd d 18;
              d3 \<leftarrow> rd d 19;
              let h = h\<lparr>ip_src_addr := [s0, s1, s2, s3], ip_dst_addr := [d0, d1, d2, d3]\<rparr>;
              payload \<leftarrow> store_payload d header_len out_payload;
              Some (0, Some h, payload,
                    store_len (ip_payload_len len header_len (ip_total_length h)) out_payload_len)
            }
          }
      | _ \<Rightarrow> Some (-1, out_header, out_payload, out_payload_len))"

subsection \<open>Formatting\<close>

abbreviation IP_ADDR_STR_LEN :: nat where "IP_ADDR_STR_LEN \<equiv> 16"

definition ip_addr_to_str :: "buf \<Rightarrow> string option" where
  "ip_addr_to_str addr = do {
     a0 \<leftarrow> rd addr 0;
     a1 \<leftarrow> rd addr 1;
     a2 \<leftarrow> rd addr 2;
     a3 \<leftarrow> rd addr 3;
     Some (snprintf IP_ADDR_STR_LEN
       (fmt_u (unat a0) @ ''.'' @ fmt_u (unat a1) @ ''.'' @ fmt_u (unat a2) @ ''.'' @ fmt_u (unat a3)))
   }"

lemma ip_addr_to_str_eq:
  "ip_addr_to_str [a0, a1, a2, a3] = Some
    (fmt_u (unat a0) @ ''.'' @ fmt_u (unat a1) @ ''.'' @ fmt_u (unat a2) @ ''.'' @ fmt_u (unat a3))"
  using fmt_u_u8 [of a0] fmt_u_u8 [of a1] fmt_u_u8 [of a2] fmt_u_u8 [of a3]
  by (simp add: ip_addr_to_str_def mem_simps snprintf_fits)

subsection \<open>What the branches compute\<close>

abbreviation ip_hlen :: "buf \<Rightarrow> nat" where
  "ip_hlen d \<equiv> 4 * (unat (d ! 0) mod 16)"

definition ip_fields :: "buf \<Rightarrow> ip_header_t" where
  "ip_fields d = \<lparr>ip_version = drop_bit 4 (d ! 0), ip_ihl = d ! 0 AND 0x0F, ip_tos = d ! 1,
     ip_total_length = be16 (d ! 2) (d ! 3), ip_identification = be16 (d ! 4) (d ! 5),
     ip_flags = ucast (drop_bit 13 (be16 (d ! 6) (d ! 7))),
     ip_fragment_offset = be16 (d ! 6) (d ! 7) AND 0x1FFF,
     ip_ttl = d ! 8, ip_protocol = d ! 9, ip_checksum = be16 (d ! 10) (d ! 11),
     ip_src_addr = take 4 (drop 12 d), ip_dst_addr = take 4 (drop 16 d),
     ip_checksum_valid = (if ones_sum (take (ip_hlen d) d) = 0xFFFF then 1 else 0)\<rparr>"

definition ip_accepts :: "buf \<Rightarrow> u32 \<Rightarrow> bool" where
  "ip_accepts d len \<longleftrightarrow> 20 \<le> unat len \<and> unat (d ! 0) div 16 = 4 \<and> 20 \<le> ip_hlen d
     \<and> ip_hlen d \<le> unat len"

lemma ip_parse_null: "data = None \<or> oh = None \<Longrightarrow> ip_parse data len oh op ol = Some (-1, oh, op, ol)"
  by (auto simp: ip_parse_def split: option.splits)

lemma ip_parse_short: "unat len < 20 \<Longrightarrow> ip_parse data len oh op ol = Some (-1, oh, op, ol)"
  by (auto simp: ip_parse_def word_less_nat_alt split: option.splits)

lemma header_len_words: "unat ((ucast (b AND 0x0F) :: u32) * 4) = 4 * (unat b mod 16)" for b :: u8
proof -
  have "unat b mod 16 < 16" by simp
  then show ?thesis
    by (simp add: unat_word_ariths unsigned_ucast_eq unat_and_low take_bit_eq_mod)
qed

lemma ip_reject_iff:
  "drop_bit 4 b \<noteq> 4 \<or> b AND 0x0F < 5 \<or> (ucast (b AND 0x0F) :: u32) * 4 > len \<longleftrightarrow>
    \<not> (unat b div 16 = 4 \<and> 20 \<le> 4 * (unat b mod 16) \<and> 4 * (unat b mod 16) \<le> unat len)" for b :: u8
  unfolding word_unat_eq_iff word_less_nat_alt header_len_words
  by (auto simp: unat_drop_bit unat_and_low)

lemma unat_ip_payload_len:
  assumes "unat hl \<le> unat len"
  shows "unat (ip_payload_len len hl tot) =
    (if unat hl \<le> unat tot then min (unat len) (unat tot) - unat hl else unat len - unat hl)"
  using assms
  by (auto simp: ip_payload_len_def Let_def word_le_nat_alt word_less_nat_alt unat_sub)

lemma ip_parse_eq:
  assumes "buf_ok d len"
  shows "ip_parse (Some d) len (Some h) op ol = Some
    (if ip_accepts d len then
       (0, Some (ip_fields d), map_option (\<lambda>_. Some (drop (ip_hlen d) d)) op,
        store_len (ip_payload_len len (ucast (d ! 0 AND 0x0F) * 4) (be16 (d ! 2) (d ! 3))) ol)
     else (-1, Some h, op, ol))"
proof (cases "20 \<le> unat len")
  case long: True
  with assms have len: "20 \<le> length d" "d \<noteq> []" by (auto simp: buf_ok_def)
  let ?hl = "(ucast (d ! 0 AND 0x0F) :: u32) * 4"
  have hl: "unat ?hl = ip_hlen d" by (rule header_len_words)
  have nshort: "\<not> len < 20" using long by (simp add: word_less_nat_alt)
  have addrs: "take 4 (drop 12 d) = [d ! 12, d ! 13, d ! 14, d ! 15]"
    "take 4 (drop 16 d) = [d ! 16, d ! 17, d ! 18, d ! 19]"
    using len take_4_nth [of "drop 12 d"] take_4_nth [of "drop 16 d"] by simp_all
  show ?thesis
  proof (cases "ip_accepts d len")
    case True
    then have ok: "buf_ok d ?hl" "unat ?hl \<le> 65536"
      using assms unfolding buf_ok_def hl by (simp_all add: ip_accepts_def)
    have csum: "checksum_verify d ?hl = Some (if ones_sum (take (ip_hlen d) d) = 0xFFFF then 1 else 0)"
      using checksum_verify_spec [OF ok] by (simp only: hl)
    have pay: "store_payload d ?hl op = Some (map_option (\<lambda>_. Some (drop (ip_hlen d) d)) op)"
      using store_payload_inside [of ?hl d op] ok(1) by (simp only: hl buf_ok_def)
    have conds: "drop_bit 4 (d ! 0) = 4" "\<not> d ! 0 AND 0x0F < 5" "\<not> len < ?hl"
      using True ip_reject_iff [of "d ! 0" len] by (auto simp only: ip_accepts_def)
    show ?thesis
      using True long len
      by (simp add: ip_parse_def Let_def nshort conds csum pay mem_simps addrs ip_fields_def)
  next
    case False
    then have "drop_bit 4 (d ! 0) \<noteq> 4 \<or> d ! 0 AND 0x0F < 5 \<or> len < ?hl"
      using long ip_reject_iff [of "d ! 0" len] by (auto simp only: ip_accepts_def)
    with False long len show ?thesis
      by (simp add: ip_parse_def Let_def nshort mem_simps)
  qed
next
  case False
  then show ?thesis by (simp add: ip_parse_short ip_accepts_def)
qed

lemma ip_payload_inside:
  "ip_accepts d len \<Longrightarrow> 20 \<le> ip_hlen d \<and>
    ip_hlen d + unat (ip_payload_len len (ucast (d ! 0 AND 0x0F) * 4) (be16 (d ! 2) (d ! 3))) \<le> unat len"
  by (subst unat_ip_payload_len) (auto simp: header_len_words ip_accepts_def)

interpretation ip: header_parser ip_parse 20
  by (rule header_parserI [OF ip_parse_null ip_parse_short ip_parse_eq ip_payload_inside])

subsection \<open>Parsing inverts the wire format\<close>

definition ip_encode :: "ip_header_t \<Rightarrow> buf" where
  "ip_encode h = [push_bit 4 (ip_version h) OR ip_ihl h, ip_tos h] @ bytes16 (ip_total_length h)
     @ bytes16 (ip_identification h)
     @ bytes16 (push_bit 13 (ucast (ip_flags h)) OR ip_fragment_offset h)
     @ [ip_ttl h, ip_protocol h] @ bytes16 (ip_checksum h) @ ip_src_addr h @ ip_dst_addr h"

definition ip_wf :: "ip_header_t \<Rightarrow> bool" where
  "ip_wf h \<longleftrightarrow> ip_version h = 4 \<and> 5 \<le> unat (ip_ihl h) \<and> unat (ip_ihl h) < 16
     \<and> unat (ip_flags h) < 8 \<and> unat (ip_fragment_offset h) < 8192
     \<and> length (ip_src_addr h) = 4 \<and> length (ip_dst_addr h) = 4"

lemma nibble_mask: "(0x0F :: u8) = mask 4" and offset_mask: "(0x1FFF :: u16) = mask 13"
  by (simp_all add: mask_eq_exp_minus_1)

lemma flags_byte: "ucast (ucast (drop_bit 13 w) :: u8) = drop_bit 13 w" for w :: u16
  by (rule bit_word_eqI) (auto simp: bit_simps dest: bit_imp_le_length)

lemma ip_encode_fields:
  assumes "20 \<le> length d"
  shows "ip_encode (ip_fields d) = take 20 d"
proof -
  have "d = [d ! 0, d ! Suc 0] @ [d ! 2, d ! 3] @ [d ! 4, d ! 5] @ [d ! 6, d ! 7] @ [d ! 8, d ! 9]
      @ [d ! 10, d ! 11] @ take 4 (drop 12 d) @ take 4 (drop 16 d) @ drop 20 d"
    using assms start_pair [of d] drop_pair [of 2 d] drop_pair [of 4 d] drop_pair [of 6 d]
      drop_pair [of 8 d] drop_pair [of 10 d] drop_chunk [of 12 d 4] drop_chunk [of 16 d 4]
    by simp
  then have "d = ip_encode (ip_fields d) @ drop 20 d"
    by (simp add: ip_encode_def ip_fields_def bytes16_be16 nibble_mask offset_mask flags_byte split_field)
  then show ?thesis
    by (metis append_take_drop_id append_same_eq)
qed

lemma ip_fields_wf:
  assumes "ip_accepts d len" "20 \<le> length d"
  shows "ip_wf (ip_fields d)"
proof -
  have "unat (be16 (d ! 6) (d ! 7)) div 8192 < 8"
    using unat_u16_bound [of "be16 (d ! 6) (d ! 7)"] by (simp add: div_less_iff_less_mult)
  then have "unat (ucast (drop_bit 13 (be16 (d ! 6) (d ! 7))) :: u8) < 8"
    by (simp only: unsigned_ucast_eq unat_drop_bit) (simp add: take_bit_eq_mod)
  moreover have "drop_bit 4 (d ! 0) = 4"
    using assms(1) by (simp only: word_unat_eq_iff unat_drop_bit) (simp add: ip_accepts_def)
  ultimately show ?thesis
    using assms by (simp add: ip_wf_def ip_fields_def ip_accepts_def unat_and_low)
qed

lemma ip_encode_nibbles:
  assumes "ip_wf h"
  shows "drop_bit 4 (push_bit 4 (ip_version h) OR ip_ihl h) = ip_version h"
    and "(push_bit 4 (ip_version h) OR ip_ihl h) AND 0x0F = ip_ihl h"
  using assms join_field_high [of "ip_ihl h" 4 "ip_version h"]
    join_field_low [of "ip_ihl h" 4 "ip_version h"]
  by (simp_all only: nibble_mask) (simp_all add: ip_wf_def)

lemma ip_encode_flags:
  assumes "ip_wf h"
  shows "ucast (drop_bit 13 (push_bit 13 (ucast (ip_flags h)) OR ip_fragment_offset h)) = ip_flags h"
    and "(push_bit 13 (ucast (ip_flags h)) OR ip_fragment_offset h) AND 0x1FFF = ip_fragment_offset h"
proof -
  show "ucast (drop_bit 13 (push_bit 13 (ucast (ip_flags h)) OR ip_fragment_offset h)) = ip_flags h"
    using assms by (subst join_field_high) (simp_all add: ip_wf_def)
  show "(push_bit 13 (ucast (ip_flags h)) OR ip_fragment_offset h) AND 0x1FFF = ip_fragment_offset h"
    using assms by (simp only: offset_mask) (rule join_field_low, simp add: ip_wf_def)
qed

lemma ip_fields_encode:
  assumes "ip_wf h"
  shows "ip_fields (ip_encode h @ p) = h\<lparr>ip_checksum_valid :=
      if ones_sum (take (4 * unat (ip_ihl h)) (ip_encode h @ p)) = 0xFFFF then 1 else 0\<rparr>"
proof -
  define b where "b = push_bit 4 (ip_version h) OR ip_ihl h"
  define w where "w = push_bit 13 (ucast (ip_flags h)) OR ip_fragment_offset h"
  define c where "c = (if ones_sum (take (4 * unat (ip_ihl h)) (ip_encode h @ p)) = 0xFFFF
    then 1 else 0 :: u8)"
  have d: "ip_encode h @ p = [b, ip_tos h] @ bytes16 (ip_total_length h) @ bytes16 (ip_identification h)
      @ bytes16 w @ [ip_ttl h, ip_protocol h] @ bytes16 (ip_checksum h)
      @ ip_src_addr h @ ip_dst_addr h @ p"
    by (simp add: ip_encode_def b_def w_def)
  have b: "drop_bit 4 b = ip_version h" "b AND 0x0F = ip_ihl h" "unat b mod 16 = unat (ip_ihl h)"
    using ip_encode_nibbles [OF assms] unat_and_low(1) [of b] by (simp_all only: b_def)
  have w: "ucast (drop_bit 13 w) = ip_flags h" "w AND 0x1FFF = ip_fragment_offset h"
    using ip_encode_flags [OF assms] by (simp_all only: w_def)
  have "(if ones_sum (take (ip_hlen (ip_encode h @ p)) (ip_encode h @ p)) = 0xFFFF then 1 else 0) = c"
    unfolding c_def by (simp only: d append_Cons nth_Cons_0 b)
  then show ?thesis
    using assms unfolding ip_fields_def c_def [symmetric]
    by (simp add: ip_wf_def b w d bytes16_def be16_bytes16)
qed

text \<open>
  Acceptance is characterised completely: the first twenty bytes encode the header that was stored,
  the header length fits, and the payload starts after the options and is cut to \<open>total_length\<close>.
\<close>

lemma ip_parse_iff:
  assumes "buf_ok d len"
  shows "ip_parse (Some d) len (Some h0) (Some q) (Some n) = Some (0, Some h, Some (Some p), Some m)
    \<longleftrightarrow> ip_wf h \<and> take 20 d = ip_encode h \<and> 4 * unat (ip_ihl h) \<le> unat len
      \<and> ip_checksum_valid h = (if ones_sum (take (4 * unat (ip_ihl h)) d) = 0xFFFF then 1 else 0)
      \<and> p = drop (4 * unat (ip_ihl h)) d
      \<and> unat m = (if 4 * unat (ip_ihl h) \<le> unat (ip_total_length h)
          then min (unat len) (unat (ip_total_length h)) - 4 * unat (ip_ihl h)
          else unat len - 4 * unat (ip_ihl h))" (is "?parse \<longleftrightarrow> ?spec")
proof
  assume ?parse
  then have acc: "ip_accepts d len" and h: "h = ip_fields d" and p: "p = drop (ip_hlen d) d"
      and m: "m = ip_payload_len len (ucast (d ! 0 AND 0x0F) * 4) (be16 (d ! 2) (d ! 3))"
    by (auto simp: ip_parse_eq [OF assms] split: if_splits)
  have len: "20 \<le> length d" using acc assms by (simp add: ip_accepts_def buf_ok_def)
  have ihl: "4 * unat (ip_ihl h) = ip_hlen d" by (simp add: h ip_fields_def unat_and_low)
  have "unat m = (if ip_hlen d \<le> unat (ip_total_length h)
      then min (unat len) (unat (ip_total_length h)) - ip_hlen d else unat len - ip_hlen d)"
    unfolding m using acc
    by (subst unat_ip_payload_len) (simp_all add: header_len_words ip_accepts_def h ip_fields_def)
  then show ?spec
    using acc ip_fields_wf [OF acc len] ip_encode_fields [OF len] p
    unfolding ihl by (simp add: h ip_accepts_def) (simp add: ip_fields_def)
next
  assume spec: ?spec
  then have d: "d = ip_encode h @ drop 20 d" by (metis append_take_drop_id)
  have b0: "d ! 0 = push_bit 4 (ip_version h) OR ip_ihl h"
    by (subst d) (simp add: ip_encode_def)
  have wf: "ip_wf h" using spec by blast
  have ihl: "ip_hlen d = 4 * unat (ip_ihl h)"
    using ip_encode_nibbles(2) [OF wf] b0 by (metis unat_and_low(1))
  have fields: "ip_fields d = h"
    using ip_fields_encode [OF wf, of "drop 20 d"] spec unfolding d [symmetric] by simp
  have tot: "be16 (d ! 2) (d ! 3) = ip_total_length h" by (simp add: ip_fields_def flip: fields)
  have "unat (d ! 0) div 16 = 4"
    using ip_encode_nibbles(1) [OF wf] wf unfolding b0 [symmetric]
    by (simp only: word_unat_eq_iff unat_drop_bit) (simp add: ip_wf_def)
  then have acc: "ip_accepts d len"
    using spec wf by (simp add: ip_accepts_def ihl ip_wf_def)
  have "unat m = unat (ip_payload_len len (ucast (d ! 0 AND 0x0F) * 4) (ip_total_length h))"
    using spec by (subst unat_ip_payload_len) (simp_all add: header_len_words ihl)
  then show ?parse
    using acc spec by (simp add: ip_parse_eq [OF assms] fields ihl tot word_unat_eq_iff)
qed

subsection \<open>Properties\<close>

text \<open>
  C22: \<open>ip_parse\<close> accepts exactly the packets that start with the encoding of a header: it returns 0 and
  stores the header \<open>h\<close> iff the first 20 bytes are the wire format of \<open>h\<close>, version 4 with a header length
  that fits. The payload starts behind the options and is cut to the total length, a total length
  that cannot be right is ignored, and the stored checksum flag is RFC 1071's verdict on the header.
\<close>

theorem ip_parse_decodes:
  assumes "buf_ok d len"
  shows "ip_parse (Some d) len (Some h0) (Some q) (Some n) = Some (0, Some h, Some (Some p), Some m)
    \<longleftrightarrow> ip_wf h \<and> take 20 d = ip_encode h \<and> 4 * unat (ip_ihl h) \<le> unat len
      \<and> ip_checksum_valid h = (if ones_sum (take (4 * unat (ip_ihl h)) d) = 0xFFFF then 1 else 0)
      \<and> p = drop (4 * unat (ip_ihl h)) d
      \<and> unat m = (if 4 * unat (ip_ihl h) \<le> unat (ip_total_length h)
          then min (unat len) (unat (ip_total_length h)) - 4 * unat (ip_ihl h)
          else unat len - 4 * unat (ip_ihl h))"
  using assms by (rule ip_parse_iff)

theorem ip_parse_decodes_witness:
  "\<exists>h. ip_parse (Some [0x45, 0, 0, 21, 0, 0, 0x40, 0, 64, 17, 0, 0, 10, 0, 0, 1, 10, 0, 0, 2, 0xAB, 0xCD]) 22
        (Some (ip_fields (replicate 20 0))) (Some None) (Some 0)
      = Some (0, Some h, Some (Some [0xAB, 0xCD]), Some 1) \<and> ip_flags h = 2 \<and> ip_checksum_valid h = 0"
proof -
  let ?d = "[0x45, 0, 0, 21, 0, 0, 0x40, 0, 64, 17, 0, 0, 10, 0, 0, 1, 10, 0, 0, 2, 0xAB, 0xCD] :: buf"
  let ?h = "\<lparr>ip_version = 4, ip_ihl = 5, ip_tos = 0, ip_total_length = 21, ip_identification = 0, ip_flags = 2,
    ip_fragment_offset = 0, ip_ttl = 64, ip_protocol = 17, ip_checksum = 0, ip_src_addr = [10, 0, 0, 1],
    ip_dst_addr = [10, 0, 0, 2], ip_checksum_valid = 0\<rparr>"
  have "ip_parse (Some ?d) 22 (Some (ip_fields (replicate 20 0))) (Some None) (Some 0) = Some (0, Some ?h, Some (Some [0xAB, 0xCD]), Some 1)"
    by (subst ip_parse_decodes) (simp_all add: buf_ok_def ip_wf_def ip_encode_def bytes16_def ones_add_def be16_def)
  then show ?thesis by (intro exI [of _ ?h]) simp
qed

end
