(* ===== verification/Ipv6_Parser.thy ===== *)
theory Ipv6_Parser
  imports Parser_Interface C_Text
begin

text \<open>
  \<open>src/src/c/ipv6_parser.c\<close>: the fixed 40-byte IPv6 header, whose traffic class and flow label
  straddle byte boundaries, and the formatting of an IPv6 address.
\<close>

subsection \<open>Constants and the header\<close>

abbreviation IPV6_ADDR_LEN :: nat where "IPV6_ADDR_LEN \<equiv> 16"
abbreviation IPV6_HEADER_LEN :: u32 where "IPV6_HEADER_LEN \<equiv> 40"

record ipv6_header_t =
  ipv6_version :: u8
  traffic_class :: u8
  flow_label :: u32
  payload_length :: u16
  next_header :: u8
  hop_limit :: u8
  ipv6_src_addr :: buf
  ipv6_dst_addr :: buf

subsection \<open>Parsing\<close>

text \<open>The shifts of the C code happen on operands promoted to 32 bits.\<close>

definition ipv6_traffic_class :: "u8 \<Rightarrow> u8 \<Rightarrow> u8" where
  "ipv6_traffic_class b0 b1 =
     ucast (push_bit 4 (ucast (b0 AND 0x0F) :: u32) OR ucast (drop_bit 4 b1))"

definition ipv6_flow_label :: "u8 \<Rightarrow> u8 \<Rightarrow> u8 \<Rightarrow> u32" where
  "ipv6_flow_label b1 b2 b3 =
     push_bit 16 (ucast (b1 AND 0x0F)) OR push_bit 8 (ucast b2) OR ucast b3"

definition ipv6_parse :: "ipv6_header_t parser" where
  "ipv6_parse data len out_header out_payload out_payload_len =
     (case (data, out_header) of
        (Some d, Some h) \<Rightarrow>
          if len < IPV6_HEADER_LEN then Some (-1, out_header, out_payload, out_payload_len)
          else do {
            b0 \<leftarrow> rd d 0;
            let version = drop_bit 4 b0;
            if version \<noteq> 6 then Some (-1, out_header, out_payload, out_payload_len)
            else do {
              let h = h\<lparr>ipv6_version := version\<rparr>;
              b1 \<leftarrow> rd d 1;
              b2 \<leftarrow> rd d 2;
              b3 \<leftarrow> rd d 3;
              let h = h\<lparr>traffic_class := ipv6_traffic_class b0 b1,
                       flow_label := ipv6_flow_label b1 b2 b3\<rparr>;
              plen \<leftarrow> rd16 d 4;
              b6 \<leftarrow> rd d 6;
              b7 \<leftarrow> rd d 7;
              let h = h\<lparr>payload_length := plen, next_header := b6, hop_limit := b7\<rparr>;
              src \<leftarrow> memcpy_from d 8 IPV6_ADDR_LEN;
              dst \<leftarrow> memcpy_from d 24 IPV6_ADDR_LEN;
              let h = h\<lparr>ipv6_src_addr := src, ipv6_dst_addr := dst\<rparr>;
              payload \<leftarrow> store_payload d IPV6_HEADER_LEN out_payload;
              Some (0, Some h, payload, store_len (len - IPV6_HEADER_LEN) out_payload_len)
            }
          }
      | _ \<Rightarrow> Some (-1, out_header, out_payload, out_payload_len))"

subsection \<open>Formatting\<close>

abbreviation IPV6_ADDR_STR_LEN :: nat where "IPV6_ADDR_STR_LEN \<equiv> 40"

text \<open>One \<open>%x\<close> conversion of \<open>(addr[i] << 8) | addr[i + 1]\<close>.\<close>

definition fmt_hextet :: "buf \<Rightarrow> nat \<Rightarrow> string option" where
  "fmt_hextet addr i = do {
     hi \<leftarrow> rd addr i;
     lo \<leftarrow> rd addr (i + 1);
     Some (fmt_x (unat (push_bit 8 (ucast hi :: u32) OR ucast lo)))
   }"

definition ipv6_addr_to_str :: "buf \<Rightarrow> string option" where
  "ipv6_addr_to_str addr = do {
     h0 \<leftarrow> fmt_hextet addr 0;
     h1 \<leftarrow> fmt_hextet addr 2;
     h2 \<leftarrow> fmt_hextet addr 4;
     h3 \<leftarrow> fmt_hextet addr 6;
     h4 \<leftarrow> fmt_hextet addr 8;
     h5 \<leftarrow> fmt_hextet addr 10;
     h6 \<leftarrow> fmt_hextet addr 12;
     h7 \<leftarrow> fmt_hextet addr 14;
     Some (snprintf IPV6_ADDR_STR_LEN
       (h0 @ '':'' @ h1 @ '':'' @ h2 @ '':'' @ h3 @ '':'' @ h4 @ '':'' @ h5 @ '':'' @ h6 @ '':'' @ h7))
   }"

lemma unat_promoted_or: "unat (push_bit 8 (ucast a :: u32) OR ucast b) = unat (be16 a b)" for a b :: u8
proof -
  have "256 * unat a + unat b < 65536" using unat_u16_bound [of "be16 a b"] by (simp only: unat_be16)
  then show ?thesis
    by (simp only: promoted_or unat_be16) (simp add: unat_of_nat del: of_nat_add of_nat_mult)
qed

lemma fmt_hextet_inside [mem_simps]:
  "i + 1 < length a \<Longrightarrow> fmt_hextet a i = Some (fmt_x (unat (be16 (a ! i) (a ! (i + 1)))))"
  by (simp add: fmt_hextet_def mem_simps unat_promoted_or)

text \<open>The buffer is large enough: nothing of the text is cut off.\<close>

lemma ipv6_addr_to_str_eq:
  assumes "16 \<le> length a"
  shows "ipv6_addr_to_str a = Some
    (fmt_x (unat (be16 (a ! 0) (a ! 1))) @ '':'' @ fmt_x (unat (be16 (a ! 2) (a ! 3))) @ '':'' @
     fmt_x (unat (be16 (a ! 4) (a ! 5))) @ '':'' @ fmt_x (unat (be16 (a ! 6) (a ! 7))) @ '':'' @
     fmt_x (unat (be16 (a ! 8) (a ! 9))) @ '':'' @ fmt_x (unat (be16 (a ! 10) (a ! 11))) @ '':'' @
     fmt_x (unat (be16 (a ! 12) (a ! 13))) @ '':'' @ fmt_x (unat (be16 (a ! 14) (a ! 15))))"
  using assms fmt_x_u16 [of "be16 (a ! 0) (a ! 1)"] fmt_x_u16 [of "be16 (a ! 2) (a ! 3)"]
    fmt_x_u16 [of "be16 (a ! 4) (a ! 5)"] fmt_x_u16 [of "be16 (a ! 6) (a ! 7)"]
    fmt_x_u16 [of "be16 (a ! 8) (a ! 9)"] fmt_x_u16 [of "be16 (a ! 10) (a ! 11)"]
    fmt_x_u16 [of "be16 (a ! 12) (a ! 13)"] fmt_x_u16 [of "be16 (a ! 14) (a ! 15)"]
  by (simp add: ipv6_addr_to_str_def mem_simps snprintf_fits del: One_nat_def)

subsection \<open>What the branches compute\<close>

definition ipv6_fields :: "buf \<Rightarrow> ipv6_header_t" where
  "ipv6_fields d = \<lparr>ipv6_version = drop_bit 4 (d ! 0),
     traffic_class = ipv6_traffic_class (d ! 0) (d ! 1),
     flow_label = ipv6_flow_label (d ! 1) (d ! 2) (d ! 3),
     payload_length = be16 (d ! 4) (d ! 5), next_header = d ! 6, hop_limit = d ! 7,
     ipv6_src_addr = take 16 (drop 8 d), ipv6_dst_addr = take 16 (drop 24 d)\<rparr>"

definition ipv6_accepts :: "buf \<Rightarrow> u32 \<Rightarrow> bool" where
  "ipv6_accepts d len \<longleftrightarrow> 40 \<le> unat len \<and> drop_bit 4 (d ! 0) = 6"

lemma ipv6_parse_null: "data = None \<or> oh = None \<Longrightarrow> ipv6_parse data len oh op ol = Some (-1, oh, op, ol)"
  by (auto simp: ipv6_parse_def split: option.splits)

lemma ipv6_parse_short: "unat len < 40 \<Longrightarrow> ipv6_parse data len oh op ol = Some (-1, oh, op, ol)"
  by (auto simp: ipv6_parse_def word_less_nat_alt split: option.splits)

lemma ipv6_parse_eq:
  assumes "buf_ok d len"
  shows "ipv6_parse (Some d) len (Some h) op ol = Some
    (if ipv6_accepts d len then
       (0, Some (ipv6_fields d), map_option (\<lambda>_. Some (drop 40 d)) op, store_len (len - 40) ol)
     else (-1, Some h, op, ol))"
proof (cases "40 \<le> unat len")
  case True
  with assms have "40 \<le> length d" by (simp add: buf_ok_def)
  then have "d \<noteq> []" by auto
  with True \<open>40 \<le> length d\<close> show ?thesis
    by (simp add: ipv6_parse_def Let_def ipv6_accepts_def word_less_nat_alt mem_simps ipv6_fields_def)
qed (simp add: ipv6_parse_short ipv6_accepts_def)

lemma ipv6_payload_inside: "ipv6_accepts d len \<Longrightarrow> 40 \<le> (40 :: nat) \<and> 40 + unat (len - 40) \<le> unat len"
  by (simp add: ipv6_accepts_def unat_sub word_le_nat_alt)

interpretation ipv6: header_parser ipv6_parse 40
  by (rule header_parserI [OF ipv6_parse_null ipv6_parse_short ipv6_parse_eq ipv6_payload_inside])

subsection \<open>Parsing inverts the wire format\<close>

definition ipv6_encode :: "ipv6_header_t \<Rightarrow> buf" where
  "ipv6_encode h = [push_bit 4 (ipv6_version h) OR drop_bit 4 (traffic_class h),
     push_bit 4 (traffic_class h) OR ucast (drop_bit 16 (flow_label h)),
     ucast (drop_bit 8 (flow_label h)), ucast (flow_label h)]
     @ bytes16 (payload_length h) @ [next_header h, hop_limit h] @ ipv6_src_addr h @ ipv6_dst_addr h"

definition ipv6_wf :: "ipv6_header_t \<Rightarrow> bool" where
  "ipv6_wf h \<longleftrightarrow> ipv6_version h = 6 \<and> unat (flow_label h) < 2 ^ 20
     \<and> length (ipv6_src_addr h) = 16 \<and> length (ipv6_dst_addr h) = 16"

lemma low_nibble_mask: "(0x0F :: u8) = mask 4"
  by (simp add: mask_eq_exp_minus_1)

lemma nibble_index: "4 + (n - 4) = (if n < 4 then 4 else n)" for n :: nat
  by simp

lemma ipv6_first_word:
  fixes b0 b1 b2 b3 :: u8
  shows "push_bit 4 (drop_bit 4 b0) OR drop_bit 4 (ipv6_traffic_class b0 b1) = b0"
    and "push_bit 4 (ipv6_traffic_class b0 b1) OR ucast (drop_bit 16 (ipv6_flow_label b1 b2 b3)) = b1"
    and "ucast (drop_bit 8 (ipv6_flow_label b1 b2 b3)) = b2"
    and "ucast (ipv6_flow_label b1 b2 b3) = b3"
  unfolding ipv6_traffic_class_def ipv6_flow_label_def low_nibble_mask
  by (rule bit_word_eqI; auto simp: bit_simps nibble_index dest: bit_imp_le_length split: if_splits)+

lemma ipv6_flow_label_bound: "unat (ipv6_flow_label b1 b2 b3) < 2 ^ 20"
proof -
  have "take_bit 20 (ipv6_flow_label b1 b2 b3) = ipv6_flow_label b1 b2 b3"
    unfolding ipv6_flow_label_def low_nibble_mask
    by (rule bit_word_eqI) (auto simp: bit_simps dest: bit_imp_le_length)
  then show ?thesis
    by (metis take_bit_nat_less_exp unsigned_take_bit_eq)
qed

lemma ipv6_join_first_word:
  fixes v tc :: u8 and fl :: u32
  assumes "unat v < 2 ^ 4" "unat fl < 2 ^ 20"
  defines "b0 \<equiv> push_bit 4 v OR drop_bit 4 tc"
    and "b1 \<equiv> push_bit 4 tc OR ucast (drop_bit 16 fl)"
  shows "drop_bit 4 b0 = v" "ipv6_traffic_class b0 b1 = tc"
    and "ipv6_flow_label b1 (ucast (drop_bit 8 fl)) (ucast fl) = fl"
  unfolding b0_def b1_def ipv6_traffic_class_def ipv6_flow_label_def low_nibble_mask
  by (rule bit_word_eqI; auto simp: bit_simps not_less le_add_diff_inverse
      dest: bit_imp_le_length bits_below [OF assms(1)] bits_below [OF assms(2)])+

lemma ipv6_encode_fields:
  assumes "40 \<le> length d"
  shows "ipv6_encode (ipv6_fields d) = take 40 d"
proof -
  have "d = [d ! 0, d ! 1] @ [d ! 2, d ! 3] @ [d ! 4, d ! 5] @ [d ! 6, d ! 7]
      @ take 16 (drop 8 d) @ take 16 (drop 24 d) @ drop 40 d"
    using assms start_pair [of d] drop_pair [of 2 d] drop_pair [of 4 d] drop_pair [of 6 d]
      drop_chunk [of 8 d 16] drop_chunk [of 24 d 16]
    by simp
  then have "d = ipv6_encode (ipv6_fields d) @ drop 40 d"
    by (simp add: ipv6_encode_def ipv6_fields_def bytes16_be16 ipv6_first_word)
  then show ?thesis
    by (metis append_take_drop_id append_same_eq)
qed

lemma ipv6_fields_encode:
  assumes "ipv6_wf h"
  shows "ipv6_fields (ipv6_encode h @ p) = h"
proof -
  define b0 where "b0 = push_bit 4 (ipv6_version h) OR drop_bit 4 (traffic_class h)"
  define b1 where "b1 = push_bit 4 (traffic_class h) OR ucast (drop_bit 16 (flow_label h))"
  note join = ipv6_join_first_word [of "ipv6_version h" "flow_label h" "traffic_class h",
      folded b0_def b1_def]
  have "ipv6_encode h @ p = [b0, b1, ucast (drop_bit 8 (flow_label h)), ucast (flow_label h)]
      @ bytes16 (payload_length h) @ [next_header h, hop_limit h] @ ipv6_src_addr h @ ipv6_dst_addr h @ p"
    by (simp add: ipv6_encode_def b0_def b1_def)
  with assms join show ?thesis
    by (simp add: ipv6_wf_def ipv6_fields_def bytes16_def be16_bytes16)
qed

lemma ipv6_parse_iff:
  assumes "buf_ok d len"
  shows "ipv6_parse (Some d) len (Some h0) (Some q) (Some n) = Some (0, Some h, Some (Some p), Some m)
    \<longleftrightarrow> ipv6_wf h \<and> take 40 d = ipv6_encode h \<and> unat len = 40 + unat m \<and> p = drop 40 d"
proof (cases "40 \<le> unat len")
  case True
  with assms have len: "40 \<le> length d" by (simp add: buf_ok_def)
  have "ipv6_wf (ipv6_fields d)" if "ipv6_accepts d len"
    using that len ipv6_flow_label_bound by (simp add: ipv6_wf_def ipv6_fields_def ipv6_accepts_def)
  moreover have "ipv6_fields d = h" if "ipv6_wf h" "take 40 d = ipv6_encode h"
    using ipv6_fields_encode [OF that(1), of "drop 40 d"] that(2) by (metis append_take_drop_id)
  moreover have "ipv6_accepts d len" if "ipv6_wf h" "ipv6_fields d = h"
    using that True by (auto simp: ipv6_accepts_def ipv6_wf_def ipv6_fields_def)
  ultimately show ?thesis
    using True by (auto simp: ipv6_parse_eq [OF assms] ipv6_encode_fields [OF len] len_split)
qed (auto simp: ipv6_parse_short len_split)

end
