(* ===== verification/Tcp_Udp_Parser.thy ===== *)
theory Tcp_Udp_Parser
  imports Checksum Parser_Interface
begin

text \<open>
  \<open>src/src/c/tcp_udp_parser.c\<close>: TCP and UDP headers, and the four checksum verifiers that add the
  IPv4 or IPv6 pseudo-header.
\<close>

subsection \<open>Constants and the headers\<close>

abbreviation TCP_HEADER_MIN_LEN :: u32 where "TCP_HEADER_MIN_LEN \<equiv> 20"
abbreviation UDP_HEADER_LEN :: u32 where "UDP_HEADER_LEN \<equiv> 8"
abbreviation IPV4_PROTO_TCP :: u8 where "IPV4_PROTO_TCP \<equiv> 6"
abbreviation IPV4_PROTO_UDP :: u8 where "IPV4_PROTO_UDP \<equiv> 17"

abbreviation TCP_FLAG_FIN :: u8 where "TCP_FLAG_FIN \<equiv> 0x01"
abbreviation TCP_FLAG_SYN :: u8 where "TCP_FLAG_SYN \<equiv> 0x02"
abbreviation TCP_FLAG_RST :: u8 where "TCP_FLAG_RST \<equiv> 0x04"
abbreviation TCP_FLAG_PSH :: u8 where "TCP_FLAG_PSH \<equiv> 0x08"
abbreviation TCP_FLAG_ACK :: u8 where "TCP_FLAG_ACK \<equiv> 0x10"
abbreviation TCP_FLAG_URG :: u8 where "TCP_FLAG_URG \<equiv> 0x20"

record tcp_header_t =
  tcp_src_port :: u16
  tcp_dst_port :: u16
  seq_num :: u32
  ack_num :: u32
  data_offset :: u8
  tcp_flags :: u8
  window_size :: u16
  tcp_checksum :: u16
  urgent_pointer :: u16
  tcp_checksum_valid :: u8

record udp_header_t =
  udp_src_port :: u16
  udp_dst_port :: u16
  udp_length :: u16
  udp_checksum :: u16
  checksum_present :: u8
  udp_checksum_valid :: u8

subsection \<open>Parsing\<close>

definition tcp_parse :: "tcp_header_t parser" where
  "tcp_parse data len out_header out_payload out_payload_len =
     (case (data, out_header) of
        (Some d, Some h) \<Rightarrow>
          if len < TCP_HEADER_MIN_LEN then Some (-1, out_header, out_payload, out_payload_len)
          else do {
            b12 \<leftarrow> rd d 12;
            let offset = drop_bit 4 b12;
            let header_len = (ucast offset :: u32) * 4;
            if offset < 5 \<or> header_len > len then
              Some (-1, out_header, out_payload, out_payload_len)
            else do {
              sp \<leftarrow> rd16 d 0;
              dp \<leftarrow> rd16 d 2;
              seq \<leftarrow> rd32 d 4;
              ack \<leftarrow> rd32 d 8;
              b13 \<leftarrow> rd d 13;
              win \<leftarrow> rd16 d 14;
              csum \<leftarrow> rd16 d 16;
              urg \<leftarrow> rd16 d 18;
              let h = h\<lparr>tcp_src_port := sp, tcp_dst_port := dp, seq_num := seq, ack_num := ack,
                       data_offset := offset, tcp_flags := b13 AND 0x3F, window_size := win,
                       tcp_checksum := csum, urgent_pointer := urg, tcp_checksum_valid := 0\<rparr>;
              payload \<leftarrow> store_payload d header_len out_payload;
              Some (0, Some h, payload, store_len (len - header_len) out_payload_len)
            }
          }
      | _ \<Rightarrow> Some (-1, out_header, out_payload, out_payload_len))"

definition udp_parse :: "udp_header_t parser" where
  "udp_parse data len out_header out_payload out_payload_len =
     (case (data, out_header) of
        (Some d, Some h) \<Rightarrow>
          if len < UDP_HEADER_LEN then Some (-1, out_header, out_payload, out_payload_len)
          else do {
            sp \<leftarrow> rd16 d 0;
            dp \<leftarrow> rd16 d 2;
            ulen \<leftarrow> rd16 d 4;
            csum \<leftarrow> rd16 d 6;
            let h = h\<lparr>udp_src_port := sp, udp_dst_port := dp, udp_length := ulen,
                     udp_checksum := csum, checksum_present := (if csum \<noteq> 0 then 1 else 0),
                     udp_checksum_valid := 0\<rparr>;
            payload \<leftarrow> store_payload d UDP_HEADER_LEN out_payload;
            Some (0, Some h, payload, store_len (len - UDP_HEADER_LEN) out_payload_len)
          }
      | _ \<Rightarrow> Some (-1, out_header, out_payload, out_payload_len))"

subsection \<open>Checksum verification\<close>

definition tcp_verify_checksum ::
  "buf option \<Rightarrow> u32 \<Rightarrow> buf option \<Rightarrow> buf option \<Rightarrow> int option" where
  "tcp_verify_checksum segment segment_len src_ip dst_ip =
     (case (segment, src_ip, dst_ip) of
        (Some seg, Some src, Some dst) \<Rightarrow>
          if segment_len < TCP_HEADER_MIN_LEN then Some 0
          else checksum_verify_ipv4_pseudo seg segment_len src dst IPV4_PROTO_TCP
      | _ \<Rightarrow> Some 0)"

definition udp_verify_checksum ::
  "buf option \<Rightarrow> u32 \<Rightarrow> buf option \<Rightarrow> buf option \<Rightarrow> int option" where
  "udp_verify_checksum segment segment_len src_ip dst_ip =
     (case (segment, src_ip, dst_ip) of
        (Some seg, Some src, Some dst) \<Rightarrow>
          if segment_len < UDP_HEADER_LEN then Some 0
          else do {
            checksum_field \<leftarrow> rd16 seg 6;
            if checksum_field = 0 then Some 1
            else checksum_verify_ipv4_pseudo seg segment_len src dst IPV4_PROTO_UDP
          }
      | _ \<Rightarrow> Some 0)"

definition tcp_verify_checksum_ipv6 ::
  "buf option \<Rightarrow> u32 \<Rightarrow> buf option \<Rightarrow> buf option \<Rightarrow> int option" where
  "tcp_verify_checksum_ipv6 segment segment_len src_ip dst_ip =
     (case (segment, src_ip, dst_ip) of
        (Some seg, Some src, Some dst) \<Rightarrow>
          if segment_len < TCP_HEADER_MIN_LEN then Some 0
          else checksum_verify_ipv6_pseudo seg segment_len src dst IPV4_PROTO_TCP
      | _ \<Rightarrow> Some 0)"

definition udp_verify_checksum_ipv6 ::
  "buf option \<Rightarrow> u32 \<Rightarrow> buf option \<Rightarrow> buf option \<Rightarrow> int option" where
  "udp_verify_checksum_ipv6 segment segment_len src_ip dst_ip =
     (case (segment, src_ip, dst_ip) of
        (Some seg, Some src, Some dst) \<Rightarrow>
          if segment_len < UDP_HEADER_LEN then Some 0
          else checksum_verify_ipv6_pseudo seg segment_len src dst IPV4_PROTO_UDP
      | _ \<Rightarrow> Some 0)"

subsection \<open>What the TCP branches compute\<close>

abbreviation tcp_hlen :: "buf \<Rightarrow> nat" where
  "tcp_hlen d \<equiv> 4 * (unat (d ! 12) div 16)"

definition tcp_fields :: "buf \<Rightarrow> tcp_header_t" where
  "tcp_fields d = \<lparr>tcp_src_port = be16 (d ! 0) (d ! 1), tcp_dst_port = be16 (d ! 2) (d ! 3),
     seq_num = be32 (d ! 4) (d ! 5) (d ! 6) (d ! 7), ack_num = be32 (d ! 8) (d ! 9) (d ! 10) (d ! 11),
     data_offset = drop_bit 4 (d ! 12), tcp_flags = d ! 13 AND 0x3F,
     window_size = be16 (d ! 14) (d ! 15), tcp_checksum = be16 (d ! 16) (d ! 17),
     urgent_pointer = be16 (d ! 18) (d ! 19), tcp_checksum_valid = 0\<rparr>"

definition tcp_accepts :: "buf \<Rightarrow> u32 \<Rightarrow> bool" where
  "tcp_accepts d len \<longleftrightarrow> 20 \<le> unat len \<and> 20 \<le> tcp_hlen d \<and> tcp_hlen d \<le> unat len"

lemma tcp_parse_null: "data = None \<or> oh = None \<Longrightarrow> tcp_parse data len oh op ol = Some (-1, oh, op, ol)"
  by (auto simp: tcp_parse_def split: option.splits)

lemma tcp_parse_short: "unat len < 20 \<Longrightarrow> tcp_parse data len oh op ol = Some (-1, oh, op, ol)"
  by (auto simp: tcp_parse_def word_less_nat_alt split: option.splits)

lemma tcp_header_len: "unat ((ucast (drop_bit 4 b) :: u32) * 4) = 4 * (unat b div 16)" for b :: u8
proof -
  have "unat b div 16 < 16" using unat_u8_bound [of b] by (simp add: div_less_iff_less_mult)
  then have "unat (ucast (drop_bit 4 b) :: u32) = unat b div 16"
    by (simp only: unat_ucast_byte unat_drop_bit) simp
  with \<open>unat b div 16 < 16\<close> show ?thesis
    by (simp add: unat_word_ariths)
qed

lemma tcp_reject_iff:
  "drop_bit 4 b < 5 \<or> (ucast (drop_bit 4 b) :: u32) * 4 > len \<longleftrightarrow>
    \<not> (20 \<le> 4 * (unat b div 16) \<and> 4 * (unat b div 16) \<le> unat len)" for b :: u8
  unfolding word_less_nat_alt tcp_header_len unat_drop_bit by auto

lemma tcp_parse_eq:
  assumes "buf_ok d len"
  shows "tcp_parse (Some d) len (Some h) op ol = Some
    (if tcp_accepts d len then
       (0, Some (tcp_fields d), map_option (\<lambda>_. Some (drop (tcp_hlen d) d)) op,
        store_len (len - ucast (drop_bit 4 (d ! 12)) * 4) ol)
     else (-1, Some h, op, ol))"
proof (cases "20 \<le> unat len")
  case long: True
  with assms have len: "20 \<le> length d" "d \<noteq> []" by (auto simp: buf_ok_def)
  define hl where "hl = (ucast (drop_bit 4 (d ! 12)) :: u32) * 4"
  have hl: "unat hl = tcp_hlen d" unfolding hl_def by (rule tcp_header_len)
  have nshort: "\<not> len < 20" using long by (simp add: word_less_nat_alt)
  note reject = tcp_reject_iff [of "d ! 12" len, folded hl_def]
  show ?thesis
  proof (cases "tcp_accepts d len")
    case True
    then have "unat hl \<le> length d" using assms by (simp add: hl tcp_accepts_def buf_ok_def)
    then have pay: "store_payload d hl op = Some (map_option (\<lambda>_. Some (drop (tcp_hlen d) d)) op)"
      using store_payload_inside [of hl d op] by (simp only: hl)
    have "\<not> drop_bit 4 (d ! 12) < 5" "\<not> len < hl"
      using True reject by (auto simp only: tcp_accepts_def)
    with True len pay show ?thesis
      by (simp add: tcp_parse_def Let_def nshort mem_simps tcp_fields_def flip: hl_def)
  next
    case False
    then have "drop_bit 4 (d ! 12) < 5 \<or> len < hl"
      using long reject by (auto simp only: tcp_accepts_def)
    with False len show ?thesis
      by (simp add: tcp_parse_def Let_def nshort mem_simps flip: hl_def)
  qed
qed (simp add: tcp_parse_short tcp_accepts_def)

lemma tcp_payload_inside:
  "tcp_accepts d len \<Longrightarrow>
    20 \<le> tcp_hlen d \<and> tcp_hlen d + unat (len - ucast (drop_bit 4 (d ! 12)) * 4) \<le> unat len"
  by (subst unat_sub) (simp_all only: word_le_nat_alt tcp_header_len, simp_all add: tcp_accepts_def)

interpretation tcp: header_parser tcp_parse 20
  by (rule header_parserI [OF tcp_parse_null tcp_parse_short tcp_parse_eq tcp_payload_inside])

subsection \<open>Parsing inverts the TCP wire format\<close>

text \<open>
  The header record has no room for the four reserved bits of byte 12 nor for the two high flags
  of byte 13; \<open>tcp_visible\<close> clears them.
\<close>

definition tcp_visible :: "buf \<Rightarrow> buf" where
  "tcp_visible d = (take 20 d)[12 := d ! 12 AND 0xF0, 13 := d ! 13 AND 0x3F]"

definition tcp_encode :: "tcp_header_t \<Rightarrow> buf" where
  "tcp_encode h = bytes16 (tcp_src_port h) @ bytes16 (tcp_dst_port h) @ bytes32 (seq_num h)
     @ bytes32 (ack_num h) @ [push_bit 4 (data_offset h), tcp_flags h] @ bytes16 (window_size h)
     @ bytes16 (tcp_checksum h) @ bytes16 (urgent_pointer h)"

definition tcp_wf :: "tcp_header_t \<Rightarrow> bool" where
  "tcp_wf h \<longleftrightarrow> 5 \<le> unat (data_offset h) \<and> unat (data_offset h) < 16 \<and> unat (tcp_flags h) < 64
     \<and> tcp_checksum_valid h = 0"

lemma high_nibble_mask: "(0xF0 :: u8) = push_bit 4 (mask 4)"
  by (simp add: mask_eq_exp_minus_1 push_bit_eq_mult)

lemma high_nibble: "push_bit 4 (drop_bit 4 b) = b AND 0xF0" for b :: u8
  unfolding high_nibble_mask
  by (rule bit_word_eqI) (auto simp: bit_simps)

lemma high_nibble_small: "drop_bit 4 b AND 0x0F = drop_bit 4 b" for b :: u8
proof -
  have "unat b div 16 < 16" using unat_u8_bound [of b] by (simp add: div_less_iff_less_mult)
  then show ?thesis by (simp only: word_unat_eq_iff unat_and_low unat_drop_bit) simp
qed

lemma tcp_encode_fields:
  assumes "20 \<le> length d"
  shows "tcp_encode (tcp_fields d) = tcp_visible d"
proof -
  have "d = [d ! 0, d ! 1] @ [d ! 2, d ! 3] @ [d ! 4, d ! 5] @ [d ! 6, d ! 7] @ [d ! 8, d ! 9]
      @ [d ! 10, d ! 11] @ [d ! 12, d ! 13] @ [d ! 14, d ! 15] @ [d ! 16, d ! 17] @ [d ! 18, d ! 19]
      @ drop 20 d"
    using assms start_pair [of d] drop_pair [of 2 d] drop_pair [of 4 d] drop_pair [of 6 d]
      drop_pair [of 8 d] drop_pair [of 10 d] drop_pair [of 12 d] drop_pair [of 14 d]
      drop_pair [of 16 d] drop_pair [of 18 d]
    by simp
  then have "take 20 d = take 20 ([d ! 0, d ! 1, d ! 2, d ! 3, d ! 4, d ! 5, d ! 6, d ! 7, d ! 8, d ! 9,
      d ! 10, d ! 11, d ! 12, d ! 13, d ! 14, d ! 15, d ! 16, d ! 17, d ! 18, d ! 19] @ drop 20 d)"
    by simp
  then show ?thesis
    by (simp add: tcp_visible_def tcp_encode_def tcp_fields_def bytes16_be16 bytes32_be32 high_nibble)
qed

lemma tcp_fields_visible:
  assumes "20 \<le> length d"
  shows "tcp_fields (tcp_visible d @ p) = tcp_fields d"
  using assms
  by (simp add: tcp_fields_def tcp_visible_def nth_append nth_list_update high_nibble_small and.assoc)

lemma tcp_fields_encode:
  assumes "tcp_wf h"
  shows "tcp_fields (tcp_encode h @ p) = h"
proof -
  define b where "b = push_bit 4 (data_offset h)"
  have b: "drop_bit 4 b = data_offset h"
    using join_field_high [of 0 4 "data_offset h"] assms by (simp add: tcp_wf_def b_def)
  have f: "tcp_flags h AND 0x3F = tcp_flags h"
    using assms by (simp add: word_unat_eq_iff unat_and_low tcp_wf_def)
  have "tcp_encode h @ p = bytes16 (tcp_src_port h) @ bytes16 (tcp_dst_port h) @ bytes32 (seq_num h)
     @ bytes32 (ack_num h) @ [b, tcp_flags h] @ bytes16 (window_size h)
     @ bytes16 (tcp_checksum h) @ bytes16 (urgent_pointer h) @ p"
    by (simp add: tcp_encode_def b_def)
  then show ?thesis
    using assms
    by (simp add: tcp_fields_def tcp_wf_def b f bytes16_def be16_bytes16 bytes32_def be32_bytes32)
qed

lemma tcp_parse_iff:
  assumes "buf_ok d len"
  shows "tcp_parse (Some d) len (Some h0) (Some q) (Some n) = Some (0, Some h, Some (Some p), Some m)
    \<longleftrightarrow> 20 \<le> unat len \<and> tcp_wf h \<and> tcp_visible d = tcp_encode h
      \<and> unat len = 4 * unat (data_offset h) + unat m \<and> p = drop (4 * unat (data_offset h)) d"
proof (cases "20 \<le> unat len")
  case True
  with assms have len: "20 \<le> length d" by (simp add: buf_ok_def)
  have off: "tcp_hlen d = 4 * unat (data_offset (tcp_fields d))"
    by (simp add: tcp_fields_def unat_drop_bit)
  have wf: "tcp_wf (tcp_fields d) \<longleftrightarrow> 20 \<le> tcp_hlen d"
    using unat_u8_bound [of "d ! 12"] off
    by (auto simp: tcp_wf_def tcp_fields_def unat_and_low)
  have split: "unat len = tcp_hlen d + unat m
      \<longleftrightarrow> tcp_hlen d \<le> unat len \<and> m = len - ucast (drop_bit 4 (d ! 12)) * 4"
    unfolding len_split using word_of_unat [OF tcp_header_len [of "d ! 12"]] by (simp only:)
  show ?thesis
  proof (cases "h = tcp_fields d")
    case h: True
    show ?thesis
      unfolding tcp_parse_eq [OF assms] h off [symmetric] split tcp_encode_fields [OF len] wf
      using True by (auto simp: tcp_accepts_def)
  next
    case False
    then have "\<not> (tcp_wf h \<and> tcp_visible d = tcp_encode h)"
      using tcp_fields_encode [of h "[]"] tcp_fields_visible [OF len, of "[]"] by auto
    with False show ?thesis by (auto simp: tcp_parse_eq [OF assms])
  qed
qed (simp add: tcp_parse_short)

subsection \<open>UDP\<close>

definition udp_fields :: "buf \<Rightarrow> udp_header_t" where
  "udp_fields d = \<lparr>udp_src_port = be16 (d ! 0) (d ! 1), udp_dst_port = be16 (d ! 2) (d ! 3),
     udp_length = be16 (d ! 4) (d ! 5), udp_checksum = be16 (d ! 6) (d ! 7),
     checksum_present = (if be16 (d ! 6) (d ! 7) \<noteq> 0 then 1 else 0), udp_checksum_valid = 0\<rparr>"

definition udp_encode :: "udp_header_t \<Rightarrow> buf" where
  "udp_encode h = bytes16 (udp_src_port h) @ bytes16 (udp_dst_port h) @ bytes16 (udp_length h)
     @ bytes16 (udp_checksum h)"

definition udp_wf :: "udp_header_t \<Rightarrow> bool" where
  "udp_wf h \<longleftrightarrow> checksum_present h = (if udp_checksum h \<noteq> 0 then 1 else 0) \<and> udp_checksum_valid h = 0"

lemma udp_parse_null: "data = None \<or> oh = None \<Longrightarrow> udp_parse data len oh op ol = Some (-1, oh, op, ol)"
  by (auto simp: udp_parse_def split: option.splits)

lemma udp_parse_short: "unat len < 8 \<Longrightarrow> udp_parse data len oh op ol = Some (-1, oh, op, ol)"
  by (auto simp: udp_parse_def word_less_nat_alt split: option.splits)

lemma udp_parse_eq:
  assumes "buf_ok d len"
  shows "udp_parse (Some d) len (Some h) op ol = Some
    (if 8 \<le> unat len then
       (0, Some (udp_fields d), map_option (\<lambda>_. Some (drop 8 d)) op, store_len (len - 8) ol)
     else (-1, Some h, op, ol))"
  using assms
  by (simp add: udp_parse_def word_less_nat_alt mem_simps udp_fields_def Let_def buf_ok_def)

lemma udp_payload_inside: "8 \<le> unat len \<Longrightarrow> 8 \<le> (8 :: nat) \<and> 8 + unat (len - 8) \<le> unat len" for len :: u32
  by (simp add: unat_sub word_le_nat_alt)

interpretation udp: header_parser udp_parse 8
  by (rule header_parserI [OF udp_parse_null udp_parse_short udp_parse_eq udp_payload_inside])

lemma udp_encode_fields:
  assumes "8 \<le> length d"
  shows "udp_encode (udp_fields d) = take 8 d"
proof -
  have "d = [d ! 0, d ! 1] @ [d ! 2, d ! 3] @ [d ! 4, d ! 5] @ [d ! 6, d ! 7] @ drop 8 d"
    using assms start_pair [of d] drop_pair [of 2 d] drop_pair [of 4 d] drop_pair [of 6 d] by simp
  then have "d = udp_encode (udp_fields d) @ drop 8 d"
    by (simp add: udp_encode_def udp_fields_def bytes16_be16)
  then show ?thesis
    by (metis append_take_drop_id append_same_eq)
qed

lemma udp_fields_encode: "udp_wf h \<Longrightarrow> udp_fields (udp_encode h @ p) = h"
  by (simp add: udp_wf_def udp_fields_def udp_encode_def bytes16_def be16_bytes16)

lemma udp_parse_iff:
  assumes "buf_ok d len"
  shows "udp_parse (Some d) len (Some h0) (Some q) (Some n) = Some (0, Some h, Some (Some p), Some m)
    \<longleftrightarrow> udp_wf h \<and> take 8 d = udp_encode h \<and> unat len = 8 + unat m \<and> p = drop 8 d"
proof (cases "8 \<le> unat len")
  case True
  with assms have len: "8 \<le> length d" by (simp add: buf_ok_def)
  have "udp_wf (udp_fields d)" by (simp add: udp_wf_def udp_fields_def)
  moreover have "udp_fields d = h" if "udp_wf h" "take 8 d = udp_encode h"
    using udp_fields_encode [OF that(1), of "drop 8 d"] that(2) by (metis append_take_drop_id)
  ultimately show ?thesis
    using True by (auto simp: udp_parse_eq [OF assms] udp_encode_fields [OF len] len_split)
qed (auto simp: udp_parse_short len_split)

subsection \<open>Verdicts of the verifiers\<close>

text \<open>The one's-complement verdict of a segment under either pseudo-header.\<close>

definition ipv4_segment_ok :: "buf \<Rightarrow> u32 \<Rightarrow> buf \<Rightarrow> buf \<Rightarrow> u8 \<Rightarrow> bool" where
  "ipv4_segment_ok seg len src dst proto \<longleftrightarrow>
     ones_sum (ipv4_pseudo_header src dst proto (ucast len) @ take (unat len) seg) = 0xFFFF"

definition ipv6_segment_ok :: "buf \<Rightarrow> u32 \<Rightarrow> buf \<Rightarrow> buf \<Rightarrow> u8 \<Rightarrow> bool" where
  "ipv6_segment_ok seg len src dst proto \<longleftrightarrow>
     ones_sum (ipv6_pseudo_header src dst proto len @ take (unat len) seg) = 0xFFFF"

lemma verify_checksum_null:
  assumes "seg = None \<or> src = None \<or> dst = None"
  shows "tcp_verify_checksum seg len src dst = Some 0" "udp_verify_checksum seg len src dst = Some 0"
    and "tcp_verify_checksum_ipv6 seg len src dst = Some 0"
    and "udp_verify_checksum_ipv6 seg len src dst = Some 0"
  using assms
  by (auto simp: tcp_verify_checksum_def udp_verify_checksum_def tcp_verify_checksum_ipv6_def
      udp_verify_checksum_ipv6_def split: option.splits)

lemma tcp_verify_checksum_eq:
  assumes "buf_ok seg len" "unat len \<le> 65536" "4 \<le> length src" "4 \<le> length dst"
  shows "tcp_verify_checksum (Some seg) len (Some src) (Some dst)
    = Some (if 20 \<le> unat len \<and> ipv4_segment_ok seg len src dst 6 then 1 else 0)"
  by (simp add: tcp_verify_checksum_def checksum_verify_ipv4_pseudo_spec [OF assms]
      ipv4_segment_ok_def word_less_nat_alt)

lemma udp_verify_checksum_eq:
  assumes "buf_ok seg len" "unat len \<le> 65536" "4 \<le> length src" "4 \<le> length dst"
  shows "udp_verify_checksum (Some seg) len (Some src) (Some dst)
    = Some (if 8 \<le> unat len \<and> (udp_checksum (udp_fields seg) = 0 \<or> ipv4_segment_ok seg len src dst 17)
        then 1 else 0)"
  using assms(1)
  by (simp add: udp_verify_checksum_def checksum_verify_ipv4_pseudo_spec [OF assms]
      ipv4_segment_ok_def word_less_nat_alt mem_simps buf_ok_def udp_fields_def)

lemma verify_checksum_ipv6_eq:
  assumes "buf_ok seg len" "unat len \<le> 65536" "16 \<le> length src" "16 \<le> length dst"
  shows "tcp_verify_checksum_ipv6 (Some seg) len (Some src) (Some dst)
      = Some (if 20 \<le> unat len \<and> ipv6_segment_ok seg len src dst 6 then 1 else 0)"
    and "udp_verify_checksum_ipv6 (Some seg) len (Some src) (Some dst)
      = Some (if 8 \<le> unat len \<and> ipv6_segment_ok seg len src dst 17 then 1 else 0)"
  by (simp_all add: tcp_verify_checksum_ipv6_def udp_verify_checksum_ipv6_def
      checksum_verify_ipv6_pseudo_spec [OF assms] ipv6_segment_ok_def word_less_nat_alt)

subsection \<open>Properties of the transport parsers\<close>

text \<open>
  C23: \<open>tcp_parse\<close> accepts exactly the segments that start with the encoding of a header: it returns 0 and
  stores the header \<open>h\<close> iff the first 20 bytes, up to the reserved bits, are the wire format of \<open>h\<close> and
  the data offset of \<open>h\<close> lies inside the segment; the payload is then the rest of the segment behind the
  options.
\<close>

theorem tcp_parse_decodes:
  assumes "buf_ok d len"
  shows "tcp_parse (Some d) len (Some h0) (Some q) (Some n) = Some (0, Some h, Some (Some p), Some m)
    \<longleftrightarrow> 20 \<le> unat len \<and> tcp_wf h \<and> tcp_visible d = tcp_encode h
      \<and> unat len = 4 * unat (data_offset h) + unat m \<and> p = drop (4 * unat (data_offset h)) d"
  using assms by (rule tcp_parse_iff)

theorem tcp_parse_decodes_witness:
  "\<exists>h. tcp_parse (Some [0, 80, 1, 187, 0, 0, 0, 1, 0, 0, 0, 2, 0x50, 0x12, 4, 0, 0, 0, 0, 0, 0xAB]) 21 (Some (tcp_fields (replicate 20 0))) (Some None) (Some 0)
      = Some (0, Some h, Some (Some [0xAB]), Some 1) \<and> tcp_src_port h = 80 \<and> tcp_flags h = 0x12"
proof -
  let ?d = "[0, 80, 1, 187, 0, 0, 0, 1, 0, 0, 0, 2, 0x50, 0x12, 4, 0, 0, 0, 0, 0, 0xAB] :: buf"
  let ?h = "\<lparr>tcp_src_port = 80, tcp_dst_port = 443, seq_num = 1, ack_num = 2, data_offset = 5, tcp_flags = 0x12,
    window_size = 1024, tcp_checksum = 0, urgent_pointer = 0, tcp_checksum_valid = 0\<rparr>"
  have "tcp_parse (Some ?d) 21 (Some (tcp_fields (replicate 20 0))) (Some None) (Some 0) = Some (0, Some ?h, Some (Some [0xAB]), Some 1)"
    by (subst tcp_parse_decodes) (simp_all add: buf_ok_def tcp_wf_def tcp_visible_def tcp_encode_def bytes16_def bytes32_def)
  then show ?thesis by (intro exI [of _ ?h]) simp
qed

text \<open>
  C25: The TCP checksum catches every error in a single byte: two different segments of the same length that
  \<open>tcp_verify_checksum\<close> accepts for the same pair of addresses differ in at least two bytes.
\<close>

theorem tcp_checksum_distance:
  assumes "tcp_verify_checksum (Some seg) len (Some src) (Some dst) = Some 1"
    and "tcp_verify_checksum (Some seg') len (Some src) (Some dst) = Some 1"
    and "length seg = unat len" "length seg' = unat len" "unat len \<le> 65535" "4 \<le> length src" "4 \<le> length dst" "seg \<noteq> seg'"
  shows "\<exists>i j. i < j \<and> j < unat len \<and> seg ! i \<noteq> seg' ! i \<and> seg ! j \<noteq> seg' ! j"
proof -
  have acc: "checksum_verify_ipv4_pseudo s len src dst 6 = Some 1"
    if "tcp_verify_checksum (Some s) len (Some src) (Some dst) = Some 1" for s
    using that by (auto simp: tcp_verify_checksum_def split: if_splits)
  from ipv4_check.distance_two [of src dst seg 6 seg'] acc [OF assms(1)] acc [OF assms(2)] assms(3-8) show ?thesis
    by simp
qed

theorem tcp_checksum_distance_witness:
  "\<exists>i j. i < j \<and> j < 20 \<and> [0, 0, 0, 0, 0, 0, 0, 0, 0, 0, 0, 0, 0, 0, 0, 0, 0xFF, 0xE5, 0, 0] ! i \<noteq> ([0, 0, 0, 0, 0, 0, 0, 0, 0, 0, 0, 0, 0, 0, 0, 1, 0xFF, 0xE4, 0, 0] :: buf) ! i
    \<and> [0, 0, 0, 0, 0, 0, 0, 0, 0, 0, 0, 0, 0, 0, 0, 0, 0xFF, 0xE5, 0, 0] ! j \<noteq> ([0, 0, 0, 0, 0, 0, 0, 0, 0, 0, 0, 0, 0, 0, 0, 1, 0xFF, 0xE4, 0, 0] :: buf) ! j"
proof -
  let ?a = "[0, 0, 0, 0, 0, 0, 0, 0, 0, 0, 0, 0, 0, 0, 0, 0, 0xFF, 0xE5, 0, 0] :: buf" and ?b = "[0, 0, 0, 0, 0, 0, 0, 0, 0, 0, 0, 0, 0, 0, 0, 1, 0xFF, 0xE4, 0, 0] :: buf"
  let ?ip = "[0, 0, 0, 0] :: buf"
  have ok: "tcp_verify_checksum (Some ?a) 20 (Some ?ip) (Some ?ip) = Some 1" "tcp_verify_checksum (Some ?b) 20 (Some ?ip) (Some ?ip) = Some 1"
    by (simp_all add: tcp_verify_checksum_eq buf_ok_def ipv4_segment_ok_def ipv4_pseudo_header_def bytes16_def ones_add_def be16_def)
  from tcp_checksum_distance [OF ok] show ?thesis by simp
qed

end
