(* ===== verification/Icmp_Parser.thy ===== *)
theory Icmp_Parser
  imports Tcp_Udp_Parser
begin

text \<open>
  \<open>src/src/c/icmp_parser.c\<close>: the eight-byte ICMP/ICMPv6 header, with the family deciding which
  message types carry an echo identifier and sequence number, and the two checksum verifiers.
\<close>

subsection \<open>Constants and the header\<close>

abbreviation ICMP_HEADER_LEN :: u32 where "ICMP_HEADER_LEN \<equiv> 8"
abbreviation IP_PROTO_ICMPV6 :: u8 where "IP_PROTO_ICMPV6 \<equiv> 58"

abbreviation ICMPV4_TYPE_ECHO_REPLY :: u8 where "ICMPV4_TYPE_ECHO_REPLY \<equiv> 0"
abbreviation ICMPV4_TYPE_DEST_UNREACHABLE :: u8 where "ICMPV4_TYPE_DEST_UNREACHABLE \<equiv> 3"
abbreviation ICMPV4_TYPE_ECHO_REQUEST :: u8 where "ICMPV4_TYPE_ECHO_REQUEST \<equiv> 8"
abbreviation ICMPV4_TYPE_TIME_EXCEEDED :: u8 where "ICMPV4_TYPE_TIME_EXCEEDED \<equiv> 11"
abbreviation ICMPV6_TYPE_DEST_UNREACHABLE :: u8 where "ICMPV6_TYPE_DEST_UNREACHABLE \<equiv> 1"
abbreviation ICMPV6_TYPE_PACKET_TOO_BIG :: u8 where "ICMPV6_TYPE_PACKET_TOO_BIG \<equiv> 2"
abbreviation ICMPV6_TYPE_TIME_EXCEEDED :: u8 where "ICMPV6_TYPE_TIME_EXCEEDED \<equiv> 3"
abbreviation ICMPV6_TYPE_ECHO_REQUEST :: u8 where "ICMPV6_TYPE_ECHO_REQUEST \<equiv> 128"
abbreviation ICMPV6_TYPE_ECHO_REPLY :: u8 where "ICMPV6_TYPE_ECHO_REPLY \<equiv> 129"

datatype icmp_family_t = ICMP_FAMILY_V4 | ICMP_FAMILY_V6

record icmp_header_t =
  icmp_type :: u8
  icmp_code :: u8
  icmp_checksum :: u16
  icmp_checksum_valid :: u8
  is_echo :: u8
  echo_id :: u16
  echo_seq :: u16

subsection \<open>Parsing\<close>

definition icmp_parse :: "buf option \<Rightarrow> u32 \<Rightarrow> icmp_family_t \<Rightarrow> icmp_header_t option \<Rightarrow>
    (int \<times> icmp_header_t option) option" where
  "icmp_parse data len family out_header =
     (case (data, out_header) of
        (Some d, Some h) \<Rightarrow>
          if len < ICMP_HEADER_LEN then Some (-1, out_header)
          else do {
            b0 \<leftarrow> rd d 0;
            b1 \<leftarrow> rd d 1;
            csum \<leftarrow> rd16 d 2;
            let h = h\<lparr>icmp_type := b0, icmp_code := b1, icmp_checksum := csum,
                     icmp_checksum_valid := 0\<rparr>;
            let echo_request_type =
              (if family = ICMP_FAMILY_V6 then ICMPV6_TYPE_ECHO_REQUEST else ICMPV4_TYPE_ECHO_REQUEST);
            let echo_reply_type =
              (if family = ICMP_FAMILY_V6 then ICMPV6_TYPE_ECHO_REPLY else ICMPV4_TYPE_ECHO_REPLY);
            if icmp_type h = echo_request_type \<or> icmp_type h = echo_reply_type then do {
              eid \<leftarrow> rd16 d 4;
              eseq \<leftarrow> rd16 d 6;
              Some (0, Some (h\<lparr>is_echo := 1, echo_id := eid, echo_seq := eseq\<rparr>))
            } else
              Some (0, Some (h\<lparr>is_echo := 0, echo_id := 0, echo_seq := 0\<rparr>))
          }
      | _ \<Rightarrow> Some (-1, out_header))"

definition icmpv4_verify_checksum :: "buf option \<Rightarrow> u32 \<Rightarrow> int option" where
  "icmpv4_verify_checksum segment segment_len =
     (case segment of
        Some seg \<Rightarrow> if segment_len < ICMP_HEADER_LEN then Some 0 else checksum_verify seg segment_len
      | None \<Rightarrow> Some 0)"

definition icmpv6_verify_checksum ::
  "buf option \<Rightarrow> u32 \<Rightarrow> buf option \<Rightarrow> buf option \<Rightarrow> int option" where
  "icmpv6_verify_checksum segment segment_len src_ip dst_ip =
     (case (segment, src_ip, dst_ip) of
        (Some seg, Some src, Some dst) \<Rightarrow>
          if segment_len < ICMP_HEADER_LEN then Some 0
          else checksum_verify_ipv6_pseudo seg segment_len src dst IP_PROTO_ICMPV6
      | _ \<Rightarrow> Some 0)"

subsection \<open>What the branches compute\<close>

definition icmp_echo_types :: "icmp_family_t \<Rightarrow> u8 set" where
  "icmp_echo_types family =
     (case family of ICMP_FAMILY_V4 \<Rightarrow> {0, 8} | ICMP_FAMILY_V6 \<Rightarrow> {128, 129})"

definition icmp_fields :: "icmp_family_t \<Rightarrow> buf \<Rightarrow> icmp_header_t" where
  "icmp_fields family d = (let echo = d ! 0 \<in> icmp_echo_types family in
     \<lparr>icmp_type = d ! 0, icmp_code = d ! 1, icmp_checksum = be16 (d ! 2) (d ! 3),
      icmp_checksum_valid = 0, is_echo = (if echo then 1 else 0),
      echo_id = (if echo then be16 (d ! 4) (d ! 5) else 0),
      echo_seq = (if echo then be16 (d ! 6) (d ! 7) else 0)\<rparr>)"

lemma icmp_parse_null: "data = None \<or> oh = None \<Longrightarrow> icmp_parse data len fam oh = Some (-1, oh)"
  by (auto simp: icmp_parse_def split: option.splits)

lemma icmp_parse_short: "unat len < 8 \<Longrightarrow> icmp_parse data len fam oh = Some (-1, oh)"
  by (auto simp: icmp_parse_def word_less_nat_alt split: option.splits)

lemma icmp_parse_eq:
  assumes "buf_ok d len"
  shows "icmp_parse (Some d) len fam (Some h) = Some
    (if 8 \<le> unat len then (0, Some (icmp_fields fam d)) else (-1, Some h))"
proof (cases "8 \<le> unat len")
  case True
  with assms have "8 \<le> length d" "d \<noteq> []" by (auto simp: buf_ok_def)
  with True show ?thesis
    by (cases fam)
      (auto simp: icmp_parse_def icmp_fields_def icmp_echo_types_def Let_def word_less_nat_alt mem_simps)
qed (simp add: icmp_parse_short)

interpretation icmp: leaf_parser "\<lambda>data len. icmp_parse data len fam" 8 for fam
  by (rule leaf_parserI) (simp_all add: icmp_parse_null icmp_parse_short icmp_parse_eq)

text \<open>For an echo message the eight bytes and the record determine each other.\<close>

definition icmp_echo_encode :: "icmp_header_t \<Rightarrow> buf" where
  "icmp_echo_encode h = [icmp_type h, icmp_code h] @ bytes16 (icmp_checksum h) @ bytes16 (echo_id h)
     @ bytes16 (echo_seq h)"

lemma icmp_echo_fields:
  assumes "8 \<le> length d" "d ! 0 \<in> icmp_echo_types fam"
  shows "icmp_echo_encode (icmp_fields fam d) = take 8 d"
proof -
  have "d = [d ! 0, d ! 1] @ [d ! 2, d ! 3] @ [d ! 4, d ! 5] @ [d ! 6, d ! 7] @ drop 8 d"
    using assms(1) start_pair [of d] drop_pair [of 2 d] drop_pair [of 4 d] drop_pair [of 6 d] by simp
  then have "d = icmp_echo_encode (icmp_fields fam d) @ drop 8 d"
    using assms(2) by (simp add: icmp_echo_encode_def icmp_fields_def bytes16_be16)
  then show ?thesis
    by (metis append_take_drop_id append_same_eq)
qed

lemma icmpv4_verify_checksum_eq:
  assumes "buf_ok seg len" "unat len \<le> 65536"
  shows "icmpv4_verify_checksum (Some seg) len
    = Some (if 8 \<le> unat len \<and> ones_sum (take (unat len) seg) = 0xFFFF then 1 else 0)"
  by (simp add: icmpv4_verify_checksum_def checksum_verify_spec [OF assms] word_less_nat_alt)

lemma icmpv6_verify_checksum_eq:
  assumes "buf_ok seg len" "unat len \<le> 65536" "16 \<le> length src" "16 \<le> length dst"
  shows "icmpv6_verify_checksum (Some seg) len (Some src) (Some dst)
    = Some (if 8 \<le> unat len \<and> ipv6_segment_ok seg len src dst 58 then 1 else 0)"
  by (simp add: icmpv6_verify_checksum_def checksum_verify_ipv6_pseudo_spec [OF assms]
      ipv6_segment_ok_def word_less_nat_alt)

end
