(* ===== verification/Protocol_Stack.thy ===== *)
theory Protocol_Stack
  imports Eth_Parser Ip_Parser Ipv6_Parser Tcp_Udp_Parser
begin

text \<open>
  The parsers run on each other's payloads, in the combinations \<open>print_packet\<close> uses: IPv4 and IPv6 over
  Ethernet, TCP and UDP over either.
\<close>

subsection \<open>Stacks of two parsers\<close>

interpretation eth_ip: parser_stack eth_parse 14 ip_parse 20 ..

interpretation eth_ipv6: parser_stack eth_parse 14 ipv6_parse 40 ..

interpretation ip_tcp: parser_stack ip_parse 20 tcp_parse 20 ..

interpretation ip_udp: parser_stack ip_parse 20 udp_parse 8 ..

interpretation ipv6_tcp: parser_stack ipv6_parse 40 tcp_parse 20 ..

interpretation ipv6_udp: parser_stack ipv6_parse 40 udp_parse 8 ..

lemma nested_ok:
  assumes "buf_ok d len" "off + unat m \<le> unat len"
  shows "buf_ok (drop off d) m"
  using assms by (simp add: buf_ok_def)

subsection \<open>Properties\<close>

text \<open>
  C21: The decoding pipeline stays inside the captured frame: the payload that \<open>tcp_parse\<close> or \<open>udp_parse\<close>
  returns, run on the payload of \<open>ip_parse\<close>, run on the payload of \<open>eth_parse\<close>, lies inside the \<open>len\<close> bytes
  that were captured, behind the three headers, whatever lengths the headers claim.
\<close>

theorem transport_payload_in_frame:
  assumes "buf_ok d len"
    and "eth_parse (Some d) len eh (Some p0) (Some n0) = Some (0, eh', Some pl1, Some m1)"
    and "ip_parse pl1 m1 ih (Some p1) (Some n1) = Some (0, ih', Some pl2, Some m2)"
  shows "(tcp_parse pl2 m2 th (Some p2) (Some n2) = Some (0, th', Some pl3, Some m3) \<longrightarrow>
      (\<exists>off. pl3 = Some (drop off d) \<and> 54 \<le> off \<and> off + unat m3 \<le> unat len))
    \<and> (udp_parse pl2 m2 uh (Some p2) (Some n2) = Some (0, uh', Some pl3, Some m3) \<longrightarrow>
      (\<exists>off. pl3 = Some (drop off d) \<and> 42 \<le> off \<and> off + unat m3 \<le> unat len))"
proof -
  obtain off1 where 1: "pl1 = Some (drop off1 d)" "14 \<le> off1" "off1 + unat m1 \<le> unat len" "buf_ok (drop off1 d) m1"
    using eth.payload_ok [OF assms(1,2)] by (metis option.inject)
  note ip = assms(3) [unfolded 1(1)]
  have shift: "\<exists>off. drop off2 (drop off1 d) = drop off d \<and> 14 + k \<le> off \<and> off + unat m3 \<le> unat len"
    if "k \<le> off2" "off2 + unat m3 \<le> unat m1" for off2 k
    using that 1 by (intro exI [of _ "off1 + off2"]) (simp add: add.commute)
  show ?thesis
  proof (intro conjI impI)
    assume "tcp_parse pl2 m2 th (Some p2) (Some n2) = Some (0, th', Some pl3, Some m3)"
    from ip_tcp.nested_payload [OF 1(4) ip this] obtain off2
      where "pl3 = Some (drop off2 (drop off1 d))" "40 \<le> off2" "off2 + unat m3 \<le> unat m1" by auto
    with shift [of 40 off2] show "\<exists>off. pl3 = Some (drop off d) \<and> 54 \<le> off \<and> off + unat m3 \<le> unat len" by auto
  next
    assume "udp_parse pl2 m2 uh (Some p2) (Some n2) = Some (0, uh', Some pl3, Some m3)"
    from ip_udp.nested_payload [OF 1(4) ip this] obtain off2
      where "pl3 = Some (drop off2 (drop off1 d))" "28 \<le> off2" "off2 + unat m3 \<le> unat m1" by auto
    with shift [of 28 off2] show "\<exists>off. pl3 = Some (drop off d) \<and> 42 \<le> off \<and> off + unat m3 \<le> unat len" by auto
  qed
qed

theorem transport_payload_in_frame_witness:
  "\<exists>off. drop 42 ([1, 2, 3, 4, 5, 6, 7, 8, 9, 10, 11, 12, 8, 0] @ [0x45, 0, 0, 30, 0, 0, 0, 0, 64, 17, 0, 0, 10, 0, 0, 1, 10, 0, 0, 2]
      @ [0, 53, 0, 53, 0, 10, 0, 0] @ [0xAB, 0xCD :: u8])
    = drop off ([1, 2, 3, 4, 5, 6, 7, 8, 9, 10, 11, 12, 8, 0] @ [0x45, 0, 0, 30, 0, 0, 0, 0, 64, 17, 0, 0, 10, 0, 0, 1, 10, 0, 0, 2]
      @ [0, 53, 0, 53, 0, 10, 0, 0] @ [0xAB, 0xCD]) \<and> 42 \<le> off \<and> off + 2 \<le> (44 :: nat)"
proof -
  let ?eth = "[1, 2, 3, 4, 5, 6, 7, 8, 9, 10, 11, 12, 8, 0] :: buf"
  let ?ip = "[0x45, 0, 0, 30, 0, 0, 0, 0, 64, 17, 0, 0, 10, 0, 0, 1, 10, 0, 0, 2] :: buf"
  let ?udp = "[0, 53, 0, 53, 0, 10, 0, 0] :: buf" let ?data = "[0xAB, 0xCD] :: buf"
  let ?d = "?eth @ ?ip @ ?udp @ ?data"
  let ?eh = "\<lparr>dst_mac = [], src_mac = [], ether_type = 0, has_vlan = 0, vlan_tci = 0\<rparr>"
  let ?ih = "ip_fields (replicate 20 0)" let ?uh = "udp_fields (replicate 8 0)"
  have ok: "buf_ok ?d 44" by (simp add: buf_ok_def)
  have ok1: "buf_ok (?ip @ ?udp @ ?data) 30" and ok2: "buf_ok (?udp @ ?data) 10" by (simp_all add: buf_ok_def)
  have eth: "\<exists>h. eth_parse (Some ?d) 44 (Some ?eh) (Some None) (Some 0) = Some (0, h, Some (Some (?ip @ ?udp @ ?data)), Some 30)"
    unfolding eth_parse_eq [OF ok] by (simp add: be16_def)
  have ip: "\<exists>h. ip_parse (Some (?ip @ ?udp @ ?data)) 30 (Some ?ih) (Some None) (Some 0) = Some (0, h, Some (Some (?udp @ ?data)), Some 10)"
    unfolding ip_parse_eq [OF ok1] by (simp add: be16_def ip_accepts_def ip_payload_len_def)
  have udp: "\<exists>h. udp_parse (Some (?udp @ ?data)) 10 (Some ?uh) (Some None) (Some 0) = Some (0, h, Some (Some ?data), Some 2)"
    unfolding udp_parse_eq [OF ok2] by simp
  from eth ip udp transport_payload_in_frame [OF ok, of "Some ?eh" None 0 _ "Some (?ip @ ?udp @ ?data)" 30 "Some ?ih" None 0
      _ "Some (?udp @ ?data)" 10 undefined None 0 undefined "Some ?data" 2 "Some ?uh"]
  show ?thesis by fastforce
qed

end
