(* ===== verification/Bpf.thy ===== *)
theory Bpf
  imports Prelude
begin

text \<open>
  Classic BPF as the program uses it: the instruction format and opcodes of \<open>linux/filter.h\<close>, the
  interpreter of \<open>src/src/tests/bpf_interp.c\<close>, which stands for the kernel's own, and what the kernel
  demands of a program before it attaches it.

  The interpreter counts its steps and gives up after 10000. \<open>bpf_exec\<close> is the same machine without
  the counter; it terminates because classic BPF jumps only forward, and \<open>bpf_interp_run_exec\<close> shows
  that the counter never matters for a program of at most 10000 instructions.
\<close>

subsection \<open>Instructions\<close>

record sock_filter =
  bpf_code :: u16
  bpf_jt :: u8
  bpf_jf :: u8
  bpf_k :: u32

record sock_fprog =
  fprog_len :: u16
  fprog_filter :: "sock_filter list option"

abbreviation BPF_LD :: u16 where "BPF_LD \<equiv> 0x00"
abbreviation BPF_LDX :: u16 where "BPF_LDX \<equiv> 0x01"
abbreviation BPF_ALU :: u16 where "BPF_ALU \<equiv> 0x04"
abbreviation BPF_JMP :: u16 where "BPF_JMP \<equiv> 0x05"
abbreviation BPF_RET :: u16 where "BPF_RET \<equiv> 0x06"
abbreviation BPF_W :: u16 where "BPF_W \<equiv> 0x00"
abbreviation BPF_H :: u16 where "BPF_H \<equiv> 0x08"
abbreviation BPF_B :: u16 where "BPF_B \<equiv> 0x10"
abbreviation BPF_ABS :: u16 where "BPF_ABS \<equiv> 0x20"
abbreviation BPF_IND :: u16 where "BPF_IND \<equiv> 0x40"
abbreviation BPF_MSH :: u16 where "BPF_MSH \<equiv> 0xa0"
abbreviation BPF_AND :: u16 where "BPF_AND \<equiv> 0x50"
abbreviation BPF_JEQ :: u16 where "BPF_JEQ \<equiv> 0x10"
abbreviation BPF_K :: u16 where "BPF_K \<equiv> 0x00"

definition BPF_CLASS :: "u16 \<Rightarrow> u16" where "BPF_CLASS code = code AND 0x07"
definition BPF_SIZE :: "u16 \<Rightarrow> u16" where "BPF_SIZE code = code AND 0x18"
definition BPF_MODE :: "u16 \<Rightarrow> u16" where "BPF_MODE code = code AND 0xe0"
definition BPF_OP :: "u16 \<Rightarrow> u16" where "BPF_OP code = code AND 0xf0"

subsection \<open>The interpreter\<close>

text \<open>
  \<open>load_u\<close>: the outer option is a read outside the packet buffer, the inner one the \<open>-1\<close> of a load
  the bounds check refuses. The check adds in 32 bits, so it can wrap.
\<close>

function load_bytes :: "buf \<Rightarrow> u32 \<Rightarrow> nat \<Rightarrow> nat \<Rightarrow> u32 \<Rightarrow> u32 option" where
  "load_bytes pkt off i width v =
     (if i < width then do {
        b \<leftarrow> rd pkt (unat (off + of_nat i));
        load_bytes pkt off (i + 1) width (push_bit 8 v OR ucast b)
      } else Some v)"
  by pat_completeness auto
termination
  by (relation "measure (\<lambda>(_, _, i, width, _). width - i)") auto

definition load_u :: "buf \<Rightarrow> u32 \<Rightarrow> u32 \<Rightarrow> nat \<Rightarrow> u32 option option" where
  "load_u pkt pkt_len off width =
     (if off + of_nat width > pkt_len then Some None
      else do { v \<leftarrow> load_bytes pkt off 0 width 0; Some (Some v) })"

text \<open>One pass through the body of the \<open>while\<close> loop: a final result, or the next \<open>pc\<close>, \<open>a\<close>, \<open>x\<close>.\<close>

datatype bpf_next = Done u32 | Next nat u32 u32

definition bpf_step :: "sock_filter \<Rightarrow> buf \<Rightarrow> u32 \<Rightarrow> nat \<Rightarrow> u32 \<Rightarrow> u32 \<Rightarrow> bpf_next option" where
  "bpf_step f pkt pkt_len pc a x =
     (let cls = BPF_CLASS (bpf_code f) in
      if cls = BPF_LD \<or> cls = BPF_LDX then
        let width = (if BPF_SIZE (bpf_code f) = BPF_W then 4
                     else if BPF_SIZE (bpf_code f) = BPF_H then 2 else 1);
            mode = BPF_MODE (bpf_code f) in
        if mode = BPF_ABS \<or> mode = BPF_IND then do {
          let off = (if mode = BPF_ABS then bpf_k f else bpf_k f + x);
          r \<leftarrow> load_u pkt pkt_len off width;
          case r of
            None \<Rightarrow> Some (Done 0)
          | Some v \<Rightarrow> Some (if cls = BPF_LD then Next (pc + 1) v x else Next (pc + 1) a v)
        } else if mode = BPF_MSH then do {
          r \<leftarrow> load_u pkt pkt_len (bpf_k f) 1;
          case r of
            None \<Rightarrow> Some (Done 0)
          | Some v \<Rightarrow> Some (Next (pc + 1) a ((v AND 0x0f) * 4))
        } else Some (Done 0)
      else if cls = BPF_ALU then
        Some (Next (pc + 1) (if BPF_OP (bpf_code f) = BPF_AND then a AND bpf_k f else a) x)
      else if cls = BPF_JMP then
        if BPF_OP (bpf_code f) = BPF_JEQ then
          Some (Next (pc + (1 + (if a = bpf_k f then unat (bpf_jt f) else unat (bpf_jf f)))) a x)
        else Some (Done 0)
      else if cls = BPF_RET then Some (Done (bpf_k f))
      else Some (Done 0))"

text \<open>
  The loop. \<open>pc\<close> is an \<open>unsigned int\<close> that stays below \<open>65535 + 257\<close>, so a natural number is exact;
  reading an instruction outside the array is \<open>None\<close>.
\<close>

function bpf_loop :: "sock_filter list \<Rightarrow> nat \<Rightarrow> buf \<Rightarrow> u32 \<Rightarrow> nat \<Rightarrow> nat \<Rightarrow> u32 \<Rightarrow> u32 \<Rightarrow> u32 option" where
  "bpf_loop prog len pkt pkt_len steps pc a x =
     (if pc < len then
        let steps = steps + 1 in
        if steps > 10000 then Some 0
        else if length prog \<le> pc then None
        else (case bpf_step (prog ! pc) pkt pkt_len pc a x of
                None \<Rightarrow> None
              | Some (Done r) \<Rightarrow> Some r
              | Some (Next pc' a' x') \<Rightarrow> bpf_loop prog len pkt pkt_len steps pc' a' x')
      else Some 0)"
  by pat_completeness auto
termination
  by (relation "measure (\<lambda>(_, _, _, _, steps, _). 10000 - steps)") auto

definition bpf_interp_run :: "sock_fprog option \<Rightarrow> buf \<Rightarrow> u32 \<Rightarrow> u32 option" where
  "bpf_interp_run prog pkt pkt_len =
     (case prog of
        None \<Rightarrow> Some 0xFFFF
      | Some p \<Rightarrow>
          (case fprog_filter p of
             None \<Rightarrow> Some 0xFFFF
           | Some is \<Rightarrow>
               if fprog_len p = 0 then Some 0xFFFF
               else bpf_loop is (unat (fprog_len p)) pkt pkt_len 0 0 0 0))"

declare bpf_loop.simps [simp del] load_bytes.simps [simp del]

subsection \<open>The machine without the step counter\<close>

lemma bpf_step_forward: "bpf_step f pkt n pc a x = Some (Next pc' a' x') \<Longrightarrow> pc < pc'"
  by (auto simp: bpf_step_def Let_def split: if_splits option.splits Option.bind_splits)

function bpf_exec :: "sock_filter list \<Rightarrow> buf \<Rightarrow> u32 \<Rightarrow> nat \<Rightarrow> u32 \<Rightarrow> u32 \<Rightarrow> u32 option" where
  "bpf_exec prog pkt n pc a x =
     (if pc < length prog then
        (case bpf_step (prog ! pc) pkt n pc a x of
           None \<Rightarrow> None
         | Some (Done r) \<Rightarrow> Some r
         | Some (Next pc' a' x') \<Rightarrow> bpf_exec prog pkt n pc' a' x')
      else Some 0)"
  by pat_completeness auto
termination
  by (relation "measure (\<lambda>(prog, _, _, pc, _). length prog - pc)")
    (auto dest!: bpf_step_forward)

declare bpf_exec.simps [simp del]

lemma bpf_loop_exec:
  assumes "length prog \<le> 10000" "steps \<le> pc"
  shows "bpf_loop prog (length prog) pkt n steps pc a x = bpf_exec prog pkt n pc a x"
  using assms
proof (induction prog pkt n pc a x arbitrary: steps rule: bpf_exec.induct)
  case (1 prog pkt n pc a x)
  show ?case
  proof (cases "pc < length prog")
    case True
    show ?thesis
      using True "1.prems" "1.IH" [OF True] bpf_step_forward [of "prog ! pc" pkt n pc a x]
      by (subst bpf_loop.simps, subst bpf_exec.simps)
        (fastforce split: option.splits bpf_next.splits)
  qed (subst bpf_loop.simps, subst bpf_exec.simps, simp)
qed

lemma bpf_interp_run_exec:
  assumes "unat (fprog_len p) = length is" "fprog_filter p = Some is" "is \<noteq> []" "length is \<le> 10000"
  shows "bpf_interp_run (Some p) pkt n = bpf_exec is pkt n 0 0 0"
proof -
  have "fprog_len p \<noteq> 0" using assms(1,3) by (auto simp: unat_eq_0)
  then show ?thesis
    using assms by (simp add: bpf_interp_run_def bpf_loop_exec)
qed

subsection \<open>Loads inside 32 bits\<close>

text \<open>
  What a load yields when its offset does not wrap: the big-endian value of the bytes, or the end of
  the program if the packet is too short.
\<close>

definition pkt_byte :: "buf \<Rightarrow> u32 \<Rightarrow> nat \<Rightarrow> u32 option" where
  "pkt_byte pkt n off = (if off + 1 \<le> unat n then Some (ucast (pkt ! off)) else None)"

definition pkt_half :: "buf \<Rightarrow> u32 \<Rightarrow> nat \<Rightarrow> u32 option" where
  "pkt_half pkt n off =
     (if off + 2 \<le> unat n then Some (ucast (be16 (pkt ! off) (pkt ! (off + 1)))) else None)"

definition pkt_word :: "buf \<Rightarrow> u32 \<Rightarrow> nat \<Rightarrow> u32 option" where
  "pkt_word pkt n off =
     (if off + 4 \<le> unat n
      then Some (be32 (pkt ! off) (pkt ! (off + 1)) (pkt ! (off + 2)) (pkt ! (off + 3))) else None)"

lemma half_promoted: "push_bit 8 (ucast a) OR ucast b = (ucast (be16 a b) :: u32)" for a b :: u8
  unfolding be16_def by (rule bit_word_eqI) (auto simp: bit_simps dest: bit_imp_le_length)

lemma load_bytes_step:
  assumes "i < width" "unat off + width < 2 ^ 32" "unat off + width \<le> length pkt"
  shows "load_bytes pkt off i width v
    = load_bytes pkt off (Suc i) width (push_bit 8 v OR ucast (pkt ! (unat off + i)))"
proof -
  have "unat (off + of_nat i) = unat off + i"
    using assms(1,2) by (simp add: unat_word_ariths unat_of_nat)
  with assms show ?thesis
    by (subst load_bytes.simps) (simp add: mem_simps)
qed

lemma load_bytes_done: "load_bytes pkt off width width v = Some v"
  by (subst load_bytes.simps) simp

lemma load_guard:
  fixes off n :: u32
  assumes "unat off + w < 2 ^ 32"
  shows "off + of_nat w > n \<longleftrightarrow> \<not> unat off + w \<le> unat n"
proof -
  have "unat (off + of_nat w) = unat off + w"
    using assms by (simp add: unat_word_ariths unat_of_nat)
  then show ?thesis by (simp add: word_less_nat_alt not_le)
qed

lemma load_bytes_all:
  assumes "unat off + 4 < 2 ^ 32"
  shows "unat off + 1 \<le> length pkt \<Longrightarrow> load_bytes pkt off 0 (Suc 0) 0 = Some (ucast (pkt ! unat off))"
    and "unat off + 2 \<le> length pkt \<Longrightarrow>
      load_bytes pkt off 0 2 0 = Some (ucast (be16 (pkt ! unat off) (pkt ! (unat off + 1))))"
    and "unat off + 4 \<le> length pkt \<Longrightarrow>
      load_bytes pkt off 0 4 0 = Some (be32 (pkt ! unat off) (pkt ! (unat off + 1))
        (pkt ! (unat off + 2)) (pkt ! (unat off + 3)))"
proof -
  show "unat off + 1 \<le> length pkt \<Longrightarrow> load_bytes pkt off 0 (Suc 0) 0 = Some (ucast (pkt ! unat off))"
    using assms load_bytes_step [of 0 "Suc 0" off pkt 0] load_bytes_done [of pkt off "Suc 0"] by simp
  show "unat off + 2 \<le> length pkt \<Longrightarrow>
      load_bytes pkt off 0 2 0 = Some (ucast (be16 (pkt ! unat off) (pkt ! (unat off + 1))))"
    using assms load_bytes_step [of 0 2 off pkt 0] load_bytes_step [of 1 2 off pkt]
      load_bytes_done [of pkt off 2]
    by (simp add: half_promoted numeral_2_eq_2)
  show "unat off + 4 \<le> length pkt \<Longrightarrow>
      load_bytes pkt off 0 4 0 = Some (be32 (pkt ! unat off) (pkt ! (unat off + 1))
        (pkt ! (unat off + 2)) (pkt ! (unat off + 3)))"
    using assms load_bytes_step [of 0 4 off pkt 0] load_bytes_step [of "Suc 0" 4 off pkt]
      load_bytes_step [of 2 4 off pkt] load_bytes_step [of 3 4 off pkt] load_bytes_done [of pkt off 4]
    by (simp add: Suc_numeral)
      (simp add: numeral_2_eq_2 be32_def or.assoc)
qed

lemma load_u_inside:
  assumes "buf_ok pkt n" "unat off + 4 < 2 ^ 32"
  shows "load_u pkt n off (Suc 0) = Some (pkt_byte pkt n (unat off))"
    and "load_u pkt n off 2 = Some (pkt_half pkt n (unat off))"
    and "load_u pkt n off 4 = Some (pkt_word pkt n (unat off))"
  using assms load_guard [of off 1 n] load_guard [of off 2 n] load_guard [of off 4 n]
    load_bytes_all [OF assms(2), of pkt]
  by (auto simp: load_u_def pkt_byte_def pkt_half_def pkt_word_def buf_ok_def)

subsection \<open>The instructions the compiler emits\<close>

lemma bpf_exec_step:
  "pc < length P \<Longrightarrow> bpf_exec P pkt n pc a x =
    (case bpf_step (P ! pc) pkt n pc a x of
       None \<Rightarrow> None | Some (Done r) \<Rightarrow> Some r | Some (Next pc' a' x') \<Rightarrow> bpf_exec P pkt n pc' a' x')"
  by (subst bpf_exec.simps) simp

text \<open>A load that fails ends the run with 0; otherwise the run goes on with the loaded value.\<close>

definition loaded :: "u32 option \<Rightarrow> (u32 \<Rightarrow> u32 option) \<Rightarrow> u32 option" where
  "loaded v k = (case v of None \<Rightarrow> Some 0 | Some v \<Rightarrow> k v)"

lemma loaded_simps [simp]: "loaded None k = Some 0" "loaded (Some v) k = k v"
  by (simp_all add: loaded_def)

lemma bpf_exec_ld_abs:
  assumes "pc < length P" "buf_ok pkt n" "unat (bpf_k (P ! pc)) + 4 < 2 ^ 32"
  shows "bpf_code (P ! pc) = 0x20 \<Longrightarrow> bpf_exec P pkt n pc a x
      = loaded (pkt_word pkt n (unat (bpf_k (P ! pc)))) (\<lambda>v. bpf_exec P pkt n (pc + 1) v x)"
    and "bpf_code (P ! pc) = 0x28 \<Longrightarrow> bpf_exec P pkt n pc a x
      = loaded (pkt_half pkt n (unat (bpf_k (P ! pc)))) (\<lambda>v. bpf_exec P pkt n (pc + 1) v x)"
    and "bpf_code (P ! pc) = 0x30 \<Longrightarrow> bpf_exec P pkt n pc a x
      = loaded (pkt_byte pkt n (unat (bpf_k (P ! pc)))) (\<lambda>v. bpf_exec P pkt n (pc + 1) v x)"
  using load_u_inside [OF assms(2,3)]
  by (simp_all add: bpf_exec_step [OF assms(1)] bpf_step_def BPF_CLASS_def BPF_SIZE_def BPF_MODE_def
      loaded_def split: option.split)

lemma bpf_exec_ld_ind:
  assumes "pc < length P" "buf_ok pkt n" "unat (bpf_k (P ! pc) + x) + 4 < 2 ^ 32" "bpf_code (P ! pc) = 0x48"
  shows "bpf_exec P pkt n pc a x
    = loaded (pkt_half pkt n (unat (bpf_k (P ! pc) + x))) (\<lambda>v. bpf_exec P pkt n (pc + 1) v x)"
  using load_u_inside [OF assms(2,3)] assms(4)
  by (simp add: bpf_exec_step [OF assms(1)] bpf_step_def BPF_CLASS_def BPF_SIZE_def BPF_MODE_def
      loaded_def split: option.split)

lemma bpf_exec_ldx_msh:
  assumes "pc < length P" "buf_ok pkt n" "unat (bpf_k (P ! pc)) + 4 < 2 ^ 32" "bpf_code (P ! pc) = 0xb1"
  shows "bpf_exec P pkt n pc a x
    = loaded (pkt_byte pkt n (unat (bpf_k (P ! pc)))) (\<lambda>v. bpf_exec P pkt n (pc + 1) a ((v AND 0x0f) * 4))"
  using load_u_inside [OF assms(2,3)] assms(4)
  by (simp add: bpf_exec_step [OF assms(1)] bpf_step_def BPF_CLASS_def BPF_SIZE_def BPF_MODE_def
      loaded_def split: option.split)

lemma bpf_exec_and:
  "pc < length P \<Longrightarrow> bpf_code (P ! pc) = 0x54 \<Longrightarrow>
    bpf_exec P pkt n pc a x = bpf_exec P pkt n (pc + 1) (a AND bpf_k (P ! pc)) x"
  by (simp add: bpf_exec_step bpf_step_def BPF_CLASS_def BPF_OP_def)

lemma bpf_exec_jeq:
  "pc < length P \<Longrightarrow> bpf_code (P ! pc) = 0x15 \<Longrightarrow>
    bpf_exec P pkt n pc a x = bpf_exec P pkt n
      (pc + 1 + unat (if a = bpf_k (P ! pc) then bpf_jt (P ! pc) else bpf_jf (P ! pc))) a x"
  by (simp add: bpf_exec_step bpf_step_def BPF_CLASS_def BPF_OP_def)

lemma bpf_exec_ret:
  "pc < length P \<Longrightarrow> bpf_code (P ! pc) = 0x06 \<Longrightarrow> bpf_exec P pkt n pc a x = Some (bpf_k (P ! pc))"
  by (simp add: bpf_exec_step bpf_step_def BPF_CLASS_def)

subsection \<open>What the kernel demands of a program\<close>

text \<open>
  \<open>SO_ATTACH_FILTER\<close> refuses a program unless it has 1 to 4096 instructions with known opcodes, every
  jump stays inside the program, and the last instruction returns. The opcodes listed are the ones
  this compiler uses.
\<close>

definition known_opcodes :: "u16 set" where
  "known_opcodes = {0x20, 0x28, 0x30, 0x48, 0xb1, 0x54, 0x15, 0x06}"

definition bpf_attachable :: "sock_filter list \<Rightarrow> bool" where
  "bpf_attachable is \<longleftrightarrow> is \<noteq> [] \<and> length is \<le> 4096 \<and> bpf_code (last is) = 0x06
     \<and> (\<forall>i < length is. bpf_code (is ! i) \<in> known_opcodes
         \<and> (bpf_code (is ! i) = 0x15 \<longrightarrow> i + 1 + unat (bpf_jt (is ! i)) < length is
             \<and> i + 1 + unat (bpf_jf (is ! i)) < length is))"

end
