(* ===== verification/Filter_Common.thy ===== *)
theory Filter_Common
  imports C_Text
begin

text \<open>
  What the two filter languages (\<open>src/src/c/capfilter.c\<close> and \<open>src/src/c/dispfilter.c\<close>) have in
  common: the context with its token array, cursor and first-error buffer, and the word scanners the
  two lexers share. \<open>unsigned long\<close> has 64 bits, as on the platforms the program is built for.
\<close>

subsection \<open>The context\<close>

text \<open>
  \<open>cf_ctx_t\<close> and \<open>df_ctx_t\<close> differ only in their token type. \<open>toks\<close> holds the entries written so far,
  so \<open>n_toks\<close> is its length; the entries after them are still the zero bytes of the \<open>memset\<close>, and the
  array ends after 256 entries.
\<close>

record 't filter_ctx =
  toks :: "'t list"
  pos :: nat
  err :: "string option"
  err_len :: int
  failed :: bool

abbreviation CF_MAX_TOKENS :: nat where "CF_MAX_TOKENS \<equiv> 256"
abbreviation CF_MAX_NODES :: nat where "CF_MAX_NODES \<equiv> 256"

definition init_ctx :: "string option \<Rightarrow> int \<Rightarrow> 't filter_ctx" where
  "init_ctx err_buf len = \<lparr>toks = [], pos = 0, err = err_buf, err_len = len, failed = False\<rparr>"

definition cf_fail :: "string \<Rightarrow> 't filter_ctx \<Rightarrow> 't filter_ctx" where
  "cf_fail msg c =
     (if failed c then c
      else let c = c\<lparr>failed := True\<rparr> in
        if err c \<noteq> None \<and> err_len c > 0
        then c\<lparr>err := Some (snprintf (nat (err_len c)) msg)\<rparr> else c)"

text \<open>\<open>cf_failf\<close> has one \<open>%s\<close> in its format; \<open>before\<close> and \<open>after\<close> are the text around it.\<close>

definition cf_failf :: "string \<Rightarrow> string \<Rightarrow> string \<Rightarrow> 't filter_ctx \<Rightarrow> 't filter_ctx" where
  "cf_failf before after arg c = cf_fail (before @ arg @ after) c"

definition push_tok :: "'t \<Rightarrow> 't filter_ctx \<Rightarrow> 't filter_ctx" where
  "push_tok t c = c\<lparr>toks := toks c @ [t]\<rparr>"

text \<open>\<open>c->toks[c->n_toks].type = TOK_END\<close>, which has no bounds check of its own.\<close>

definition put_end :: "'t \<Rightarrow> 't filter_ctx \<Rightarrow> 't filter_ctx option" where
  "put_end t_end c = (if length (toks c) < CF_MAX_TOKENS then Some (push_tok t_end c) else None)"

subsection \<open>Scanning words\<close>

definition is_space :: "char \<Rightarrow> bool" where
  "is_space ch \<longleftrightarrow> ch = CHR '' '' \<or> ch = CHR 0x09 \<or> ch = CHR 0x0A \<or> ch = CHR 0x0D"

definition is_digit :: "char \<Rightarrow> bool" where
  "is_digit ch \<longleftrightarrow> of_char CHR ''0'' \<le> (of_char ch :: nat) \<and> (of_char ch :: nat) \<le> of_char CHR ''9''"

definition is_lower :: "char \<Rightarrow> bool" where
  "is_lower ch \<longleftrightarrow> of_char CHR ''a'' \<le> (of_char ch :: nat) \<and> (of_char ch :: nat) \<le> of_char CHR ''z''"

definition is_upper :: "char \<Rightarrow> bool" where
  "is_upper ch \<longleftrightarrow> of_char CHR ''A'' \<le> (of_char ch :: nat) \<and> (of_char ch :: nat) \<le> of_char CHR ''Z''"

definition digit_val :: "char \<Rightarrow> nat" where
  "digit_val ch = of_char ch - of_char CHR ''0''"

text \<open>
  The loop of \<open>parse_ipv4_word\<close>. The word carries its virtual trailing dot; \<open>out\<close> holds the octets
  stored so far, so \<open>octet\<close> is its length.
\<close>

fun ipv4_loop :: "string \<Rightarrow> buf \<Rightarrow> int \<Rightarrow> nat \<Rightarrow> buf option" where
  "ipv4_loop [] out value digits = (if length out = 4 then Some out else None)"
| "ipv4_loop (ch # word) out value digits =
     (if ch = CHR ''.'' then
        if digits = 0 \<or> value > 255 \<or> length out > 3 then None
        else ipv4_loop word (out @ [word_of_int value]) (-1) 0
      else if is_digit ch then
        let value = (if value < 0 then 0 else value) * 10 + int (digit_val ch) in
        if value > 255 then None else ipv4_loop word out value (digits + 1)
      else None)"

definition parse_ipv4_word :: "string \<Rightarrow> buf option" where
  "parse_ipv4_word word = ipv4_loop (word @ ''.'') [] (-1) 0"

text \<open>\<open>strtoul(s, NULL, 10)\<close> on a string that starts with a digit, saturating at \<open>ULONG_MAX\<close>.\<close>

definition dec_value :: "string \<Rightarrow> nat" where
  "dec_value ds = foldl (\<lambda>v ch. v * 10 + digit_val ch) 0 ds"

definition strtoul :: "string \<Rightarrow> nat" where
  "strtoul s = min (dec_value (takeWhile is_digit s)) 18446744073709551615"

subsection \<open>Errors\<close>

lemma cf_fail_simps [simp]:
  "failed (cf_fail msg c)" "toks (cf_fail msg c) = toks c" "pos (cf_fail msg c) = pos c"
  "err_len (cf_fail msg c) = err_len c"
  by (simp_all add: cf_fail_def Let_def)

lemma cf_failf_simps [simp]:
  "failed (cf_failf b a arg c)" "toks (cf_failf b a arg c) = toks c" "pos (cf_failf b a arg c) = pos c"
  by (simp_all add: cf_failf_def)

text \<open>The first error wins: a later failure changes nothing.\<close>

lemma cf_fail_first: "failed c \<Longrightarrow> cf_fail msg c = c"
  by (simp add: cf_fail_def)

lemma cf_fail_twice: "cf_fail msg' (cf_fail msg c) = cf_fail msg c"
  by (simp add: cf_fail_first)

lemma push_tok_simps [simp]:
  "toks (push_tok t c) = toks c @ [t]" "failed (push_tok t c) = failed c" "pos (push_tok t c) = pos c"
  by (simp_all add: push_tok_def)

text \<open>The error text never overruns the caller's buffer.\<close>

lemma cf_fail_err_bound:
  assumes "\<not> failed c" "err c \<noteq> None" "0 < err_len c" "err (cf_fail msg c) = Some m"
  shows "length m < nat (err_len c)"
  using assms by (auto simp: cf_fail_def Let_def snprintf_def min_def)

subsection \<open>Decimal text\<close>

lemma of_char_hex_digit: "n < 16 \<Longrightarrow> of_char (hex_digit n) = (if n < 10 then 48 + n else 87 + n :: nat)"
  by (simp add: hex_digit_def)

lemma hex_digit_digit [simp]: "n < 10 \<Longrightarrow> is_digit (hex_digit n)" "n < 10 \<Longrightarrow> digit_val (hex_digit n) = n"
  by (simp_all add: is_digit_def digit_val_def of_char_hex_digit)

lemma is_digit_not_dot: "is_digit ch \<Longrightarrow> ch \<noteq> CHR ''.''"
  by (auto simp: is_digit_def)

lemma fmt_u_digits: "\<forall>ch \<in> set (fmt_u n). is_digit ch"
proof (induction n rule: fmt_u.induct)
  case (1 n)
  then show ?case by (cases "n < 10") (auto simp: fmt_u.simps [of n])
qed

lemma fmt_u_nonempty [simp]: "fmt_u n \<noteq> []"
  by (subst fmt_u.simps) simp

lemma dec_value_snoc: "dec_value (ds @ [ch]) = dec_value ds * 10 + digit_val ch"
  by (simp add: dec_value_def)

lemma dec_value_fmt_u [simp]: "dec_value (fmt_u n) = n"
proof (induction n rule: fmt_u.induct)
  case (1 n)
  then show ?case
    by (cases "n < 10") (simp_all add: fmt_u.simps [of n] dec_value_snoc, simp add: dec_value_def)
qed

subsection \<open>Dotted quads\<close>

text \<open>An octet: one to many decimal digits with a value of at most 255.\<close>

definition octet_text :: "string \<Rightarrow> u8 \<Rightarrow> bool" where
  "octet_text ds b \<longleftrightarrow> ds \<noteq> [] \<and> (\<forall>ch \<in> set ds. is_digit ch) \<and> dec_value ds = unat b"

definition quad_text :: "string \<Rightarrow> buf \<Rightarrow> bool" where
  "quad_text w a \<longleftrightarrow> (\<exists>d0 d1 d2 d3 b0 b1 b2 b3.
     octet_text d0 b0 \<and> octet_text d1 b1 \<and> octet_text d2 b2 \<and> octet_text d3 b3
     \<and> w = d0 @ ''.'' @ d1 @ ''.'' @ d2 @ ''.'' @ d3 \<and> a = [b0, b1, b2, b3])"

lemma foldl_dec_ge: "v \<le> foldl (\<lambda>v ch. v * 10 + digit_val ch) v ds"
proof (induction ds arbitrary: v)
  case (Cons ch ds)
  have "v \<le> v * 10 + digit_val ch" by simp
  also have "\<dots> \<le> foldl (\<lambda>v ch. v * 10 + digit_val ch) (v * 10 + digit_val ch) ds" by (rule Cons.IH)
  finally show ?case by simp
qed simp

lemma ipv4_loop_digits:
  assumes "\<forall>ch \<in> set ds. is_digit ch"
  shows "ipv4_loop (ds @ w) out (int v) k =
    (let r = foldl (\<lambda>v ch. v * 10 + digit_val ch) v ds in
     if ds \<noteq> [] \<and> r > 255 then None else ipv4_loop w out (int r) (k + length ds))"
  using assms
proof (induction ds arbitrary: v k)
  case (Cons ch ds)
  let ?v = "v * 10 + digit_val ch"
  have ch: "ch \<noteq> CHR ''.''" "is_digit ch" using Cons.prems is_digit_not_dot by auto
  have step: "ipv4_loop (ch # ds @ w) out (int v) k
      = (if ?v > 255 then None else ipv4_loop (ds @ w) out (int ?v) (k + 1))"
    using ch by (simp add: Let_def)
  have "?v \<le> foldl (\<lambda>v ch. v * 10 + digit_val ch) ?v ds" by (rule foldl_dec_ge)
  moreover have "ipv4_loop (ds @ w) out (int ?v) (k + 1) =
      (let r = foldl (\<lambda>v ch. v * 10 + digit_val ch) ?v ds in
       if ds \<noteq> [] \<and> r > 255 then None else ipv4_loop w out (int r) (k + 1 + length ds))"
    by (rule Cons.IH) (use Cons.prems in simp)
  ultimately show ?case
    unfolding append_Cons step by (cases "ds = []") (simp_all add: Let_def)
qed (simp add: Let_def)

lemma ipv4_loop_start: "ipv4_loop (ch # w) out (-1) k = ipv4_loop (ch # w) out 0 k" if "is_digit ch"
  using that is_digit_not_dot by (auto simp: Let_def)

lemma ipv4_loop_octet:
  assumes "\<forall>ch \<in> set ds. is_digit ch" "\<not> is_digit ch"
  shows "ipv4_loop (ds @ ch # w) out (-1) 0 =
    (if ch = CHR ''.'' \<and> ds \<noteq> [] \<and> dec_value ds \<le> 255 \<and> length out \<le> 3
     then ipv4_loop w (out @ [of_nat (dec_value ds)]) (-1) 0 else None)"
proof (cases ds)
  case Nil
  with assms(2) show ?thesis by simp
next
  case (Cons c ds')
  with assms have "ipv4_loop (ds @ ch # w) out (-1) 0 = ipv4_loop (ds @ ch # w) out (int 0) 0"
    using ipv4_loop_start [of c] by simp
  also have "\<dots> = (if ch = CHR ''.'' \<and> dec_value ds \<le> 255 \<and> length out \<le> 3
      then ipv4_loop w (out @ [of_nat (dec_value ds)]) (-1) 0 else None)"
    using assms Cons by (subst ipv4_loop_digits) (auto simp: Let_def dec_value_def)
  finally show ?thesis using Cons by simp
qed

lemma dot_not_digit [simp]: "\<not> is_digit CHR ''.''"
  by (simp add: is_digit_def)

lemma octet_text_dec: "octet_text ds b \<Longrightarrow> dec_value ds \<le> 255 \<and> of_nat (dec_value ds) = b"
  using unat_u8_bound [of b] by (auto simp: octet_text_def)

lemma ipv4_loop_octet_text:
  "octet_text ds b \<Longrightarrow> length out \<le> 3 \<Longrightarrow>
    ipv4_loop (ds @ CHR ''.'' # w) out (-1) 0 = ipv4_loop w (out @ [b]) (-1) 0"
  using ipv4_loop_octet [of ds "CHR ''.''" w out] octet_text_dec [of ds b] by (simp add: octet_text_def)

lemma parse_ipv4_word_quad: "quad_text w a \<Longrightarrow> parse_ipv4_word w = Some a"
  by (auto simp: quad_text_def parse_ipv4_word_def ipv4_loop_octet_text)

text \<open>Conversely, every accepted word is a dotted quad; the words are cut at their dots.\<close>

lemma ipv4_loop_cut:
  assumes "ipv4_loop (w @ ''.'') out (-1) 0 = Some a"
  obtains (last) b where "octet_text w b" "out @ [b] = a" "length a = 4"
  | (more) ds b v where "octet_text ds b" "w = ds @ ''.'' @ v" "length out \<le> 3"
      "ipv4_loop (v @ ''.'') (out @ [b]) (-1) 0 = Some a"
proof -
  define ds where "ds = takeWhile is_digit w"
  have digits: "\<forall>ch \<in> set ds. is_digit ch" by (auto simp: ds_def dest: set_takeWhileD)
  have octet: "octet_text ds (of_nat (dec_value ds))" if "ds \<noteq> []" "dec_value ds \<le> 255"
    using that digits by (simp add: octet_text_def unat_of_nat)
  show thesis
  proof (cases "dropWhile is_digit w")
    case Nil
    then have "w = ds" by (metis ds_def append_Nil2 takeWhile_dropWhile_id)
    with assms digits octet show thesis
      using ipv4_loop_octet [of ds "CHR ''.''" "[]" out]
      by (intro last [of "of_nat (dec_value ds)"]) (auto split: if_splits)
  next
    case (Cons ch v)
    then have w: "w = ds @ ch # v" and "\<not> is_digit ch"
      by (metis ds_def takeWhile_dropWhile_id, metis hd_dropWhile list.sel(1) list.distinct(1))
    with assms digits octet show thesis
      using ipv4_loop_octet [of ds ch "v @ ''.''" out]
      by (intro more [of ds "of_nat (dec_value ds)" v]) (auto split: if_splits)
  qed
qed

lemma parse_ipv4_word_iff: "parse_ipv4_word w = Some a \<longleftrightarrow> quad_text w a"
proof
  assume "parse_ipv4_word w = Some a"
  then have 0: "ipv4_loop (w @ ''.'') [] (-1) 0 = Some a" by (simp add: parse_ipv4_word_def)
  obtain d0 b0 w1 where o0: "octet_text d0 b0" "w = d0 @ ''.'' @ w1"
    and 1: "ipv4_loop (w1 @ ''.'') [b0] (-1) 0 = Some a"
    by (rule ipv4_loop_cut [OF 0]) auto
  obtain d1 b1 w2 where o1: "octet_text d1 b1" "w1 = d1 @ ''.'' @ w2"
    and 2: "ipv4_loop (w2 @ ''.'') [b0, b1] (-1) 0 = Some a"
    by (rule ipv4_loop_cut [OF 1]) auto
  obtain d2 b2 w3 where o2: "octet_text d2 b2" "w2 = d2 @ ''.'' @ w3"
    and 3: "ipv4_loop (w3 @ ''.'') [b0, b1, b2] (-1) 0 = Some a"
    by (rule ipv4_loop_cut [OF 2]) auto
  obtain b3 where o3: "octet_text w3 b3" "a = [b0, b1, b2, b3]"
  proof (rule ipv4_loop_cut [OF 3])
    fix ds b v assume "ipv4_loop (v @ ''.'') ([b0, b1, b2] @ [b]) (-1) 0 = Some a"
    then have False by (rule ipv4_loop_cut) auto
    then show thesis ..
  qed auto
  show "quad_text w a"
    unfolding quad_text_def using o0 o1 o2 o3 by auto
qed (rule parse_ipv4_word_quad)

text \<open>The text \<open>%u.%u.%u.%u\<close> produces is read back.\<close>

lemma octet_text_fmt_u: "octet_text (fmt_u (unat b)) b"
  using fmt_u_digits by (simp add: octet_text_def)

lemma parse_ipv4_word_fmt:
  "parse_ipv4_word (fmt_u (unat a) @ ''.'' @ fmt_u (unat b) @ ''.'' @ fmt_u (unat c) @ ''.'' @ fmt_u (unat d))
    = Some [a, b, c, d]"
  unfolding parse_ipv4_word_iff quad_text_def using octet_text_fmt_u by blast

end
