(* ===== verification/Lexer.thy ===== *)
theory Lexer
  imports Filter_Common
begin

text \<open>
  What the lexers of the two filter languages have in common. A lexer reads blanks and words; the
  locale \<open>lexer\<close> takes the relation between words and tokens and the lexer's behaviour on one blank,
  one word and the end of the text, and shows that the tokens it stores are spelled by the text, that
  words separated by blanks are read as the tokens they spell, and which texts make it store the end
  token outside the token array.
\<close>

subsection \<open>Spelling of token lists\<close>

inductive spells :: "(string \<Rightarrow> 't \<Rightarrow> bool) \<Rightarrow> string \<Rightarrow> 't list \<Rightarrow> bool" for word where
  nothing: "spells word [] []"
| space: "is_space ch \<Longrightarrow> spells word s ts \<Longrightarrow> spells word (ch # s) ts"
| token: "word w t \<Longrightarrow> spells word s ts \<Longrightarrow> spells word (w @ s) (t # ts)"

lemma spells_all: "spells word s ts \<Longrightarrow> (\<And>w t. word w t \<Longrightarrow> P t) \<Longrightarrow> t \<in> set ts \<Longrightarrow> P t"
  by (induction rule: spells.induct) auto

lemma spells_length:
  assumes "spells word s ts" "\<And>w t. word w t \<Longrightarrow> w \<noteq> []"
  shows "length ts \<le> length s"
  using assms(1)
proof (induction rule: spells.induct)
  case (token w t s ts)
  with assms(2) [OF token(1)] show ?case by (cases w) auto
qed auto

text \<open>Words, each followed by a blank.\<close>

definition spaced :: "string list \<Rightarrow> string" where
  "spaced ws = concat (map (\<lambda>w. w @ '' '') ws)"

lemma takeWhile_upto_space:
  assumes "\<forall>ch \<in> set w. P ch" "\<not> P CHR '' ''"
  shows "takeWhile P (w @ CHR '' '' # s) = w" "dropWhile P (w @ CHR '' '' # s) = CHR '' '' # s"
  using assms by (induction w) auto

lemma is_space_blank [simp]: "is_space CHR '' ''"
  by (simp add: is_space_def)

subsection \<open>The contract\<close>

locale lexer =
  fixes lex :: "'t filter_ctx \<Rightarrow> string \<Rightarrow> 't filter_ctx option"
    and word :: "string \<Rightarrow> 't \<Rightarrow> bool"
    and end_tok :: 't
  assumes at_end: "lex c [] = put_end end_tok c"
    and on_blank: "lex c (CHR '' '' # s) = lex c s"
    and on_word: "word w t \<Longrightarrow> length (toks c) < CF_MAX_TOKENS \<Longrightarrow>
      lex c (w @ CHR '' '' # s) = lex (push_tok t c) (CHR '' '' # s)"
    and word_nonempty: "word w t \<Longrightarrow> w \<noteq> []"
    and step: "(\<exists>c'. lex c (ch # expr) = Some c' \<and> failed c')
      \<or> is_space ch \<and> lex c (ch # expr) = lex c expr
      \<or> (\<exists>w t s. word w t \<and> ch # expr = w @ s \<and> length (toks c) < CF_MAX_TOKENS
          \<and> lex c (ch # expr) = lex (push_tok t c) s)"
begin

text \<open>Induction over the words of a text.\<close>

lemma by_words:
  assumes "\<And>c. P c []"
    and "\<And>c c' s. lex c s = Some c' \<Longrightarrow> failed c' \<Longrightarrow> P c s"
    and "\<And>c ch s. is_space ch \<Longrightarrow> lex c (ch # s) = lex c s \<Longrightarrow> P c s \<Longrightarrow> P c (ch # s)"
    and "\<And>c w t s. word w t \<Longrightarrow> length (toks c) < CF_MAX_TOKENS \<Longrightarrow> lex c (w @ s) = lex (push_tok t c) s \<Longrightarrow>
      P (push_tok t c) s \<Longrightarrow> P c (w @ s)"
  shows "P c s"
proof (induction s arbitrary: c rule: length_induct)
  case (1 s)
  show ?case
  proof (cases s)
    case Nil
    then show ?thesis using assms(1) by simp
  next
    case (Cons ch expr)
    consider c' where "lex c s = Some c'" "failed c'" | "is_space ch" "lex c s = lex c expr"
      | w t s' where "word w t" "s = w @ s'" "length (toks c) < CF_MAX_TOKENS" "lex c s = lex (push_tok t c) s'"
      using step [of c ch expr] unfolding Cons by blast
    then show ?thesis
    proof cases
      case 1
      then show ?thesis by (rule assms(2))
    next
      case 2
      with "1.IH" Cons show ?thesis by (auto intro: assms(3))
    next
      case 3
      then have "length s' < length s" using word_nonempty by simp
      with 3 "1.IH" show ?thesis by (auto intro: assms(4))
    qed
  qed
qed

lemma sound:
  "lex c s = Some c' \<Longrightarrow> \<not> failed c' \<Longrightarrow> \<exists>ts. toks c' = toks c @ ts @ [end_tok] \<and> spells word s ts
    \<and> c' = c\<lparr>toks := toks c'\<rparr> \<and> length (toks c') \<le> CF_MAX_TOKENS"
proof (induction c s rule: by_words)
  case (1 c)
  then show ?case by (auto simp: at_end put_end_def push_tok_def spells.intros split: if_splits)
next
  case (3 c ch s)
  then show ?case by (auto intro: spells.space)
next
  case (4 c w t s)
  then obtain ts where "toks c' = toks (push_tok t c) @ ts @ [end_tok]" "spells word s ts"
    "c' = (push_tok t c)\<lparr>toks := toks c'\<rparr>" "length (toks c') \<le> CF_MAX_TOKENS" by auto
  with 4(1) show ?case
    by (intro exI [of _ "t # ts"]) (auto intro: spells.token simp: push_tok_def)
qed simp

lemma undefined_only_when_full:
  "lex c s = None \<Longrightarrow> length (toks c) \<le> CF_MAX_TOKENS \<Longrightarrow>
    \<exists>ts. spells word s ts \<and> length (toks c) + length ts = CF_MAX_TOKENS"
proof (induction c s rule: by_words)
  case (1 c)
  then show ?case by (auto simp: at_end put_end_def intro: spells.nothing split: if_splits)
next
  case (3 c ch s)
  then show ?case by (auto intro: spells.space)
next
  case (4 c w t s)
  then obtain ts where "spells word s ts" "length (toks (push_tok t c)) + length ts = CF_MAX_TOKENS" by auto
  with 4(1) show ?case by (intro exI [of _ "t # ts"]) (auto intro: spells.token)
qed simp

lemma reads_spaced:
  "list_all2 word ws ts \<Longrightarrow> length (toks c) + length ts \<le> CF_MAX_TOKENS \<Longrightarrow>
    lex c (spaced ws) = put_end end_tok (c\<lparr>toks := toks c @ ts\<rparr>)"
proof (induction ws ts arbitrary: c rule: list_all2_induct)
  case Nil
  then show ?case by (simp add: spaced_def at_end)
next
  case (Cons w ws t ts)
  have "lex c (spaced (w # ws)) = lex (push_tok t c) (spaced ws)"
    using on_word [OF Cons(1), of c "spaced ws"] on_blank Cons.prems by (simp add: spaced_def)
  with Cons show ?case by (simp add: push_tok_def)
qed

text \<open>Lexing from an empty context, as both compilers do.\<close>

lemma from_start:
  assumes "lex (init_ctx eb el) s = Some c" "\<not> failed c"
  obtains ts where "toks c = ts @ [end_tok]" "pos c = 0" "spells word s ts" "length ts < CF_MAX_TOKENS"
proof -
  obtain ts where ts: "toks c = ts @ [end_tok]" "spells word s ts" "c = (init_ctx eb el)\<lparr>toks := toks c\<rparr>"
    "length (toks c) \<le> CF_MAX_TOKENS"
    using sound [OF assms] by (auto simp: init_ctx_def)
  have "pos c = 0" by (subst ts(3)) (simp add: init_ctx_def)
  with ts show thesis by (intro that) auto
qed

lemma spaced_from_start:
  assumes "list_all2 word ws ts" "length ts < CF_MAX_TOKENS"
  obtains c where "lex (init_ctx eb el) (spaced ws) = Some c" "\<not> failed c" "toks c = ts @ [end_tok]" "pos c = 0"
  using reads_spaced [OF assms(1), of "init_ctx eb el"] assms(2)
  by (intro that [of "push_tok end_tok ((init_ctx eb el)\<lparr>toks := ts\<rparr>)"])
    (simp_all add: init_ctx_def put_end_def)

lemma spaced_overflow:
  "list_all2 word ws ts \<Longrightarrow> length ts = CF_MAX_TOKENS \<Longrightarrow> lex (init_ctx eb el) (spaced ws) = None"
  using reads_spaced [of ws ts "init_ctx eb el"] by (simp add: init_ctx_def put_end_def)

end

end
