(* ===== verification/Capfilter_Lexer.thy ===== *)
theory Capfilter_Lexer
  imports Lexer
begin

text \<open>
  The lexer of \<open>src/src/c/capfilter.c\<close>: tokens, keywords and \<open>cf_lex\<close>. The position \<open>i\<close> in the
  expression is the list of the characters from there on. \<open>cf_lex\<close> returns \<open>None\<close> when it writes
  outside the token array.
\<close>

subsection \<open>Tokens\<close>

datatype token_type_t = TOK_END | TOK_LPAREN | TOK_RPAREN | TOK_SLASH | TOK_AND | TOK_OR | TOK_NOT
  | TOK_SRC | TOK_DST | TOK_HOST | TOK_PORT | TOK_NET | TOK_PROTO_TCP | TOK_PROTO_UDP
  | TOK_PROTO_ICMP | TOK_PROTO_IP | TOK_PROTO_IP6 | TOK_PROTO_ARP | TOK_NUMBER | TOK_IPV4

record token_t =
  tok_type :: token_type_t
  tok_num :: u32
  tok_addr :: buf

type_synonym cf_ctx_t = "token_t filter_ctx"

definition zero_tok :: token_t where
  "zero_tok = \<lparr>tok_type = TOK_END, tok_num = 0, tok_addr = [0, 0, 0, 0]\<rparr>"

definition tok :: "token_type_t \<Rightarrow> token_t" where
  "tok ty = zero_tok\<lparr>tok_type := ty\<rparr>"

definition number_tok :: "u32 \<Rightarrow> token_t" where
  "number_tok v = zero_tok\<lparr>tok_type := TOK_NUMBER, tok_num := v\<rparr>"

definition ipv4_tok :: "buf \<Rightarrow> token_t" where
  "ipv4_tok a = zero_tok\<lparr>tok_type := TOK_IPV4, tok_addr := a\<rparr>"

definition KEYWORDS :: "(string \<times> token_type_t) list" where
  "KEYWORDS =
     [(''and'', TOK_AND), (''or'', TOK_OR), (''not'', TOK_NOT), (''src'', TOK_SRC),
      (''dst'', TOK_DST), (''host'', TOK_HOST), (''port'', TOK_PORT), (''net'', TOK_NET),
      (''tcp'', TOK_PROTO_TCP), (''udp'', TOK_PROTO_UDP), (''icmp'', TOK_PROTO_ICMP),
      (''ip'', TOK_PROTO_IP), (''ip6'', TOK_PROTO_IP6), (''arp'', TOK_PROTO_ARP)]"

subsection \<open>The lexer\<close>

definition num_char :: "char \<Rightarrow> bool" where
  "num_char ch \<longleftrightarrow> is_digit ch \<or> ch = CHR ''.''"

definition alpha_char :: "char \<Rightarrow> bool" where
  "alpha_char ch \<longleftrightarrow> is_lower ch \<or> is_upper ch"

definition word_char :: "char \<Rightarrow> bool" where
  "word_char ch \<longleftrightarrow> is_lower ch \<or> is_upper ch \<or> is_digit ch \<or> ch = CHR ''_''"

definition next_is :: "char \<Rightarrow> string \<Rightarrow> bool" where
  "next_is ch s \<longleftrightarrow> (case s of [] \<Rightarrow> False | c # _ \<Rightarrow> c = ch)"

function cf_lex :: "cf_ctx_t \<Rightarrow> string \<Rightarrow> cf_ctx_t option" where
  "cf_lex c [] = put_end (tok TOK_END) c"
| "cf_lex c (ch # expr) =
     (if is_space ch then cf_lex c expr
      else if length (toks c) \<ge> CF_MAX_TOKENS then
        Some (cf_fail ''filter expression has too many tokens'' c)
      else if ch = CHR ''('' then cf_lex (push_tok (tok TOK_LPAREN) c) expr
      else if ch = CHR '')'' then cf_lex (push_tok (tok TOK_RPAREN) c) expr
      else if ch = CHR ''/'' then cf_lex (push_tok (tok TOK_SLASH) c) expr
      else if ch = CHR ''!'' then cf_lex (push_tok (tok TOK_NOT) c) expr
      else if ch = CHR ''&'' \<and> next_is CHR ''&'' expr then
        cf_lex (push_tok (tok TOK_AND) c) (tl expr)
      else if ch = CHR ''|'' \<and> next_is CHR ''|'' expr then
        cf_lex (push_tok (tok TOK_OR) c) (tl expr)
      else if is_digit ch then
        let word = takeWhile num_char (ch # expr); after = dropWhile num_char expr in
        (case parse_ipv4_word word of
           Some addr \<Rightarrow> cf_lex (push_tok (ipv4_tok addr) c) after
         | None \<Rightarrow>
             if CHR ''.'' \<in> set word then Some (cf_fail ''invalid IPv4 address'' c)
             else
               let v = strtoul (ch # expr) in
               if v > 0xFFFFFFFF then Some (cf_fail ''number out of range'' c)
               else cf_lex (push_tok (number_tok (of_nat v)) c) after)
      else if alpha_char ch then
        let word = takeWhile word_char (ch # expr); after = dropWhile word_char expr in
        (case map_of KEYWORDS word of
           Some ty \<Rightarrow> cf_lex (push_tok (tok ty) c) after
         | None \<Rightarrow>
             Some (cf_failf (''unknown keyword '' @ [CHR 0x27]) [CHR 0x27] (take 63 word) c))
      else Some (cf_fail ''unexpected character in filter expression'' c))"
  by pat_completeness auto
termination
  by (relation "measure (length \<circ> snd)")
    (auto simp: length_dropWhile_le less_Suc_eq_le next_is_def split: list.splits
      intro: le_trans [OF length_dropWhile_le])

declare cf_lex.simps [simp del]

subsection \<open>Spelling of tokens\<close>

text \<open>How a token may be written, and how a text spells a token list.\<close>

inductive tok_text :: "string \<Rightarrow> token_t \<Rightarrow> bool" where
  keyword: "map_of KEYWORDS w = Some ty \<Longrightarrow> tok_text w (tok ty)"
| lparen: "tok_text ''('' (tok TOK_LPAREN)"
| rparen: "tok_text '')'' (tok TOK_RPAREN)"
| slash: "tok_text ''/'' (tok TOK_SLASH)"
| bang: "tok_text ''!'' (tok TOK_NOT)"
| amp_amp: "tok_text ''&&'' (tok TOK_AND)"
| bar_bar: "tok_text ''||'' (tok TOK_OR)"
| number: "w \<noteq> [] \<Longrightarrow> \<forall>ch \<in> set w. is_digit ch \<Longrightarrow> dec_value w = unat v \<Longrightarrow> tok_text w (number_tok v)"
| ipv4: "quad_text w a \<Longrightarrow> tok_text w (ipv4_tok a)"

lemma char_class_disjoint:
  "is_digit ch \<Longrightarrow> \<not> is_space ch \<and> ch \<notin> {CHR ''('', CHR '')'', CHR ''/'', CHR ''!'', CHR ''&'', CHR ''|''}"
  "alpha_char ch \<Longrightarrow> \<not> is_space ch \<and> \<not> is_digit ch
    \<and> ch \<notin> {CHR ''('', CHR '')'', CHR ''/'', CHR ''!'', CHR ''&'', CHR ''|''}"
  by (auto simp: is_digit_def is_space_def alpha_char_def is_lower_def is_upper_def)

lemma alpha_word_char: "alpha_char ch \<Longrightarrow> word_char ch"
  by (auto simp: alpha_char_def word_char_def)

lemma digit_num_char: "is_digit ch \<Longrightarrow> num_char ch"
  by (simp add: num_char_def)

lemma keyword_shape:
  assumes "map_of KEYWORDS w = Some ty"
  shows "w \<noteq> [] \<and> alpha_char (hd w) \<and> (\<forall>ch \<in> set w. word_char ch) \<and> ty \<noteq> TOK_END \<and> ty \<noteq> TOK_NUMBER \<and> ty \<noteq> TOK_IPV4"
proof -
  have "\<forall>(w, ty) \<in> set KEYWORDS. w \<noteq> [] \<and> alpha_char (hd w) \<and> (\<forall>ch \<in> set w. word_char ch)
      \<and> ty \<noteq> TOK_END \<and> ty \<noteq> TOK_NUMBER \<and> ty \<noteq> TOK_IPV4"
    by code_simp
  with map_of_SomeD [OF assms] show ?thesis by blast
qed

lemma tok_text_nonempty: "tok_text w t \<Longrightarrow> w \<noteq> []"
  using keyword_shape by (auto elim!: tok_text.cases simp: quad_text_def)

lemma tok_text_not_end: "tok_text w t \<Longrightarrow> tok_type t \<noteq> TOK_END"
  by (induction rule: tok_text.induct)
    (auto simp: tok_def number_tok_def ipv4_tok_def dest: keyword_shape)

text \<open>A word of digits alone is no address: it has no dot.\<close>

lemma digits_no_quad: "\<forall>ch \<in> set w. is_digit ch \<Longrightarrow> parse_ipv4_word w = None"
proof (rule ccontr)
  assume *: "\<forall>ch \<in> set w. is_digit ch" "parse_ipv4_word w \<noteq> None"
  then obtain a where "quad_text w a" by (auto simp: parse_ipv4_word_iff)
  then have "CHR ''.'' \<in> set w" by (auto simp: quad_text_def)
  with * show False by auto
qed

lemma takeWhile_digits_word:
  assumes "CHR ''.'' \<notin> set (takeWhile num_char s)"
  shows "takeWhile is_digit s = takeWhile num_char s"
  using assms by (induction s) (auto simp: num_char_def split: if_splits)

subsection \<open>One step of the lexer\<close>

lemma cf_lex_number_word:
  assumes "is_digit ch" "parse_ipv4_word (takeWhile num_char (ch # expr)) = None"
    and "CHR ''.'' \<notin> set (takeWhile num_char (ch # expr))" "strtoul (ch # expr) \<le> 0xFFFFFFFF"
  shows "tok_text (takeWhile num_char (ch # expr)) (number_tok (of_nat (strtoul (ch # expr))))"
proof (rule tok_text.number)
  let ?w = "takeWhile num_char (ch # expr)"
  have w: "takeWhile is_digit (ch # expr) = ?w" by (rule takeWhile_digits_word [OF assms(3)])
  show "?w \<noteq> []" using assms(1) by (simp add: digit_num_char)
  show "\<forall>c \<in> set ?w. is_digit c" unfolding w [symmetric] by (auto dest: set_takeWhileD)
  have "strtoul (ch # expr) = dec_value ?w"
    using assms(4) unfolding strtoul_def w by (auto simp: min_def split: if_splits)
  with assms(4) show "dec_value ?w = unat (of_nat (strtoul (ch # expr)) :: u32)"
    by (simp add: unat_of_nat)
qed

text \<open>
  A call either fails, or skips a blank, or reads one token and goes on with the rest of the text.
\<close>

lemma cf_lex_symbols:
  assumes "length (toks c) < 256"
  shows "cf_lex c (CHR ''('' # s) = cf_lex (push_tok (tok TOK_LPAREN) c) s"
    and "cf_lex c (CHR '')'' # s) = cf_lex (push_tok (tok TOK_RPAREN) c) s"
    and "cf_lex c (CHR ''/'' # s) = cf_lex (push_tok (tok TOK_SLASH) c) s"
    and "cf_lex c (CHR ''!'' # s) = cf_lex (push_tok (tok TOK_NOT) c) s"
    and "cf_lex c (CHR ''&'' # CHR ''&'' # s) = cf_lex (push_tok (tok TOK_AND) c) s"
    and "cf_lex c (CHR ''|'' # CHR ''|'' # s) = cf_lex (push_tok (tok TOK_OR) c) s"
  using assms by (subst cf_lex.simps, simp add: is_space_def next_is_def)+

lemma cf_lex_digit:
  assumes "is_digit ch" "length (toks c) < 256"
  shows "cf_lex c (ch # expr) =
    (let word = takeWhile num_char (ch # expr); after = dropWhile num_char expr in
     case parse_ipv4_word word of
       Some addr \<Rightarrow> cf_lex (push_tok (ipv4_tok addr) c) after
     | None \<Rightarrow>
         if CHR ''.'' \<in> set word then Some (cf_fail ''invalid IPv4 address'' c)
         else if strtoul (ch # expr) > 0xFFFFFFFF then Some (cf_fail ''number out of range'' c)
         else cf_lex (push_tok (number_tok (of_nat (strtoul (ch # expr)))) c) after)"
  using char_class_disjoint(1) [OF assms(1)] assms
  by (subst cf_lex.simps) (auto simp: Let_def split: option.split)

lemma cf_lex_alpha:
  assumes "alpha_char ch" "length (toks c) < 256"
  shows "cf_lex c (ch # expr) =
    (let word = takeWhile word_char (ch # expr); after = dropWhile word_char expr in
     case map_of KEYWORDS word of
       Some ty \<Rightarrow> cf_lex (push_tok (tok ty) c) after
     | None \<Rightarrow> Some (cf_failf (''unknown keyword '' @ [CHR 0x27]) [CHR 0x27] (take 63 word) c))"
  using char_class_disjoint(2) [OF assms(1)] assms
  by (subst cf_lex.simps) (auto simp: Let_def split: option.split)

lemma cf_lex_stuck:
  assumes "\<not> is_space ch" "256 \<le> length (toks c) \<or> \<not> is_digit ch \<and> \<not> alpha_char ch
      \<and> ch \<notin> {CHR ''('', CHR '')'', CHR ''/'', CHR ''!''}
      \<and> \<not> (ch = CHR ''&'' \<and> next_is CHR ''&'' expr) \<and> \<not> (ch = CHR ''|'' \<and> next_is CHR ''|'' expr)"
  shows "\<exists>msg. cf_lex c (ch # expr) = Some (cf_fail msg c)"
proof (cases "256 \<le> length (toks c)")
  case True
  with assms(1) have "cf_lex c (ch # expr) = Some (cf_fail ''filter expression has too many tokens'' c)"
    by (simp add: cf_lex.simps)
  then show ?thesis by blast
next
  case False
  with assms have "cf_lex c (ch # expr) = Some (cf_fail ''unexpected character in filter expression'' c)"
    by (subst cf_lex.simps) (simp, blast)
  then show ?thesis by blast
qed

lemma cf_lex_step_digit:
  assumes "is_digit ch" "length (toks c) < 256" "cf_lex c (ch # expr) = r"
  obtains (fail) c' where "r = Some c'" "failed c'"
  | (tok) w t s where "tok_text w t" "ch # expr = w @ s" "length (toks c) < 256"
      "r = cf_lex (push_tok t c) s"
proof -
  define wd where "wd = takeWhile num_char (ch # expr)"
  define after where "after = dropWhile num_char expr"
  have w: "ch # expr = wd @ after" using assms(1) by (simp add: wd_def after_def digit_num_char)
  note step = cf_lex_digit [OF assms(1,2), of expr, unfolded assms(3) Let_def, folded wd_def after_def]
  note number = cf_lex_number_word [OF assms(1), of expr, folded wd_def]
  show thesis
  proof (cases "parse_ipv4_word wd")
    case None
    show thesis
    proof (cases "CHR ''.'' \<in> set wd \<or> strtoul (ch # expr) > 0xFFFFFFFF")
      case True
      with None step have "\<exists>msg. r = Some (cf_fail msg c)" by auto
      then show thesis using that(1) cf_fail_simps(1) by blast
    next
      case False
      with None step show thesis by (intro that(2) [OF number w assms(2)]) auto
    qed
  next
    case (Some a)
    then have "quad_text wd a" by (simp only: parse_ipv4_word_iff)
    with Some step show thesis by (intro that(2) [OF tok_text.ipv4 w assms(2)]) auto
  qed
qed

lemma cf_lex_step_alpha:
  assumes "alpha_char ch" "length (toks c) < 256" "cf_lex c (ch # expr) = r"
  obtains (fail) c' where "r = Some c'" "failed c'"
  | (tok) w t s where "tok_text w t" "ch # expr = w @ s" "length (toks c) < 256"
      "r = cf_lex (push_tok t c) s"
proof -
  define wd where "wd = takeWhile word_char (ch # expr)"
  define after where "after = dropWhile word_char expr"
  have w: "ch # expr = wd @ after" using assms(1) by (simp add: wd_def after_def alpha_word_char)
  note step = cf_lex_alpha [OF assms(1,2), of expr, unfolded assms(3) Let_def, folded wd_def after_def]
  show thesis
  proof (cases "map_of KEYWORDS wd")
    case None
    with step show thesis using that(1) cf_failf_simps(1) by simp
  next
    case (Some ty)
    with step show thesis by (intro that(2) [OF tok_text.keyword w assms(2)]) auto
  qed
qed

lemma cf_lex_step:
  assumes "cf_lex c (ch # expr) = r"
  obtains (fail) c' where "r = Some c'" "failed c'"
  | (blank) "is_space ch" "r = cf_lex c expr"
  | (tok) w t s where "tok_text w t" "ch # expr = w @ s" "length (toks c) < 256"
      "r = cf_lex (push_tok t c) s"
proof -
  consider (blank) "is_space ch" | (stuck) msg where "cf_lex c (ch # expr) = Some (cf_fail msg c)"
    | (sym) "length (toks c) < 256" "ch \<in> {CHR ''('', CHR '')'', CHR ''/'', CHR ''!''}"
    | (two) "length (toks c) < 256" "ch = CHR ''&'' \<and> next_is CHR ''&'' expr \<or> ch = CHR ''|'' \<and> next_is CHR ''|'' expr"
    | (digit) "length (toks c) < 256" "is_digit ch" | (alpha) "length (toks c) < 256" "alpha_char ch"
    using cf_lex_stuck [of ch c expr] not_less by blast
  then show thesis
  proof cases
    case blank
    then show thesis using assms by (intro that(2)) (simp_all add: cf_lex.simps)
  next
    case stuck
    then show thesis using assms by (intro that(1)) auto
  next
    case sym
    then show thesis
      using assms cf_lex_symbols(1-4) [OF sym(1)] that(3) [OF tok_text.lparen, of expr]
        that(3) [OF tok_text.rparen, of expr] that(3) [OF tok_text.slash, of expr] that(3) [OF tok_text.bang, of expr]
      by auto
  next
    case two
    then obtain d s where "expr = d # s" by (cases expr) (auto simp: next_is_def)
    with two show thesis
      using assms cf_lex_symbols(5,6) [OF two(1)] that(3) [OF tok_text.amp_amp, of s]
        that(3) [OF tok_text.bar_bar, of s]
      by (auto simp: next_is_def)
  next
    case digit
    show thesis by (rule cf_lex_step_digit [OF digit(2,1) assms]) (use that(1,3) in blast)+
  next
    case alpha
    show thesis by (rule cf_lex_step_alpha [OF alpha(2,1) assms]) (use that(1,3) in blast)+
  qed
qed

subsection \<open>The lexer meets its contract\<close>

lemma blank_classes: "\<not> num_char CHR '' ''" "\<not> word_char CHR '' ''" "\<not> is_digit CHR '' ''" "is_space CHR '' ''"
  by (simp_all add: num_char_def word_char_def is_digit_def is_lower_def is_upper_def is_space_def)

lemma quad_text_chars: "quad_text w a \<Longrightarrow> w \<noteq> [] \<and> is_digit (hd w) \<and> (\<forall>ch \<in> set w. num_char ch)"
  by (auto simp: quad_text_def octet_text_def num_char_def hd_append)

lemma cf_lex_word:
  assumes "tok_text w t" "length (toks c) < 256"
  shows "cf_lex c (w @ CHR '' '' # s) = cf_lex (push_tok t c) (CHR '' '' # s)"
  using assms(1)
proof cases
  case (keyword ty)
  note shape = keyword_shape [OF keyword(2)]
  then obtain ch w' where w: "w = ch # w'" by (cases w) auto
  have "alpha_char ch" "\<forall>c \<in> set w. word_char c" "\<forall>c \<in> set w'. word_char c" "word_char ch"
    using shape w by auto
  with w keyword assms(2) takeWhile_upto_space [of w word_char s] takeWhile_upto_space(2) [of w' word_char s]
  show ?thesis by (simp add: cf_lex_alpha blank_classes)
next
  case (number v)
  then obtain ch w' where w: "w = ch # w'" by (cases w) auto
  have num: "\<forall>c \<in> set w. num_char c" using number digit_num_char by blast
  then have tw: "takeWhile num_char (w @ CHR '' '' # s) = w" "dropWhile num_char (w' @ CHR '' '' # s) = CHR '' '' # s"
    using w takeWhile_upto_space [of w num_char s] takeWhile_upto_space(2) [of w' num_char s]
    by (simp_all add: blank_classes)
  have "strtoul (w @ CHR '' '' # s) = unat v"
    using number takeWhile_upto_space [of w is_digit s] unat_u32_bound [of v]
    by (simp add: strtoul_def blank_classes)
  moreover have "CHR ''.'' \<notin> set w" using number(3) dot_not_digit by blast
  moreover have "is_digit ch" "unat v \<le> 4294967295" using number(3) w unat_u32_bound [of v] by simp_all
  ultimately show ?thesis
    using cf_lex_digit [of ch c "w' @ CHR '' '' # s"] assms(2) tw digits_no_quad [OF number(3)] number(1) w
    by simp
next
  case (ipv4 a)
  then obtain ch w' where w: "w = ch # w'" using quad_text_chars by (cases w) auto
  have "is_digit ch" "\<forall>c \<in> set w. num_char c" using quad_text_chars [OF ipv4(2)] w by auto
  then have tw: "takeWhile num_char (w @ CHR '' '' # s) = w" "dropWhile num_char (w' @ CHR '' '' # s) = CHR '' '' # s"
    using w takeWhile_upto_space [of w num_char s] takeWhile_upto_space(2) [of w' num_char s]
    by (simp_all add: blank_classes)
  with cf_lex_digit [of ch c "w' @ CHR '' '' # s"] \<open>is_digit ch\<close> assms(2) ipv4 w
  show ?thesis by (simp add: parse_ipv4_word_iff [THEN iffD2])
qed (use assms(2) in \<open>simp_all add: cf_lex_symbols\<close>)

interpretation cf_lexer: lexer cf_lex tok_text "tok TOK_END"
proof
  fix c :: cf_ctx_t and ch expr
  show "(\<exists>c'. cf_lex c (ch # expr) = Some c' \<and> failed c')
      \<or> is_space ch \<and> cf_lex c (ch # expr) = cf_lex c expr
      \<or> (\<exists>w t s. tok_text w t \<and> ch # expr = w @ s \<and> length (toks c) < 256
          \<and> cf_lex c (ch # expr) = cf_lex (push_tok t c) s)"
    by (rule cf_lex_step [OF refl, of c ch expr]) blast+
qed (simp_all add: cf_lex.simps cf_lex_word tok_text_nonempty)

end
