(* ===== verification/Recursive_Descent.thy ===== *)
theory Recursive_Descent
  imports Main "HOL-Library.Monad_Syntax"
begin

text \<open>
  The boolean layer of both filter languages, \<open>parse_not\<close>, \<open>parse_and\<close> and \<open>parse_expr\<close> of
  \<open>capfilter.c\<close> and \<open>dispfilter.c\<close>. The grammar is an inductive definition over token lists; the
  locale \<open>recursive_descent\<close> takes the five mutually recursive functions by their defining equations,
  with the primitive parser and the node allocator as an interface, and shows once for both languages
  that the parser always returns, accepts only sentences of the grammar, and accepts all of them.
\<close>

subsection \<open>The grammar\<close>

text \<open>
  \<open>or_expr := and_expr (or and_expr)*\<close>, \<open>and_expr := not_expr (and not_expr)*\<close>,
  \<open>not_expr := not not_expr | ( or_expr ) | primitive\<close>, the two binary operators associating to the
  left. The record names the token classes and the node constructors of a language.
\<close>

record ('t, 'n) bool_syntax =
  is_not :: "'t \<Rightarrow> bool"
  is_lparen :: "'t \<Rightarrow> bool"
  is_rparen :: "'t \<Rightarrow> bool"
  is_and :: "'t \<Rightarrow> bool"
  is_or :: "'t \<Rightarrow> bool"
  is_end :: "'t \<Rightarrow> bool"
  node_not :: "'n option \<Rightarrow> 'n"
  node_and :: "'n option \<Rightarrow> 'n option \<Rightarrow> 'n"
  node_or :: "'n option \<Rightarrow> 'n option \<Rightarrow> 'n"
  primitive :: "'t list \<Rightarrow> 'n \<Rightarrow> bool"

inductive not_expr :: "('t, 'n) bool_syntax \<Rightarrow> 't list \<Rightarrow> 'n \<Rightarrow> bool"
  and and_expr :: "('t, 'n) bool_syntax \<Rightarrow> 't list \<Rightarrow> 'n \<Rightarrow> bool"
  and or_expr :: "('t, 'n) bool_syntax \<Rightarrow> 't list \<Rightarrow> 'n \<Rightarrow> bool"
  for G :: "('t, 'n) bool_syntax"
where
  prim: "primitive G ts n \<Longrightarrow> not_expr G ts n"
| neg: "is_not G t \<Longrightarrow> not_expr G ts n \<Longrightarrow> not_expr G (t # ts) (node_not G (Some n))"
| paren: "is_lparen G t \<Longrightarrow> or_expr G ts n \<Longrightarrow> is_rparen G u \<Longrightarrow> not_expr G (t # ts @ [u]) n"
| and_one: "not_expr G ts n \<Longrightarrow> and_expr G ts n"
| and_more: "and_expr G ts l \<Longrightarrow> is_and G t \<Longrightarrow> not_expr G us r \<Longrightarrow>
    and_expr G (ts @ t # us) (node_and G (Some l) (Some r))"
| or_one: "and_expr G ts n \<Longrightarrow> or_expr G ts n"
| or_more: "or_expr G ts l \<Longrightarrow> is_or G t \<Longrightarrow> and_expr G us r \<Longrightarrow>
    or_expr G (ts @ t # us) (node_or G (Some l) (Some r))"

subsection \<open>The parser\<close>

text \<open>
  \<open>'p\<close> is the parser's state. \<open>rest\<close> lists the tokens from the cursor up to and including the end
  token, \<open>room\<close> counts the free nodes of the arena, and \<open>ok\<close> says that the cursor is inside the token
  array. \<open>stop\<close> tells the two languages apart: after a failed allocation one leaves the loop, the other
  goes on.
\<close>

locale recursive_descent =
  fixes G :: "('t, 'n) bool_syntax"
    and pnot pand pexpr :: "nat \<Rightarrow> 'p \<Rightarrow> ('n option \<times> 'p) option"
    and and_loop or_loop :: "nat \<Rightarrow> 'n option \<Rightarrow> 'p \<Rightarrow> ('n option \<times> 'p) option"
    and prim :: "'p \<Rightarrow> ('n option \<times> 'p) option"
    and peek :: "'p \<Rightarrow> 't option"
    and advance :: "'p \<Rightarrow> ('t \<times> 'p) option"
    and mk :: "'n \<Rightarrow> 'p \<Rightarrow> 'n option \<times> 'p"
    and expected_rparen :: "'p \<Rightarrow> 'p"
    and stop :: "'n option \<Rightarrow> bool"
    and ok :: "'p \<Rightarrow> bool"
    and rest :: "'p \<Rightarrow> 't list"
    and bad :: "'p \<Rightarrow> bool"
    and room :: "'p \<Rightarrow> nat"
    and nodes :: "'n \<Rightarrow> nat"
  assumes fuel0: "pnot 0 p = None" "pand 0 p = None" "pexpr 0 p = None"
      "and_loop 0 l p = None" "or_loop 0 l p = None"
    and pnot: "pnot (Suc f) p = do {
        t \<leftarrow> peek p;
        if is_not G t then do {
          (_, p) \<leftarrow> advance p;
          (n, p) \<leftarrow> pnot f p;
          Some (mk (node_not G n) p)
        } else if is_lparen G t then do {
          (_, p) \<leftarrow> advance p;
          (n, p) \<leftarrow> pexpr f p;
          (t, p) \<leftarrow> advance p;
          if is_rparen G t then Some (n, p) else Some (None, expected_rparen p)
        } else prim p }"
    and pand: "pand (Suc f) p = do { (l, p) \<leftarrow> pnot f p; and_loop f l p }"
    and and_loop: "and_loop (Suc f) l p = do {
        t \<leftarrow> peek p;
        if is_and G t then do {
          (_, p) \<leftarrow> advance p;
          (r, p) \<leftarrow> pnot f p;
          let (n, p) = mk (node_and G l r) p;
          if stop n then Some (n, p) else and_loop f n p
        } else Some (l, p) }"
    and pexpr: "pexpr (Suc f) p = do { (l, p) \<leftarrow> pand f p; or_loop f l p }"
    and or_loop: "or_loop (Suc f) l p = do {
        t \<leftarrow> peek p;
        if is_or G t then do {
          (_, p) \<leftarrow> advance p;
          (r, p) \<leftarrow> pand f p;
          let (n, p) = mk (node_or G l r) p;
          if stop n then Some (n, p) else or_loop f n p
        } else Some (l, p) }"
    and stop: "\<not> stop (Some m)"
    and rest: "ok p \<Longrightarrow> \<exists>ts t. rest p = ts @ [t] \<and> is_end G t \<and> (\<forall>u \<in> set ts. \<not> is_end G u)"
    and peek: "ok p \<Longrightarrow> peek p = Some (hd (rest p))"
    and advance: "ok p \<Longrightarrow> \<exists>p'. advance p = Some (hd (rest p), p') \<and> ok p' \<and> bad p' = bad p
        \<and> room p' = room p \<and> rest p' = (if is_end G (hd (rest p)) then rest p else tl (rest p))"
    and mk_ok: "ok p \<Longrightarrow> \<not> bad p \<Longrightarrow> 0 < room p \<Longrightarrow> \<exists>p'. mk m p = (Some m, p') \<and> ok p' \<and> \<not> bad p'
        \<and> rest p' = rest p \<and> room p' = room p - 1"
    and mk_bad: "ok p \<Longrightarrow> bad p \<or> room p = 0 \<Longrightarrow> \<exists>p'. mk m p = (None, p') \<and> ok p' \<and> bad p'
        \<and> rest p' = rest p"
    and expected_rparen: "ok p \<Longrightarrow> ok (expected_rparen p) \<and> bad (expected_rparen p)
        \<and> rest (expected_rparen p) = rest p"
    and prim_total: "ok p \<Longrightarrow> \<exists>n p' ts. prim p = Some (n, p') \<and> ok p' \<and> rest p = ts @ rest p'
        \<and> (bad p \<longrightarrow> bad p')"
    and prim_sound: "ok p \<Longrightarrow> prim p = Some (n, p') \<Longrightarrow> \<not> bad p' \<Longrightarrow>
        \<exists>ts m. n = Some m \<and> primitive G ts m \<and> rest p = ts @ rest p' \<and> room p = room p' + nodes m"
    and prim_complete: "ok p \<Longrightarrow> \<not> bad p \<Longrightarrow> primitive G ts m \<Longrightarrow> rest p = ts @ us \<Longrightarrow> us \<noteq> [] \<Longrightarrow>
        nodes m \<le> room p \<Longrightarrow> \<exists>p'. prim p = Some (Some m, p') \<and> ok p' \<and> \<not> bad p' \<and> rest p' = us
          \<and> room p = room p' + nodes m"
    and primitive_start: "primitive G ts m \<Longrightarrow> ts \<noteq> [] \<and> \<not> is_not G (hd ts) \<and> \<not> is_lparen G (hd ts)"
    and classes: "is_end G t \<Longrightarrow> \<not> is_not G t \<and> \<not> is_lparen G t \<and> \<not> is_rparen G t \<and> \<not> is_and G t \<and> \<not> is_or G t"
      "is_not G t \<Longrightarrow> \<not> is_lparen G t"
      "is_rparen G t \<Longrightarrow> \<not> is_and G t \<and> \<not> is_or G t" "is_or G t \<Longrightarrow> \<not> is_and G t"
    and nodes_bool: "nodes (node_not G (Some m)) = Suc (nodes m)"
      "nodes (node_and G (Some m) (Some m')) = Suc (nodes m + nodes m')"
      "nodes (node_or G (Some m) (Some m')) = Suc (nodes m + nodes m')"
begin

text \<open>What one step of the cursor does on a token that is not the end token.\<close>

lemma step:
  assumes "ok p" "\<not> is_end G (hd (rest p))"
  obtains p' where "advance p = Some (hd (rest p), p')" "ok p'" "bad p' = bad p" "room p' = room p"
    and "rest p = hd (rest p) # rest p'"
proof -
  have "rest p \<noteq> []" using rest [OF assms(1)] by auto
  then have "rest p = hd (rest p) # tl (rest p)" by simp
  with advance [OF assms(1)] assms(2) that show thesis by metis
qed

text \<open>
  Outcome of a call: it returns, the cursor only moves forward, an earlier failure stays, and a
  result without failure is a node of the sentence just read, paid for from the arena.
\<close>

definition outcome :: "('t list \<Rightarrow> 'n \<Rightarrow> bool) \<Rightarrow> 'p \<Rightarrow> ('n option \<times> 'p) option \<Rightarrow> bool" where
  "outcome L p r \<longleftrightarrow> (\<exists>n p' ts. r = Some (n, p') \<and> ok p' \<and> rest p = ts @ rest p' \<and> (bad p \<longrightarrow> bad p')
     \<and> (\<not> bad p' \<longrightarrow> (\<exists>m. n = Some m \<and> L ts m \<and> room p = room p' + nodes m)))"

text \<open>The loops continue a sentence \<open>ts0\<close> already read into \<open>l\<close>.\<close>

definition continues :: "('t list \<Rightarrow> 'n \<Rightarrow> bool) \<Rightarrow> 't list \<Rightarrow> 'n option \<Rightarrow> 'p \<Rightarrow> bool" where
  "continues L ts0 l p \<longleftrightarrow> (\<not> bad p \<longrightarrow> (\<exists>m. l = Some m \<and> L ts0 m))"

definition loop_outcome ::
  "('t list \<Rightarrow> 'n \<Rightarrow> bool) \<Rightarrow> 't list \<Rightarrow> 'n option \<Rightarrow> 'p \<Rightarrow> ('n option \<times> 'p) option \<Rightarrow> bool" where
  "loop_outcome L ts0 l p r \<longleftrightarrow>
     (\<exists>n p' ts. r = Some (n, p') \<and> ok p' \<and> rest p = ts @ rest p' \<and> (bad p \<longrightarrow> bad p')
      \<and> (\<not> bad p' \<longrightarrow> (\<exists>m m0. l = Some m0 \<and> n = Some m \<and> L (ts0 @ ts) m
           \<and> room p + nodes m0 = room p' + nodes m)))"

lemma outcomeE:
  assumes "outcome L p r"
  obtains n p' ts where "r = Some (n, p')" "ok p'" "rest p = ts @ rest p'" "bad p \<Longrightarrow> bad p'"
    and "\<not> bad p' \<Longrightarrow> \<exists>m. n = Some m \<and> L ts m \<and> room p = room p' + nodes m"
  using assms unfolding outcome_def by blast

lemma outcomeI:
  assumes "r = Some (n, p')" "ok p'" "rest p = ts @ rest p'" "bad p \<Longrightarrow> bad p'"
    and "\<not> bad p' \<Longrightarrow> \<exists>m. n = Some m \<and> L ts m \<and> room p = room p' + nodes m"
  shows "outcome L p r"
  using assms unfolding outcome_def by blast

lemma loop_outcomeI:
  assumes "r = Some (n, p')" "ok p'" "rest p = ts @ rest p'" "bad p \<Longrightarrow> bad p'"
    and "\<not> bad p' \<Longrightarrow> \<exists>m m0. l = Some m0 \<and> n = Some m \<and> L (ts0 @ ts) m \<and> room p + nodes m0 = room p' + nodes m"
  shows "loop_outcome L ts0 l p r"
  using assms unfolding loop_outcome_def by blast

text \<open>A first operand followed by its loop.\<close>

lemma outcome_then_loop:
  assumes "outcome L p r" and one: "\<And>ts m. L ts m \<Longrightarrow> M ts m"
    and loop: "\<And>n p' ts. r = Some (n, p') \<Longrightarrow> ok p' \<Longrightarrow> rest p = ts @ rest p' \<Longrightarrow> continues M ts n p' \<Longrightarrow>
      loop_outcome M ts n p' (g n p')"
  shows "outcome M p (do { (n, p') \<leftarrow> r; g n p' })"
proof -
  from assms(1) obtain n p1 ts where 1: "r = Some (n, p1)" "ok p1" "rest p = ts @ rest p1" "bad p \<Longrightarrow> bad p1"
    "\<not> bad p1 \<Longrightarrow> \<exists>m. n = Some m \<and> L ts m \<and> room p = room p1 + nodes m"
    by (rule outcomeE) blast
  then have "loop_outcome M ts n p1 (g n p1)"
    by (intro loop) (auto simp: continues_def intro: one)
  then obtain n' p2 us where 2: "g n p1 = Some (n', p2)" "ok p2" "rest p1 = us @ rest p2" "bad p1 \<longrightarrow> bad p2"
    "\<not> bad p2 \<longrightarrow> (\<exists>m m0. n = Some m0 \<and> n' = Some m \<and> M (ts @ us) m \<and> room p1 + nodes m0 = room p2 + nodes m)"
    unfolding loop_outcome_def by blast
  show ?thesis
    by (rule outcomeI [of _ n' p2 _ "ts @ us"]) (use 1 2 in auto)
qed

lemma mk_cases:
  assumes "ok p"
  obtains (made) p' where "mk m p = (Some m, p')" "ok p'" "\<not> bad p" "\<not> bad p'" "rest p' = rest p"
      "room p = Suc (room p')"
  | (not_made) p' where "mk m p = (None, p')" "ok p'" "bad p'" "rest p' = rest p"
proof (cases "\<not> bad p \<and> 0 < room p")
  case True
  with mk_ok [OF assms, of m] made show thesis by fastforce
next
  case False
  with mk_bad [OF assms, of m] not_made show thesis by fastforce
qed

text \<open>A token is taken and an operand is parsed.\<close>

lemma advance_then:
  assumes "ok p" "\<not> is_end G (hd (rest p))"
    and operand: "\<And>p1. ok p1 \<Longrightarrow> length (rest p1) < length (rest p) \<Longrightarrow> outcome M p1 (g p1)"
  obtains p1 n p2 us where "advance p = Some (hd (rest p), p1)" "g p1 = Some (n, p2)" "ok p2"
    "rest p = (hd (rest p) # us) @ rest p2" "bad p \<longrightarrow> bad p2"
    "\<not> bad p2 \<longrightarrow> (\<exists>m. n = Some m \<and> M us m \<and> room p = room p2 + nodes m)"
proof -
  obtain p1 where 1: "advance p = Some (hd (rest p), p1)" "ok p1" "bad p1 = bad p" "room p1 = room p"
    "rest p = hd (rest p) # rest p1"
    using step [OF assms(1,2)] .
  have "length (rest p1) < length (rest p)" by (subst 1(5)) simp
  from operand [OF 1(2) this] obtain n p2 us where 2: "g p1 = Some (n, p2)" "ok p2" "rest p1 = us @ rest p2"
    "bad p1 \<Longrightarrow> bad p2" "\<not> bad p2 \<Longrightarrow> \<exists>m. n = Some m \<and> M us m \<and> room p1 = room p2 + nodes m"
    by (rule outcomeE) blast
  have "rest p = (hd (rest p) # us) @ rest p2" using 1(5) 2(3) by simp
  with 1 2 show thesis by (intro that [of p1 n p2 us]) auto
qed

text \<open>One round of a loop.\<close>

lemma loop_round:
  assumes "ok p" "continues L ts0 l p" "\<not> is_end G (hd (rest p))"
    and operand: "\<And>p1. ok p1 \<Longrightarrow> length (rest p1) < length (rest p) \<Longrightarrow> outcome M p1 (g p1)"
    and again: "\<And>n p2 ts. ok p2 \<Longrightarrow> length (rest p2) < length (rest p) \<Longrightarrow> continues L ts n p2 \<Longrightarrow>
      loop_outcome L ts n p2 (h n p2)"
    and join: "\<And>ts us m m'. L ts m \<Longrightarrow> M us m' \<Longrightarrow>
      L (ts @ hd (rest p) # us) (nd (Some m) (Some m')) \<and> nodes (nd (Some m) (Some m')) = Suc (nodes m + nodes m')"
  shows "loop_outcome L ts0 l p (do {
      (_, p) \<leftarrow> advance p;
      (r, p) \<leftarrow> g p;
      let (n, p) = mk (nd l r) p;
      if stop n then Some (n, p) else h n p })"
proof -
  obtain p1 r p2 us where 1: "advance p = Some (hd (rest p), p1)" "g p1 = Some (r, p2)"
    and 2: "ok p2" "rest p = (hd (rest p) # us) @ rest p2" "bad p \<longrightarrow> bad p2"
      "\<not> bad p2 \<longrightarrow> (\<exists>m. r = Some m \<and> M us m \<and> room p = room p2 + nodes m)"
    by (rule advance_then [OF assms(1,3) operand])
  from 2(2) have short: "length (rest p2) < length (rest p)"
    by (metis length_append less_add_same_cancel2 length_Cons zero_less_Suc)
  show ?thesis
  proof (rule mk_cases [OF 2(1), of "nd l r"])
    fix p3 assume 3: "mk (nd l r) p2 = (None, p3)" "ok p3" "bad p3" "rest p3 = rest p2"
    show ?thesis
    proof (cases "stop None")
      case True
      with 1 2 3 show ?thesis
        by (intro loop_outcomeI [of _ None p3 _ "hd (rest p) # us"]) auto
    next
      case False
      have "loop_outcome L ts0 None p3 (h None p3)"
        using 3 short by (intro again) (auto simp: continues_def)
      then obtain n p4 ts where "h None p3 = Some (n, p4)" "ok p4" "rest p3 = ts @ rest p4" "bad p4"
        using 3(3) unfolding loop_outcome_def by blast
      with False 1 2 3 show ?thesis
        by (intro loop_outcomeI [of _ n p4 _ "hd (rest p) # us @ ts"]) auto
    qed
  next
    fix p3 assume 3: "mk (nd l r) p2 = (Some (nd l r), p3)" "ok p3" "\<not> bad p2" "\<not> bad p3"
      "rest p3 = rest p2" "room p2 = Suc (room p3)"
    from 2(3) 3(3) assms(2) obtain m where m: "l = Some m" "L ts0 m" by (auto simp: continues_def)
    from 2(4) 3(3) obtain m' where m': "r = Some m'" "M us m'" "room p = room p2 + nodes m'" by blast
    have "loop_outcome L (ts0 @ hd (rest p) # us) (Some (nd l r)) p3 (h (Some (nd l r)) p3)"
      using 3 short m m' join by (intro again) (auto simp: continues_def)
    then obtain n p4 ts where 4: "h (Some (nd l r)) p3 = Some (n, p4)" "ok p4" "rest p3 = ts @ rest p4"
      "\<not> bad p4 \<longrightarrow> (\<exists>m. n = Some m \<and> L ((ts0 @ hd (rest p) # us) @ ts) m
           \<and> room p3 + nodes (nd l r) = room p4 + nodes m)"
      unfolding loop_outcome_def by blast
    moreover have "bad p \<longrightarrow> bad p4" using 2(3) 3(3) by blast
    moreover have "room p + nodes m = room p3 + nodes (nd l r)"
      using 3(6) m m' join by simp
    moreover have "rest p = (hd (rest p) # us @ ts) @ rest p4" by (subst 2(2)) (simp add: 3(5) [symmetric] 4(3))
    ultimately show ?thesis
      using 1 2 3 m stop by (intro loop_outcomeI [of _ n p4 _ "hd (rest p) # us @ ts"]) auto
  qed
qed

text \<open>A negation, and an expression in parentheses.\<close>

lemma pnot_neg:
  assumes "ok p" "is_not G (hd (rest p))"
    and operand: "\<And>p1. ok p1 \<Longrightarrow> length (rest p1) < length (rest p) \<Longrightarrow> outcome (not_expr G) p1 (pnot f p1)"
  shows "outcome (not_expr G) p (pnot (Suc f) p)"
proof -
  have "\<not> is_end G (hd (rest p))" using assms(2) classes by blast
  then obtain p1 n p2 us where 1: "advance p = Some (hd (rest p), p1)" "pnot f p1 = Some (n, p2)" "ok p2"
    "rest p = (hd (rest p) # us) @ rest p2" "bad p \<longrightarrow> bad p2"
    "\<not> bad p2 \<longrightarrow> (\<exists>m. n = Some m \<and> not_expr G us m \<and> room p = room p2 + nodes m)"
    by (rule advance_then [OF assms(1) _ operand])
  show ?thesis
    by (rule mk_cases [OF 1(3), of "node_not G n"];
        rule outcomeI [of _ "fst (mk (node_not G n) p2)" "snd (mk (node_not G n) p2)" _ "hd (rest p) # us"])
      (use assms(2) 1 peek [OF assms(1)] pnot nodes_bool in \<open>auto intro: not_expr_and_expr_or_expr.neg\<close>)
qed

lemma pnot_paren:
  assumes "ok p" "\<not> is_not G (hd (rest p))" "is_lparen G (hd (rest p))"
    and inner: "\<And>p1. ok p1 \<Longrightarrow> length (rest p1) < length (rest p) \<Longrightarrow> outcome (or_expr G) p1 (pexpr f p1)"
  shows "outcome (not_expr G) p (pnot (Suc f) p)"
proof -
  have "\<not> is_end G (hd (rest p))" using assms(3) classes by blast
  then obtain p1 n p2 us where 1: "advance p = Some (hd (rest p), p1)" "pexpr f p1 = Some (n, p2)" "ok p2"
    "rest p = (hd (rest p) # us) @ rest p2" "bad p \<longrightarrow> bad p2"
    "\<not> bad p2 \<longrightarrow> (\<exists>m. n = Some m \<and> or_expr G us m \<and> room p = room p2 + nodes m)"
    by (rule advance_then [OF assms(1) _ inner])
  note start = assms(2,3) 1 peek [OF assms(1)] pnot
  from advance [OF 1(3)] obtain p3 where 3: "advance p2 = Some (hd (rest p2), p3)" "ok p3" "bad p3 = bad p2"
    "room p3 = room p2" "rest p3 = (if is_end G (hd (rest p2)) then rest p2 else tl (rest p2))" by blast
  show ?thesis
  proof (cases "is_rparen G (hd (rest p2))")
    case True
    then have "\<not> is_end G (hd (rest p2))" using classes by blast
    moreover have "rest p2 \<noteq> []" using rest [OF 1(3)] by auto
    ultimately have rest2: "rest p2 = hd (rest p2) # rest p3" using 3(5) by simp
    then have "rest p = (hd (rest p) # us @ [hd (rest p2)]) @ rest p3" using 1(4) by simp
    then show ?thesis
      by (rule outcomeI [of _ n p3 _ "hd (rest p) # us @ [hd (rest p2)]", rotated 2])
        (use True start 3 in \<open>auto intro: not_expr_and_expr_or_expr.paren\<close>)
  next
    case False
    have "\<exists>v. rest p2 = v @ rest p3" using 3(5) rest [OF 1(3)] by (metis append_Nil append_Cons hd_Cons_tl append_is_Nil_conv not_Cons_self2)
    then obtain v where "rest p2 = v @ rest p3" ..
    then have "rest p = (hd (rest p) # us @ v) @ rest p3" using 1(4) by simp
    then show ?thesis
      by (intro outcomeI [of _ None "expected_rparen p3" _ "hd (rest p) # us @ v"])
        (use False start 3 expected_rparen [OF 3(2)] in auto)
  qed
qed

lemma pnot_round:
  assumes "ok p"
    and operand: "\<And>p1. ok p1 \<Longrightarrow> length (rest p1) < length (rest p) \<Longrightarrow> outcome (not_expr G) p1 (pnot f p1)"
    and inner: "\<And>p1. ok p1 \<Longrightarrow> length (rest p1) < length (rest p) \<Longrightarrow> outcome (or_expr G) p1 (pexpr f p1)"
  shows "outcome (not_expr G) p (pnot (Suc f) p)"
proof (cases "is_not G (hd (rest p)) \<or> is_lparen G (hd (rest p))")
  case True
  then show ?thesis using pnot_neg [OF assms(1) _ operand] pnot_paren [OF assms(1) _ _ inner] by blast
next
  case False
  then have eq: "pnot (Suc f) p = prim p" by (simp add: pnot peek [OF assms(1)])
  obtain n p' ts where 1: "prim p = Some (n, p')" "ok p'" "rest p = ts @ rest p'" "bad p \<longrightarrow> bad p'"
    using prim_total [OF assms(1)] by blast
  show ?thesis
    using prim_sound [OF assms(1) 1(1)] 1
    by (intro outcomeI [of _ n p' _ ts]) (auto simp: eq intro: not_expr_and_expr_or_expr.prim)
qed

lemma and_loop_round:
  assumes "ok p" "continues (and_expr G) ts l p"
    and operand: "\<And>p1. ok p1 \<Longrightarrow> length (rest p1) < length (rest p) \<Longrightarrow> outcome (not_expr G) p1 (pnot f p1)"
    and again: "\<And>n p2 ts. ok p2 \<Longrightarrow> length (rest p2) < length (rest p) \<Longrightarrow> continues (and_expr G) ts n p2 \<Longrightarrow>
      loop_outcome (and_expr G) ts n p2 (and_loop f n p2)"
  shows "loop_outcome (and_expr G) ts l p (and_loop (Suc f) l p)"
proof (cases "is_and G (hd (rest p))")
  case True
  then have "\<not> is_end G (hd (rest p))" using classes by blast
  then have "loop_outcome (and_expr G) ts l p (do {
      (_, p) \<leftarrow> advance p; (r, p) \<leftarrow> pnot f p; let (n, p) = mk (node_and G l r) p;
      if stop n then Some (n, p) else and_loop f n p })"
    using True by (intro loop_round [OF assms(1,2) _ operand again]) (auto simp: nodes_bool intro: and_more)
  with True show ?thesis by (simp add: and_loop peek [OF assms(1)])
qed (use assms(1,2) in \<open>auto simp: and_loop peek continues_def intro: loop_outcomeI [of _ l p p "[]"]\<close>)

lemma or_loop_round:
  assumes "ok p" "continues (or_expr G) ts l p"
    and operand: "\<And>p1. ok p1 \<Longrightarrow> length (rest p1) < length (rest p) \<Longrightarrow> outcome (and_expr G) p1 (pand f p1)"
    and again: "\<And>n p2 ts. ok p2 \<Longrightarrow> length (rest p2) < length (rest p) \<Longrightarrow> continues (or_expr G) ts n p2 \<Longrightarrow>
      loop_outcome (or_expr G) ts n p2 (or_loop f n p2)"
  shows "loop_outcome (or_expr G) ts l p (or_loop (Suc f) l p)"
proof (cases "is_or G (hd (rest p))")
  case True
  then have "\<not> is_end G (hd (rest p))" using classes by blast
  then have "loop_outcome (or_expr G) ts l p (do {
      (_, p) \<leftarrow> advance p; (r, p) \<leftarrow> pand f p; let (n, p) = mk (node_or G l r) p;
      if stop n then Some (n, p) else or_loop f n p })"
    using True by (intro loop_round [OF assms(1,2) _ operand again]) (auto simp: nodes_bool intro: or_more)
  with True show ?thesis by (simp add: or_loop peek [OF assms(1)])
qed (use assms(1,2) in \<open>auto simp: or_loop peek continues_def intro: loop_outcomeI [of _ l p p "[]"]\<close>)

text \<open>
  Four units of fuel per remaining token, and up to three more for the entry point, are enough for
  every call; with them each call has the outcome its grammar symbol promises.
\<close>

lemma all_outcomes:
  "(\<forall>p. ok p \<longrightarrow> 4 * length (rest p) + 1 \<le> f \<longrightarrow> outcome (not_expr G) p (pnot f p))
   \<and> (\<forall>p ts l. ok p \<longrightarrow> 4 * length (rest p) + 1 \<le> f \<longrightarrow> continues (and_expr G) ts l p \<longrightarrow>
        loop_outcome (and_expr G) ts l p (and_loop f l p))
   \<and> (\<forall>p. ok p \<longrightarrow> 4 * length (rest p) + 2 \<le> f \<longrightarrow> outcome (and_expr G) p (pand f p))
   \<and> (\<forall>p ts l. ok p \<longrightarrow> 4 * length (rest p) + 2 \<le> f \<longrightarrow> continues (or_expr G) ts l p \<longrightarrow>
        loop_outcome (or_expr G) ts l p (or_loop f l p))
   \<and> (\<forall>p. ok p \<longrightarrow> 4 * length (rest p) + 3 \<le> f \<longrightarrow> outcome (or_expr G) p (pexpr f p))"
proof (induction f)
  case (Suc f)
  have le: "length v \<le> length (u @ v)" for u v :: "'t list" by simp
  show ?case
  proof (intro conjI allI impI)
    fix p assume p: "ok p"
    show "outcome (not_expr G) p (pnot (Suc f) p)" if "4 * length (rest p) + 1 \<le> Suc f"
      using that Suc.IH by (intro pnot_round [OF p]) auto
    show "outcome (and_expr G) p (pand (Suc f) p)" if "4 * length (rest p) + 2 \<le> Suc f"
      unfolding pand
    proof (rule outcome_then_loop [of "not_expr G"])
      show "outcome (not_expr G) p (pnot f p)" using that p Suc.IH by auto
      fix n p' ts assume "ok p'" "rest p = ts @ rest p'" "continues (and_expr G) ts n p'"
      then show "loop_outcome (and_expr G) ts n p' (and_loop f n p')" using that Suc.IH by auto
    qed (rule and_one)
    show "outcome (or_expr G) p (pexpr (Suc f) p)" if "4 * length (rest p) + 3 \<le> Suc f"
      unfolding pexpr
    proof (rule outcome_then_loop [of "and_expr G"])
      show "outcome (and_expr G) p (pand f p)" using that p Suc.IH by auto
      fix n p' ts assume "ok p'" "rest p = ts @ rest p'" "continues (or_expr G) ts n p'"
      then show "loop_outcome (or_expr G) ts n p' (or_loop f n p')" using that Suc.IH by auto
    qed (rule or_one)
    fix ts l
    show "loop_outcome (and_expr G) ts l p (and_loop (Suc f) l p)"
      if "4 * length (rest p) + 1 \<le> Suc f" "continues (and_expr G) ts l p"
      using that Suc.IH by (intro and_loop_round [OF p]) auto
    show "loop_outcome (or_expr G) ts l p (or_loop (Suc f) l p)"
      if "4 * length (rest p) + 2 \<le> Suc f" "continues (or_expr G) ts l p"
      using that Suc.IH by (intro or_loop_round [OF p]) auto
  qed
qed simp

lemmas pexpr_outcome = all_outcomes [THEN conjunct2, THEN conjunct2, THEN conjunct2, THEN conjunct2, rule_format]

subsection \<open>Completeness\<close>

text \<open>A state ready to read \<open>ts\<close> and then \<open>us\<close>, with room for \<open>k\<close> more nodes.\<close>

definition ready :: "'p \<Rightarrow> 't list \<Rightarrow> nat \<Rightarrow> bool" where
  "ready p ts k \<longleftrightarrow> ok p \<and> \<not> bad p \<and> rest p = ts \<and> room p = k"

lemma ready_advance:
  assumes "ready p (t # ts) k" "ts \<noteq> []"
  shows "peek p = Some t" "\<exists>p'. advance p = Some (t, p') \<and> ready p' ts k"
proof -
  have ok: "ok p" and r: "rest p = t # ts" using assms by (auto simp: ready_def)
  obtain us e where "rest p = us @ [e]" "\<forall>u \<in> set us. \<not> is_end G u" using rest [OF ok] by blast
  with r assms(2) have "\<not> is_end G t" by (cases us) auto
  with advance [OF ok] r assms(1) show "\<exists>p'. advance p = Some (t, p') \<and> ready p' ts k"
    by (auto simp: ready_def)
  show "peek p = Some t" using peek [OF ok] r by simp
qed

lemma ready_mk:
  assumes "ready p ts (Suc k)"
  shows "\<exists>p'. mk m p = (Some m, p') \<and> ready p' ts k"
  using mk_ok [of p m] assms by (auto simp: ready_def)

lemma ready_peek: "ready p ts k \<Longrightarrow> peek p = Some (hd ts)"
  using peek by (auto simp: ready_def)

text \<open>
  Reading a sentence of each grammar symbol from a ready state, with enough fuel. A conjunction or a
  disjunction leaves the parser at the head of its loop, where more operands may follow.
\<close>

definition reads_not :: "'t list \<Rightarrow> 'n \<Rightarrow> bool" where
  "reads_not ts n \<longleftrightarrow> (\<forall>us p f k. us \<noteq> [] \<longrightarrow> ready p (ts @ us) (k + nodes n) \<longrightarrow>
     4 * length (ts @ us) + 1 \<le> f \<longrightarrow> (\<exists>p'. pnot f p = Some (Some n, p') \<and> ready p' us k))"

definition reads_and :: "'t list \<Rightarrow> 'n \<Rightarrow> bool" where
  "reads_and ts n \<longleftrightarrow> (\<forall>us p f k. us \<noteq> [] \<longrightarrow> ready p (ts @ us) (k + nodes n) \<longrightarrow>
     4 * length (ts @ us) + 2 \<le> f \<longrightarrow>
     (\<exists>p' g. pand f p = and_loop (Suc g) (Some n) p' \<and> 4 * length us \<le> g \<and> ready p' us k))"

definition reads_or :: "'t list \<Rightarrow> 'n \<Rightarrow> bool" where
  "reads_or ts n \<longleftrightarrow> (\<forall>us p f k. us \<noteq> [] \<longrightarrow> \<not> is_and G (hd us) \<longrightarrow> ready p (ts @ us) (k + nodes n) \<longrightarrow>
     4 * length (ts @ us) + 3 \<le> f \<longrightarrow>
     (\<exists>p' g. pexpr f p = or_loop (Suc g) (Some n) p' \<and> 4 * length us + 1 \<le> g \<and> ready p' us k))"

lemma and_loop_leave: "ready p us k \<Longrightarrow> \<not> is_and G (hd us) \<Longrightarrow> and_loop (Suc g) l p = Some (l, p)"
  by (simp add: and_loop ready_peek)

lemma or_loop_leave: "ready p us k \<Longrightarrow> \<not> is_or G (hd us) \<Longrightarrow> or_loop (Suc g) l p = Some (l, p)"
  by (simp add: or_loop ready_peek)

lemma reads_prim:
  assumes "primitive G ts n"
  shows "reads_not ts n"
  unfolding reads_not_def
proof (intro allI impI)
  fix us p f k
  assume *: "us \<noteq> []" "ready p (ts @ us) (k + nodes n)" "4 * length (ts @ us) + 1 \<le> f"
  then obtain g where f: "f = Suc g" by (cases f) auto
  have start: "ts \<noteq> []" "\<not> is_not G (hd ts)" "\<not> is_lparen G (hd ts)" using primitive_start [OF assms] by auto
  moreover have "peek p = Some (hd ts)" using ready_peek [OF *(2)] start(1) by simp
  ultimately have "pnot f p = prim p" by (simp add: f pnot)
  with prim_complete [of p ts n us] assms * show "\<exists>p'. pnot f p = Some (Some n, p') \<and> ready p' us k"
    by (auto simp: ready_def)
qed

lemma reads_neg:
  assumes "is_not G t" "reads_not ts n"
  shows "reads_not (t # ts) (node_not G (Some n))"
  unfolding reads_not_def
proof (intro allI impI)
  fix us p f k
  assume *: "us \<noteq> []" "ready p ((t # ts) @ us) (k + nodes (node_not G (Some n)))"
    "4 * length ((t # ts) @ us) + 1 \<le> f"
  then obtain g where f: "f = Suc g" "4 * length (ts @ us) + 1 \<le> g" by (cases f) auto
  have "ready p (t # ts @ us) (Suc k + nodes n)" using *(2) by (simp add: nodes_bool)
  from ready_advance [OF this] *(1)
  obtain p1 where 1: "peek p = Some t" "advance p = Some (t, p1)" "ready p1 (ts @ us) (Suc k + nodes n)"
    by blast
  with assms(2) *(1) f obtain p2 where 2: "pnot g p1 = Some (Some n, p2)" "ready p2 us (Suc k)"
    unfolding reads_not_def by blast
  with 1 f assms(1) ready_mk [of p2 us k "node_not G (Some n)"]
  show "\<exists>p'. pnot f p = Some (Some (node_not G (Some n)), p') \<and> ready p' us k" by (auto simp: pnot)
qed

lemma reads_paren:
  assumes "is_lparen G t" "reads_or ts n" "is_rparen G u"
  shows "reads_not (t # ts @ [u]) n"
  unfolding reads_not_def
proof (intro allI impI)
  fix us p f k
  assume *: "us \<noteq> []" "ready p ((t # ts @ [u]) @ us) (k + nodes n)" "4 * length ((t # ts @ [u]) @ us) + 1 \<le> f"
  then obtain g where f: "f = Suc g" "4 * length (ts @ u # us) + 3 \<le> g" by (cases f) auto
  have "ready p (t # ts @ u # us) (k + nodes n)" using *(2) by simp
  from ready_advance [OF this]
  obtain p1 where 1: "peek p = Some t" "advance p = Some (t, p1)" "ready p1 (ts @ u # us) (k + nodes n)"
    by blast
  have u: "\<not> is_and G u" "\<not> is_or G u" using assms(3) classes by auto
  with assms(2) 1(3) f(2) obtain p2 h
    where 2: "pexpr g p1 = or_loop (Suc h) (Some n) p2" "ready p2 (u # us) k"
    unfolding reads_or_def by (metis list.distinct(1) list.sel(1))
  then have "pexpr g p1 = Some (Some n, p2)" using or_loop_leave u by fastforce
  moreover have "\<not> is_not G t" using assms(1) classes by blast
  ultimately show "\<exists>p'. pnot f p = Some (Some n, p') \<and> ready p' us k"
    using 1 f assms(1,3) ready_advance [OF 2(2) *(1)] by (auto simp: pnot)
qed

lemma reads_and_one: "reads_not ts n \<Longrightarrow> reads_and ts n"
  unfolding reads_and_def
proof (intro allI impI)
  fix us p f k
  assume r: "reads_not ts n" and *: "us \<noteq> []" "ready p (ts @ us) (k + nodes n)" "4 * length (ts @ us) + 2 \<le> f"
  then obtain g where f: "f = Suc (Suc g)" "4 * length (ts @ us) \<le> g" by (cases f; cases "f - 1") auto
  with r * obtain p1 where "pnot (Suc g) p = Some (Some n, p1)" "ready p1 us k"
    unfolding reads_not_def by (metis Suc_eq_plus1 Suc_le_mono)
  with f show "\<exists>p' g. pand f p = and_loop (Suc g) (Some n) p' \<and> 4 * length us \<le> g \<and> ready p' us k"
    by (intro exI [of _ p1] exI [of _ g]) (simp add: pand)
qed

lemma reads_and_more:
  assumes "reads_and ts l" "is_and G t" "reads_not vs r"
  shows "reads_and (ts @ t # vs) (node_and G (Some l) (Some r))"
  unfolding reads_and_def
proof (intro allI impI)
  fix us p f k
  assume *: "us \<noteq> []" "ready p ((ts @ t # vs) @ us) (k + nodes (node_and G (Some l) (Some r)))"
    "4 * length ((ts @ t # vs) @ us) + 2 \<le> f"
  have "ready p (ts @ t # vs @ us) ((Suc k + nodes r) + nodes l)"
    using *(2) by (simp add: nodes_bool add_ac)
  with assms(1) *(3) obtain p1 g where 1: "pand f p = and_loop (Suc g) (Some l) p1"
    "4 * length (t # vs @ us) \<le> g" "ready p1 (t # vs @ us) (Suc k + nodes r)"
    unfolding reads_and_def by (metis append_Cons append_assoc list.distinct(1))
  obtain p2 where 2: "peek p1 = Some t" "advance p1 = Some (t, p2)" "ready p2 (vs @ us) (Suc k + nodes r)"
    using ready_advance [OF 1(3)] *(1) by blast
  have "4 * length (vs @ us) + 1 \<le> g" using 1(2) by simp
  with assms(3) 2(3) *(1) obtain p3 where 3: "pnot g p2 = Some (Some r, p3)" "ready p3 us (Suc k)"
    unfolding reads_not_def by blast
  obtain p4 where 4: "mk (node_and G (Some l) (Some r)) p3 = (Some (node_and G (Some l) (Some r)), p4)"
    "ready p4 us k" using ready_mk [OF 3(2)] by blast
  have "pand f p = and_loop g (Some (node_and G (Some l) (Some r))) p4"
    unfolding 1(1) and_loop using 2 3 4 assms(2) stop by simp
  moreover obtain g' where "g = Suc g'" "4 * length us \<le> g'" using 1(2) by (cases g) auto
  ultimately show "\<exists>p' g. pand f p = and_loop (Suc g) (Some (node_and G (Some l) (Some r))) p'
      \<and> 4 * length us \<le> g \<and> ready p' us k"
    using 4(2) by blast
qed

lemma reads_or_one: "reads_and ts n \<Longrightarrow> reads_or ts n"
  unfolding reads_or_def
proof (intro allI impI)
  fix us p f k
  assume r: "reads_and ts n" and *: "us \<noteq> []" "\<not> is_and G (hd us)" "ready p (ts @ us) (k + nodes n)"
    "4 * length (ts @ us) + 3 \<le> f"
  then obtain g where f: "f = Suc (Suc g)" "4 * length (ts @ us) + 1 \<le> g" by (cases f; cases "f - 1") auto
  then have "4 * length (ts @ us) + 2 \<le> Suc g" by simp
  with r * obtain p1 h where 1: "pand (Suc g) p = and_loop (Suc h) (Some n) p1" "ready p1 us k"
    unfolding reads_and_def by blast
  then have "pand (Suc g) p = Some (Some n, p1)" using and_loop_leave *(2) by fastforce
  with f 1(2) show "\<exists>p' g. pexpr f p = or_loop (Suc g) (Some n) p' \<and> 4 * length us + 1 \<le> g \<and> ready p' us k"
    by (intro exI [of _ p1] exI [of _ g]) (simp add: pexpr)
qed

lemma reads_or_more:
  assumes "reads_or ts l" "is_or G t" "reads_and vs r"
  shows "reads_or (ts @ t # vs) (node_or G (Some l) (Some r))"
  unfolding reads_or_def
proof (intro allI impI)
  fix us p f k
  assume *: "us \<noteq> []" "\<not> is_and G (hd us)"
    "ready p ((ts @ t # vs) @ us) (k + nodes (node_or G (Some l) (Some r)))"
    "4 * length ((ts @ t # vs) @ us) + 3 \<le> f"
  have "ready p (ts @ t # vs @ us) ((Suc k + nodes r) + nodes l)" "\<not> is_and G (hd (t # vs @ us))"
    using *(3) assms(2) classes by (simp_all add: nodes_bool add_ac)
  with assms(1) *(4) obtain p1 g where 1: "pexpr f p = or_loop (Suc g) (Some l) p1"
    "4 * length (t # vs @ us) + 1 \<le> g" "ready p1 (t # vs @ us) (Suc k + nodes r)"
    unfolding reads_or_def by (metis append_Cons append_assoc list.distinct(1))
  obtain p2 where 2: "peek p1 = Some t" "advance p1 = Some (t, p2)" "ready p2 (vs @ us) (Suc k + nodes r)"
    using ready_advance [OF 1(3)] *(1) by blast
  have "4 * length (vs @ us) + 2 \<le> g" using 1(2) by simp
  with assms(3) 2(3) *(1) obtain p3 h where "pand g p2 = and_loop (Suc h) (Some r) p3" "ready p3 us (Suc k)"
    unfolding reads_and_def by blast
  then have 3: "pand g p2 = Some (Some r, p3)" "ready p3 us (Suc k)" using and_loop_leave *(2) by fastforce+
  obtain p4 where 4: "mk (node_or G (Some l) (Some r)) p3 = (Some (node_or G (Some l) (Some r)), p4)"
    "ready p4 us k" using ready_mk [OF 3(2)] by blast
  have "pexpr f p = or_loop g (Some (node_or G (Some l) (Some r))) p4"
    unfolding 1(1) or_loop using 2 3 4 assms(2) stop by simp
  moreover obtain g' where "g = Suc g'" "4 * length us + 1 \<le> g'" using 1(2) by (cases g) auto
  ultimately show "\<exists>p' g. pexpr f p = or_loop (Suc g) (Some (node_or G (Some l) (Some r))) p'
      \<and> 4 * length us + 1 \<le> g \<and> ready p' us k"
    using 4(2) by blast
qed

lemma complete:
  "not_expr G ts n \<Longrightarrow> reads_not ts n" "and_expr G ts n \<Longrightarrow> reads_and ts n" "or_expr G ts n \<Longrightarrow> reads_or ts n"
  by (induction rule: not_expr_and_expr_or_expr.inducts)
    (blast intro: reads_prim reads_neg reads_paren reads_and_one reads_and_more reads_or_one reads_or_more)+

text \<open>
  The whole parse of a token list: it returns, and it ends without failure in front of the end token
  exactly on the sentences whose nodes fit into the arena.
\<close>

theorem parse_iff:
  assumes "ok p" "\<not> bad p" "rest p = ts @ [e]" "4 * length (rest p) + 3 \<le> f"
  obtains n p' where "pexpr f p = Some (n, p')" "ok p'" "rest p' \<noteq> []"
    and "\<And>m. \<not> bad p' \<and> is_end G (hd (rest p')) \<and> n = Some m \<longleftrightarrow> or_expr G ts m \<and> nodes m \<le> room p"
    and "\<not> bad p' \<Longrightarrow> \<exists>m. n = Some m"
proof -
  have e: "is_end G e" "\<forall>u \<in> set ts. \<not> is_end G u" using rest [OF assms(1)] assms(3) by auto
  obtain n p' vs where 1: "pexpr f p = Some (n, p')" "ok p'" "rest p = vs @ rest p'"
    "\<not> bad p' \<Longrightarrow> \<exists>m. n = Some m \<and> or_expr G vs m \<and> room p = room p' + nodes m"
    using pexpr_outcome [OF assms(1,4)] by (rule outcomeE) blast
  have ne: "rest p' \<noteq> []" using rest [OF 1(2)] by auto
  have "\<not> bad p' \<and> is_end G (hd (rest p')) \<and> n = Some m \<longleftrightarrow> or_expr G ts m \<and> nodes m \<le> room p" for m
  proof
    assume *: "\<not> bad p' \<and> is_end G (hd (rest p')) \<and> n = Some m"
    obtain t us where "rest p' = t # us" using ne by (cases "rest p'") auto
    with * 1(3) assms(3) e have "vs = ts" by (cases us rule: rev_cases) auto
    with * 1(4) show "or_expr G ts m \<and> nodes m \<le> room p" by auto
  next
    assume *: "or_expr G ts m \<and> nodes m \<le> room p"
    then obtain k where k: "room p = k + nodes m" by (metis add.commute le_Suc_ex)
    have "\<not> is_and G e" "\<not> is_or G e" using e classes by auto
    moreover have "ready p (ts @ [e]) (k + nodes m)" using assms k by (simp add: ready_def)
    moreover have "4 * length (ts @ [e]) + 3 \<le> f" using assms(3,4) by simp
    ultimately obtain q g where "pexpr f p = or_loop (Suc g) (Some m) q" "ready q [e] k"
      using complete(3) * unfolding reads_or_def by (metis list.distinct(1) list.sel(1))
    with \<open>\<not> is_or G e\<close> have "pexpr f p = Some (Some m, q)" using or_loop_leave by fastforce
    with 1(1) \<open>ready q [e] k\<close> e show "\<not> bad p' \<and> is_end G (hd (rest p')) \<and> n = Some m"
      by (auto simp: ready_def)
  qed
  with 1 ne that show thesis by blast
qed

text \<open>The grammar is unambiguous on token lists the parser can be run on.\<close>

lemma unambiguous:
  assumes "or_expr G ts m" "or_expr G ts m'" "ok p" "\<not> bad p" "rest p = ts @ [e]"
    and "nodes m \<le> room p" "nodes m' \<le> room p"
  shows "m = m'"
proof (rule parse_iff [OF assms(3,4,5) order_refl])
  fix n p' assume "\<And>m. \<not> bad p' \<and> is_end G (hd (rest p')) \<and> n = Some m \<longleftrightarrow> or_expr G ts m \<and> nodes m \<le> room p"
  with assms(1,2,6,7) show "m = m'" by (metis option.inject)
qed

end

end
