(* ===== verification/Capfilter_Parser.thy ===== *)
theory Capfilter_Parser
  imports Capfilter_Lexer Recursive_Descent
begin

text \<open>
  The syntax tree and the recursive-descent parser of \<open>src/src/c/capfilter.c\<close>. Nodes are immutable
  once built and never shared, so a \<open>node_t\<close> pointer is the tree below it; a child pointer may be
  \<open>NULL\<close>, as in C, and the arena is represented by its node count. The parsing functions take fuel,
  and \<open>None\<close> stands for a read outside the token array or for exhausted fuel; the interpretation of
  \<open>recursive_descent\<close> shows that neither happens.
\<close>

subsection \<open>Syntax tree\<close>

datatype dir_t = DIR_SRC | DIR_DST

datatype node_t =
    N_AND "node_t option" "node_t option"
  | N_OR "node_t option" "node_t option"
  | N_NOT "node_t option"
  | N_ETHERTYPE u32
  | N_IPPROTO u32
  | N_HOST dir_t buf
  | N_PORT dir_t u32
  | N_NET dir_t buf u8

abbreviation ETHERTYPE_IPV4 :: u32 where "ETHERTYPE_IPV4 \<equiv> 0x0800"
abbreviation ETHERTYPE_IPV6 :: u32 where "ETHERTYPE_IPV6 \<equiv> 0x86DD"
abbreviation ETHERTYPE_ARP :: u32 where "ETHERTYPE_ARP \<equiv> 0x0806"
abbreviation IPPROTO_ICMP :: u32 where "IPPROTO_ICMP \<equiv> 1"
abbreviation IPPROTO_TCP :: u32 where "IPPROTO_TCP \<equiv> 6"
abbreviation IPPROTO_UDP :: u32 where "IPPROTO_UDP \<equiv> 17"

text \<open>\<open>parser_t\<close>: the context and the arena, which is a count of the nodes handed out.\<close>

record cf_parser =
  p_ctx :: cf_ctx_t
  arena_count :: nat

definition p_fail :: "string \<Rightarrow> cf_parser \<Rightarrow> cf_parser" where
  "p_fail msg p = p\<lparr>p_ctx := cf_fail msg (p_ctx p)\<rparr>"

definition mk_node :: "node_t \<Rightarrow> cf_parser \<Rightarrow> node_t option \<times> cf_parser" where
  "mk_node n p =
     (if failed (p_ctx p) then (None, p)
      else if arena_count p \<ge> CF_MAX_NODES then (None, p_fail ''filter expression is too complex'' p)
      else (Some n, p\<lparr>arena_count := arena_count p + 1\<rparr>))"

definition mk_and :: "node_t option \<Rightarrow> node_t option \<Rightarrow> cf_parser \<Rightarrow> node_t option \<times> cf_parser" where
  "mk_and l r p = mk_node (N_AND l r) p"

definition mk_or :: "node_t option \<Rightarrow> node_t option \<Rightarrow> cf_parser \<Rightarrow> node_t option \<times> cf_parser" where
  "mk_or l r p = mk_node (N_OR l r) p"

definition mk_ethertype :: "u32 \<Rightarrow> cf_parser \<Rightarrow> node_t option \<times> cf_parser" where
  "mk_ethertype ethertype p = mk_node (N_ETHERTYPE ethertype) p"

definition mk_ipproto :: "u32 \<Rightarrow> cf_parser \<Rightarrow> node_t option \<times> cf_parser" where
  "mk_ipproto proto p = mk_node (N_IPPROTO proto) p"

definition mk_host :: "dir_t \<Rightarrow> buf \<Rightarrow> cf_parser \<Rightarrow> node_t option \<times> cf_parser" where
  "mk_host dir addr p = mk_node (N_HOST dir addr) p"

definition mk_port :: "dir_t \<Rightarrow> u32 \<Rightarrow> cf_parser \<Rightarrow> node_t option \<times> cf_parser" where
  "mk_port dir port p = mk_node (N_PORT dir port) p"

definition mk_net :: "dir_t \<Rightarrow> buf \<Rightarrow> u8 \<Rightarrow> cf_parser \<Rightarrow> node_t option \<times> cf_parser" where
  "mk_net dir addr prefix_len p = mk_node (N_NET dir addr prefix_len) p"

text \<open>
  C leaves the order of the two argument calls open; either order hands out the same number of nodes
  and gives the same tree, so the model evaluates from left to right.
\<close>

definition mk_l4_proto :: "u32 \<Rightarrow> cf_parser \<Rightarrow> node_t option \<times> cf_parser" where
  "mk_l4_proto ip_proto p =
     (let (l, p) = mk_ethertype ETHERTYPE_IPV4 p;
          (r, p) = mk_ipproto ip_proto p
      in mk_and l r p)"

subsection \<open>Parsing\<close>

definition p_peek :: "cf_parser \<Rightarrow> token_t option" where
  "p_peek p =
     (let c = p_ctx p in
      if pos c < length (toks c) then Some (toks c ! pos c)
      else if pos c < CF_MAX_TOKENS then Some zero_tok else None)"

definition p_advance :: "cf_parser \<Rightarrow> (token_t \<times> cf_parser) option" where
  "p_advance p = do {
     t \<leftarrow> p_peek p;
     if tok_type t \<noteq> TOK_END then Some (t, p\<lparr>p_ctx := (p_ctx p)\<lparr>pos := pos (p_ctx p) + 1\<rparr>\<rparr>)
     else Some (t, p)
   }"

text \<open>The three productions with an operand, after their keyword; \<open>dir\<close> is \<open>None\<close> when \<open>has_dir\<close> is 0.\<close>

definition parse_host :: "dir_t option \<Rightarrow> cf_parser \<Rightarrow> (node_t option \<times> cf_parser) option" where
  "parse_host dir p = do {
     (_, p) \<leftarrow> p_advance p;
     (addr_tok, p) \<leftarrow> p_advance p;
     if tok_type addr_tok \<noteq> TOK_IPV4 then
       Some (None, p_fail (''expected an IPv4 address after 'host'' @ [CHR 0x27]) p)
     else Some (
       let (ip, p) = mk_ethertype ETHERTYPE_IPV4 p;
           (host, p) = (case dir of
               Some d \<Rightarrow> mk_host d (tok_addr addr_tok) p
             | None \<Rightarrow>
                 let (s, p) = mk_host DIR_SRC (tok_addr addr_tok) p;
                     (d, p) = mk_host DIR_DST (tok_addr addr_tok) p
                 in mk_or s d p)
       in mk_and ip host p)
   }"

definition parse_port :: "dir_t option \<Rightarrow> cf_parser \<Rightarrow> (node_t option \<times> cf_parser) option" where
  "parse_port dir p = do {
     (_, p) \<leftarrow> p_advance p;
     (num_tok, p) \<leftarrow> p_advance p;
     if tok_type num_tok \<noteq> TOK_NUMBER \<or> tok_num num_tok > 65535 then
       Some (None, p_fail (''expected a port number (0-65535) after 'port'' @ [CHR 0x27]) p)
     else Some (
       let (ip, p) = mk_ethertype ETHERTYPE_IPV4 p;
           (tcp, p) = mk_ipproto IPPROTO_TCP p;
           (udp, p) = mk_ipproto IPPROTO_UDP p;
           (is_tcp_or_udp, p) = mk_or tcp udp p;
           (port, p) = (case dir of
               Some d \<Rightarrow> mk_port d (tok_num num_tok) p
             | None \<Rightarrow>
                 let (s, p) = mk_port DIR_SRC (tok_num num_tok) p;
                     (d, p) = mk_port DIR_DST (tok_num num_tok) p
                 in mk_or s d p);
           (rest, p) = mk_and is_tcp_or_udp port p
       in mk_and ip rest p)
   }"

definition parse_net :: "dir_t option \<Rightarrow> cf_parser \<Rightarrow> (node_t option \<times> cf_parser) option" where
  "parse_net dir p = do {
     (_, p) \<leftarrow> p_advance p;
     (addr_tok, p) \<leftarrow> p_advance p;
     if tok_type addr_tok \<noteq> TOK_IPV4 then
       Some (None, p_fail (''expected an IPv4 network address after 'net'' @ [CHR 0x27]) p)
     else do {
       (slash_tok, p) \<leftarrow> p_advance p;
       if tok_type slash_tok \<noteq> TOK_SLASH then
         Some (None, p_fail (''expected '/' and a prefix length after 'net A.B.C.D'' @ [CHR 0x27]) p)
       else do {
         (len_tok, p) \<leftarrow> p_advance p;
         if tok_type len_tok \<noteq> TOK_NUMBER \<or> tok_num len_tok > 32 then
           Some (None, p_fail (''expected a prefix length (0-32) after 'net A.B.C.D/'' @ [CHR 0x27]) p)
         else Some (
           let prefix_len = ucast (tok_num len_tok);
               (ip, p) = mk_ethertype ETHERTYPE_IPV4 p;
               (net, p) = (case dir of
                   Some d \<Rightarrow> mk_net d (tok_addr addr_tok) prefix_len p
                 | None \<Rightarrow>
                     let (s, p) = mk_net DIR_SRC (tok_addr addr_tok) prefix_len p;
                         (d, p) = mk_net DIR_DST (tok_addr addr_tok) prefix_len p
                     in mk_or s d p)
           in mk_and ip net p)
       }
     }
   }"

text \<open>\<open>parse_primitive\<close> after the optional direction has been read.\<close>

definition parse_after_dir :: "dir_t option \<Rightarrow> cf_parser \<Rightarrow> (node_t option \<times> cf_parser) option" where
  "parse_after_dir dir p = do {
     t \<leftarrow> p_peek p;
     if dir \<noteq> None \<and> tok_type t \<noteq> TOK_HOST \<and> tok_type t \<noteq> TOK_PORT \<and> tok_type t \<noteq> TOK_NET then
       Some (None, p_fail (''expected 'host', 'port' or 'net' after 'src'/'dst'' @ [CHR 0x27]) p)
     else
       (case tok_type t of
          TOK_PROTO_TCP \<Rightarrow> do { (_, p) \<leftarrow> p_advance p; Some (mk_l4_proto IPPROTO_TCP p) }
        | TOK_PROTO_UDP \<Rightarrow> do { (_, p) \<leftarrow> p_advance p; Some (mk_l4_proto IPPROTO_UDP p) }
        | TOK_PROTO_ICMP \<Rightarrow> do { (_, p) \<leftarrow> p_advance p; Some (mk_l4_proto IPPROTO_ICMP p) }
        | TOK_PROTO_IP \<Rightarrow> do { (_, p) \<leftarrow> p_advance p; Some (mk_ethertype ETHERTYPE_IPV4 p) }
        | TOK_PROTO_IP6 \<Rightarrow> do { (_, p) \<leftarrow> p_advance p; Some (mk_ethertype ETHERTYPE_IPV6 p) }
        | TOK_PROTO_ARP \<Rightarrow> do { (_, p) \<leftarrow> p_advance p; Some (mk_ethertype ETHERTYPE_ARP p) }
        | TOK_HOST \<Rightarrow> parse_host dir p
        | TOK_PORT \<Rightarrow> parse_port dir p
        | TOK_NET \<Rightarrow> parse_net dir p
        | _ \<Rightarrow> Some (None, p_fail ''expected a filter primitive (tcp/udp/icmp/ip/ip6/arp/host/port/net)'' p))
   }"

definition parse_primitive :: "cf_parser \<Rightarrow> (node_t option \<times> cf_parser) option" where
  "parse_primitive p = do {
     t \<leftarrow> p_peek p;
     if tok_type t = TOK_SRC then do { (_, p) \<leftarrow> p_advance p; parse_after_dir (Some DIR_SRC) p }
     else if tok_type t = TOK_DST then do { (_, p) \<leftarrow> p_advance p; parse_after_dir (Some DIR_DST) p }
     else parse_after_dir None p
   }"

text \<open>
  The boolean operators. The loops of \<open>parse_and\<close> and \<open>parse_expr\<close> are functions of their own that
  carry \<open>left\<close>.
\<close>

fun parse_not :: "nat \<Rightarrow> cf_parser \<Rightarrow> (node_t option \<times> cf_parser) option"
  and parse_and :: "nat \<Rightarrow> cf_parser \<Rightarrow> (node_t option \<times> cf_parser) option"
  and parse_and_loop :: "nat \<Rightarrow> node_t option \<Rightarrow> cf_parser \<Rightarrow> (node_t option \<times> cf_parser) option"
  and parse_expr :: "nat \<Rightarrow> cf_parser \<Rightarrow> (node_t option \<times> cf_parser) option"
  and parse_expr_loop :: "nat \<Rightarrow> node_t option \<Rightarrow> cf_parser \<Rightarrow> (node_t option \<times> cf_parser) option"
where
  "parse_not 0 p = None"
| "parse_not (Suc fuel) p = do {
     t \<leftarrow> p_peek p;
     if tok_type t = TOK_NOT then do {
       (_, p) \<leftarrow> p_advance p;
       (operand, p) \<leftarrow> parse_not fuel p;
       Some (mk_node (N_NOT operand) p)
     } else if tok_type t = TOK_LPAREN then do {
       (_, p) \<leftarrow> p_advance p;
       (inner, p) \<leftarrow> parse_expr fuel p;
       (t, p) \<leftarrow> p_advance p;
       if tok_type t = TOK_RPAREN then Some (inner, p)
       else Some (None, p_fail (''expected ')'' @ [CHR 0x27]) p)
     } else parse_primitive p
   }"
| "parse_and 0 p = None"
| "parse_and (Suc fuel) p = do { (left, p) \<leftarrow> parse_not fuel p; parse_and_loop fuel left p }"
| "parse_and_loop 0 left p = None"
| "parse_and_loop (Suc fuel) left p = do {
     t \<leftarrow> p_peek p;
     if tok_type t = TOK_AND then do {
       (_, p) \<leftarrow> p_advance p;
       (right, p) \<leftarrow> parse_not fuel p;
       let (left, p) = mk_and left right p;
       parse_and_loop fuel left p
     } else Some (left, p)
   }"
| "parse_expr 0 p = None"
| "parse_expr (Suc fuel) p = do { (left, p) \<leftarrow> parse_and fuel p; parse_expr_loop fuel left p }"
| "parse_expr_loop 0 left p = None"
| "parse_expr_loop (Suc fuel) left p = do {
     t \<leftarrow> p_peek p;
     if tok_type t = TOK_OR then do {
       (_, p) \<leftarrow> p_advance p;
       (right, p) \<leftarrow> parse_and fuel p;
       let (left, p) = mk_or left right p;
       parse_expr_loop fuel left p
     } else Some (left, p)
   }"

subsection \<open>The language\<close>

fun node_count :: "node_t \<Rightarrow> nat" where
  "node_count (N_AND l r) = Suc ((case l of None \<Rightarrow> 0 | Some n \<Rightarrow> node_count n)
     + (case r of None \<Rightarrow> 0 | Some n \<Rightarrow> node_count n))"
| "node_count (N_OR l r) = Suc ((case l of None \<Rightarrow> 0 | Some n \<Rightarrow> node_count n)
     + (case r of None \<Rightarrow> 0 | Some n \<Rightarrow> node_count n))"
| "node_count (N_NOT l) = Suc (case l of None \<Rightarrow> 0 | Some n \<Rightarrow> node_count n)"
| "node_count _ = 1"

definition under_ipv4 :: "node_t \<Rightarrow> node_t" where
  "under_ipv4 n = N_AND (Some (N_ETHERTYPE ETHERTYPE_IPV4)) (Some n)"

definition either_dir :: "dir_t option \<Rightarrow> (dir_t \<Rightarrow> node_t) \<Rightarrow> node_t" where
  "either_dir dir f =
     (case dir of Some d \<Rightarrow> f d | None \<Rightarrow> N_OR (Some (f DIR_SRC)) (Some (f DIR_DST)))"

definition tcp_or_udp :: node_t where
  "tcp_or_udp = N_OR (Some (N_IPPROTO IPPROTO_TCP)) (Some (N_IPPROTO IPPROTO_UDP))"

inductive cf_dir :: "token_t list \<Rightarrow> dir_t option \<Rightarrow> bool" where
  "cf_dir [] None"
| "tok_type t = TOK_SRC \<Longrightarrow> cf_dir [t] (Some DIR_SRC)"
| "tok_type t = TOK_DST \<Longrightarrow> cf_dir [t] (Some DIR_DST)"

inductive cf_operand :: "dir_t option \<Rightarrow> token_t list \<Rightarrow> node_t \<Rightarrow> bool" for dir where
  host: "tok_type h = TOK_HOST \<Longrightarrow> tok_type a = TOK_IPV4 \<Longrightarrow>
    cf_operand dir [h, a] (under_ipv4 (either_dir dir (\<lambda>d. N_HOST d (tok_addr a))))"
| port: "tok_type h = TOK_PORT \<Longrightarrow> tok_type v = TOK_NUMBER \<Longrightarrow> unat (tok_num v) \<le> 65535 \<Longrightarrow>
    cf_operand dir [h, v] (under_ipv4 (N_AND (Some tcp_or_udp)
      (Some (either_dir dir (\<lambda>d. N_PORT d (tok_num v))))))"
| net: "tok_type h = TOK_NET \<Longrightarrow> tok_type a = TOK_IPV4 \<Longrightarrow> tok_type s = TOK_SLASH \<Longrightarrow>
    tok_type v = TOK_NUMBER \<Longrightarrow> unat (tok_num v) \<le> 32 \<Longrightarrow>
    cf_operand dir [h, a, s, v]
      (under_ipv4 (either_dir dir (\<lambda>d. N_NET d (tok_addr a) (ucast (tok_num v)))))"

text \<open>\<open>primitive\<close> of the grammar in \<open>capfilter.h\<close>, with the tree it stands for.\<close>

inductive cf_primitive :: "token_t list \<Rightarrow> node_t \<Rightarrow> bool" where
  tcp: "tok_type t = TOK_PROTO_TCP \<Longrightarrow> cf_primitive [t] (under_ipv4 (N_IPPROTO IPPROTO_TCP))"
| udp: "tok_type t = TOK_PROTO_UDP \<Longrightarrow> cf_primitive [t] (under_ipv4 (N_IPPROTO IPPROTO_UDP))"
| icmp: "tok_type t = TOK_PROTO_ICMP \<Longrightarrow> cf_primitive [t] (under_ipv4 (N_IPPROTO IPPROTO_ICMP))"
| ip: "tok_type t = TOK_PROTO_IP \<Longrightarrow> cf_primitive [t] (N_ETHERTYPE ETHERTYPE_IPV4)"
| ip6: "tok_type t = TOK_PROTO_IP6 \<Longrightarrow> cf_primitive [t] (N_ETHERTYPE ETHERTYPE_IPV6)"
| arp: "tok_type t = TOK_PROTO_ARP \<Longrightarrow> cf_primitive [t] (N_ETHERTYPE ETHERTYPE_ARP)"
| operand: "cf_dir ds dir \<Longrightarrow> cf_operand dir ts n \<Longrightarrow> cf_primitive (ds @ ts) n"

definition cf_syntax :: "(token_t, node_t) bool_syntax" where
  "cf_syntax = \<lparr>is_not = (\<lambda>t. tok_type t = TOK_NOT), is_lparen = (\<lambda>t. tok_type t = TOK_LPAREN),
     is_rparen = (\<lambda>t. tok_type t = TOK_RPAREN), is_and = (\<lambda>t. tok_type t = TOK_AND),
     is_or = (\<lambda>t. tok_type t = TOK_OR), is_end = (\<lambda>t. tok_type t = TOK_END),
     node_not = N_NOT, node_and = N_AND, node_or = N_OR, primitive = cf_primitive\<rparr>"

lemma cf_syntax_select:
  "is_not cf_syntax = (\<lambda>t. tok_type t = TOK_NOT)" "is_lparen cf_syntax = (\<lambda>t. tok_type t = TOK_LPAREN)"
  "is_rparen cf_syntax = (\<lambda>t. tok_type t = TOK_RPAREN)" "is_and cf_syntax = (\<lambda>t. tok_type t = TOK_AND)"
  "is_or cf_syntax = (\<lambda>t. tok_type t = TOK_OR)" "is_end cf_syntax = (\<lambda>t. tok_type t = TOK_END)"
  "node_not cf_syntax = N_NOT" "node_and cf_syntax = N_AND" "node_or cf_syntax = N_OR"
  "primitive cf_syntax = cf_primitive"
  by (simp_all add: cf_syntax_def)

subsection \<open>Cursor and arena\<close>

definition cf_rest :: "cf_parser \<Rightarrow> token_t list" where
  "cf_rest p = drop (pos (p_ctx p)) (toks (p_ctx p))"

definition cf_room :: "cf_parser \<Rightarrow> nat" where
  "cf_room p = CF_MAX_NODES - arena_count p"

definition cf_ok :: "cf_parser \<Rightarrow> bool" where
  "cf_ok p \<longleftrightarrow> arena_count p \<le> CF_MAX_NODES
     \<and> (\<exists>ts t. cf_rest p = ts @ [t] \<and> tok_type t = TOK_END \<and> (\<forall>u \<in> set ts. tok_type u \<noteq> TOK_END))"

abbreviation cf_bad :: "cf_parser \<Rightarrow> bool" where
  "cf_bad p \<equiv> failed (p_ctx p)"

definition skip :: "cf_parser \<Rightarrow> cf_parser" where
  "skip p = (if tok_type (hd (cf_rest p)) \<noteq> TOK_END
     then p\<lparr>p_ctx := (p_ctx p)\<lparr>pos := pos (p_ctx p) + 1\<rparr>\<rparr> else p)"

lemma p_fail_simps [simp]:
  "cf_rest (p_fail msg p) = cf_rest p" "cf_bad (p_fail msg p)" "cf_room (p_fail msg p) = cf_room p"
  "cf_ok (p_fail msg p) = cf_ok p"
  by (simp_all add: p_fail_def cf_rest_def cf_room_def cf_ok_def)

lemma p_peek_ok: "cf_ok p \<Longrightarrow> p_peek p = Some (hd (cf_rest p))"
  by (cases "pos (p_ctx p) < length (toks (p_ctx p))")
    (auto simp: cf_ok_def cf_rest_def p_peek_def Let_def hd_drop_conv_nth)

lemma p_advance_ok: "cf_ok p \<Longrightarrow> p_advance p = Some (hd (cf_rest p), skip p)"
  by (simp add: p_advance_def p_peek_ok skip_def)

lemma skip_simps [simp]:
  "cf_bad (skip p) = cf_bad p" "cf_room (skip p) = cf_room p" "arena_count (skip p) = arena_count p"
  "cf_rest (skip p) = (if tok_type (hd (cf_rest p)) = TOK_END then cf_rest p else tl (cf_rest p))"
  by (auto simp: skip_def cf_room_def cf_rest_def drop_Suc tl_drop)

lemma cf_ok_skip [simp]: "cf_ok p \<Longrightarrow> cf_ok (skip p)"
  unfolding cf_ok_def skip_simps
  by (auto simp: tl_append hd_append split: list.splits if_splits)

lemma cf_rest_nonempty: "cf_ok p \<Longrightarrow> cf_rest p \<noteq> []"
  by (auto simp: cf_ok_def)

text \<open>Allocating a whole tree of \<open>k\<close> nodes at once; a chain of \<open>mk_\<close> calls does exactly that.\<close>

definition alloc :: "nat \<Rightarrow> node_t \<Rightarrow> cf_parser \<Rightarrow> node_t option \<times> cf_parser" where
  "alloc k n p =
     (if failed (p_ctx p) then (None, p)
      else if arena_count p + k \<le> CF_MAX_NODES then (Some n, p\<lparr>arena_count := arena_count p + k\<rparr>)
      else (None, p_fail ''filter expression is too complex'' (p\<lparr>arena_count := CF_MAX_NODES\<rparr>)))"

lemma arena_full: "arena_count p = 256 \<Longrightarrow> p\<lparr>arena_count := 256\<rparr> = p" for p :: cf_parser
  by (cases p) simp

lemma mk_node_alloc: "arena_count p \<le> 256 \<Longrightarrow> mk_node n p = alloc 1 n p"
  by (cases "arena_count p = 256") (auto simp: mk_node_def alloc_def arena_full)

lemma arena_count_p_fail [simp]: "arena_count (p_fail msg p) = arena_count p"
  by (simp add: p_fail_def)

lemma arena_count_alloc: "arena_count p \<le> 256 \<Longrightarrow> alloc k n p = (r, p') \<Longrightarrow> arena_count p' \<le> 256"
  by (auto simp: alloc_def split: if_splits)

lemma alloc_outcome:
  assumes "cf_ok p" "alloc k n p = (r, p')"
  shows "cf_ok p'" "cf_rest p' = cf_rest p" "cf_bad p \<Longrightarrow> cf_bad p'"
    "\<not> cf_bad p' \<Longrightarrow> r = Some n \<and> cf_room p = cf_room p' + k"
    "\<not> cf_bad p \<Longrightarrow> k \<le> cf_room p \<Longrightarrow> \<not> cf_bad p'"
  using assms by (auto simp: alloc_def cf_ok_def cf_room_def cf_rest_def p_fail_def split: if_splits)

lemma mk_l4_proto_alloc:
  "cf_ok p \<Longrightarrow> mk_l4_proto k p = alloc 3 (under_ipv4 (N_IPPROTO k)) p"
  by (auto simp: mk_l4_proto_def mk_ethertype_def mk_ipproto_def mk_and_def mk_node_def alloc_def
      under_ipv4_def p_fail_def cf_ok_def)

text \<open>The three operand productions, as token tests followed by one allocation.\<close>

lemma parse_host_ok:
  assumes "cf_ok p"
  shows "parse_host dir p = (let p1 = skip p; a = hd (cf_rest p1); p2 = skip p1 in
    if tok_type a \<noteq> TOK_IPV4 then Some (None, p_fail (''expected an IPv4 address after 'host'' @ [CHR 0x27]) p2)
    else Some (alloc (case dir of Some _ \<Rightarrow> 3 | None \<Rightarrow> 5)
      (under_ipv4 (either_dir dir (\<lambda>d. N_HOST d (tok_addr a)))) p2))"
proof -
  have "arena_count p \<le> 256" using assms by (simp add: cf_ok_def)
  then show ?thesis
    using assms
    by (auto simp: parse_host_def p_advance_ok Let_def mk_host_def mk_ethertype_def mk_and_def mk_or_def
        under_ipv4_def either_dir_def mk_node_def alloc_def p_fail_def split: option.split)
qed

lemma parse_port_ok:
  assumes "cf_ok p"
  shows "parse_port dir p = (let p1 = skip p; v = hd (cf_rest p1); p2 = skip p1 in
    if tok_type v \<noteq> TOK_NUMBER \<or> tok_num v > 65535
    then Some (None, p_fail (''expected a port number (0-65535) after 'port'' @ [CHR 0x27]) p2)
    else Some (alloc (case dir of Some _ \<Rightarrow> 7 | None \<Rightarrow> 9)
      (under_ipv4 (N_AND (Some tcp_or_udp) (Some (either_dir dir (\<lambda>d. N_PORT d (tok_num v)))))) p2))"
proof -
  have "arena_count p \<le> 256" using assms by (simp add: cf_ok_def)
  then show ?thesis
    using assms
    by (auto simp: parse_port_def p_advance_ok Let_def mk_port_def mk_ethertype_def mk_ipproto_def mk_and_def
        mk_or_def under_ipv4_def either_dir_def tcp_or_udp_def mk_node_def alloc_def p_fail_def
        split: option.split)
qed

lemma parse_net_ok:
  assumes "cf_ok p"
  shows "parse_net dir p = (let p1 = skip p; a = hd (cf_rest p1); p2 = skip p1; s = hd (cf_rest p2);
      p3 = skip p2; v = hd (cf_rest p3); p4 = skip p3 in
    if tok_type a \<noteq> TOK_IPV4
    then Some (None, p_fail (''expected an IPv4 network address after 'net'' @ [CHR 0x27]) p2)
    else if tok_type s \<noteq> TOK_SLASH
    then Some (None, p_fail (''expected '/' and a prefix length after 'net A.B.C.D'' @ [CHR 0x27]) p3)
    else if tok_type v \<noteq> TOK_NUMBER \<or> tok_num v > 32
    then Some (None, p_fail (''expected a prefix length (0-32) after 'net A.B.C.D/'' @ [CHR 0x27]) p4)
    else Some (alloc (case dir of Some _ \<Rightarrow> 3 | None \<Rightarrow> 5)
      (under_ipv4 (either_dir dir (\<lambda>d. N_NET d (tok_addr a) (ucast (tok_num v))))) p4))"
proof -
  have "arena_count p \<le> 256" using assms by (simp add: cf_ok_def)
  then show ?thesis
    using assms
    by (auto simp: parse_net_def p_advance_ok Let_def mk_net_def mk_ethertype_def mk_and_def mk_or_def
        under_ipv4_def either_dir_def mk_node_def alloc_def p_fail_def split: option.split)
qed

subsection \<open>Primitives against the grammar\<close>

text \<open>The outcome of a parsing step that reads the sentences of \<open>L\<close>.\<close>

definition reads :: "(token_t list \<Rightarrow> node_t \<Rightarrow> bool) \<Rightarrow> cf_parser \<Rightarrow> (node_t option \<times> cf_parser) option \<Rightarrow> bool" where
  "reads L p r \<longleftrightarrow> (\<exists>n p' ts. r = Some (n, p') \<and> cf_ok p' \<and> cf_rest p = ts @ cf_rest p' \<and> (cf_bad p \<longrightarrow> cf_bad p')
     \<and> (\<not> cf_bad p' \<longrightarrow> (\<exists>m. n = Some m \<and> L ts m \<and> cf_room p = cf_room p' + node_count m)))"

lemma reads_fail: "cf_ok p \<Longrightarrow> reads L p (Some (None, p_fail msg p))"
  unfolding reads_def by auto

lemma reads_alloc:
  assumes "cf_ok p" "L [] n" "node_count n = k"
  shows "reads L p (Some (alloc k n p))"
proof -
  obtain r p' where a: "alloc k n p = (r, p')" by (meson surj_pair)
  show ?thesis
    unfolding reads_def using alloc_outcome [OF assms(1) a] assms a
    by (intro exI [of _ r] exI [of _ p'] exI [of _ "[]"]) auto
qed

text \<open>Reading one token first.\<close>

lemma reads_skip:
  assumes "cf_ok p" "reads L (skip p) r"
    and "\<And>ts m. L ts m \<Longrightarrow> tok_type (hd (cf_rest p)) \<noteq> TOK_END \<and> M (hd (cf_rest p) # ts) m"
  shows "reads M p r"
proof -
  obtain n p' ts where r: "r = Some (n, p')" "cf_ok p'" "cf_rest (skip p) = ts @ cf_rest p'" "cf_bad p \<longrightarrow> cf_bad p'"
    "\<not> cf_bad p' \<longrightarrow> (\<exists>m. n = Some m \<and> L ts m \<and> cf_room p = cf_room p' + node_count m)"
    using assms(2) unfolding reads_def by auto
  show ?thesis
  proof (cases "tok_type (hd (cf_rest p)) = TOK_END")
    case True
    with r assms(3) show ?thesis
      unfolding reads_def by (intro exI [of _ n] exI [of _ p'] exI [of _ ts]) auto
  next
    case False
    with r(3) cf_rest_nonempty [OF assms(1)] have "cf_rest p = (hd (cf_rest p) # ts) @ cf_rest p'"
      by (cases "cf_rest p") auto
    with r assms(3) show ?thesis
      unfolding reads_def
      by (intro exI [of _ n] exI [of _ p'] exI [of _ "hd (cf_rest p) # ts"]) auto
  qed
qed

lemma either_dir_count:
  "(\<And>d. node_count (f d) = 1) \<Longrightarrow> node_count (either_dir dir f) = (case dir of Some _ \<Rightarrow> 1 | None \<Rightarrow> 3)"
  by (auto simp: either_dir_def split: option.split)

lemma under_ipv4_count: "node_count (under_ipv4 n) = node_count n + 2"
  by (simp add: under_ipv4_def)

lemma tcp_or_udp_count: "node_count tcp_or_udp = 3"
  by (simp add: tcp_or_udp_def)

lemmas primitive_counts = either_dir_count under_ipv4_count tcp_or_udp_count

lemma u32_le: "\<not> v > 65535 \<Longrightarrow> unat v \<le> 65535" "\<not> v > 32 \<Longrightarrow> unat v \<le> 32" for v :: u32
  by (simp_all add: word_less_nat_alt)

lemma parse_host_reads:
  assumes "cf_ok p" "tok_type (hd (cf_rest p)) = TOK_HOST"
  shows "reads (cf_operand dir) p (parse_host dir p)"
  unfolding parse_host_ok [OF assms(1)] Let_def
proof (split if_split, intro conjI impI)
  let ?a = "hd (cf_rest (skip p))"
  show "reads (cf_operand dir) p (Some (None, p_fail msg (skip (skip p))))" for msg
    using assms by (intro reads_skip [of p "\<lambda>_ _. False"] reads_skip [of "skip p" "\<lambda>_ _. False"] reads_fail) simp_all
  assume "\<not> tok_type ?a \<noteq> TOK_IPV4"
  then show "reads (cf_operand dir) p (Some (alloc (case dir of Some _ \<Rightarrow> 3 | None \<Rightarrow> 5)
      (under_ipv4 (either_dir dir (\<lambda>d. N_HOST d (tok_addr ?a)))) (skip (skip p))))"
    using assms cf_operand.host [of "hd (cf_rest p)" ?a dir]
    by (intro reads_skip [of p "\<lambda>ts. cf_operand dir (hd (cf_rest p) # ts)"]
        reads_skip [of "skip p" "\<lambda>ts. cf_operand dir (hd (cf_rest p) # ?a # ts)"] reads_alloc)
      (simp_all add: primitive_counts split: option.split)
qed

lemma parse_port_reads:
  assumes "cf_ok p" "tok_type (hd (cf_rest p)) = TOK_PORT"
  shows "reads (cf_operand dir) p (parse_port dir p)"
  unfolding parse_port_ok [OF assms(1)] Let_def
proof (split if_split, intro conjI impI)
  let ?v = "hd (cf_rest (skip p))"
  show "reads (cf_operand dir) p (Some (None, p_fail msg (skip (skip p))))" for msg
    using assms by (intro reads_skip [of p "\<lambda>_ _. False"] reads_skip [of "skip p" "\<lambda>_ _. False"] reads_fail) simp_all
  assume "\<not> (tok_type ?v \<noteq> TOK_NUMBER \<or> tok_num ?v > 65535)"
  then have "tok_type ?v = TOK_NUMBER" "unat (tok_num ?v) \<le> 65535" by (simp_all add: u32_le)
  then show "reads (cf_operand dir) p (Some (alloc (case dir of Some _ \<Rightarrow> 7 | None \<Rightarrow> 9)
      (under_ipv4 (N_AND (Some tcp_or_udp) (Some (either_dir dir (\<lambda>d. N_PORT d (tok_num ?v))))))
      (skip (skip p))))"
    using assms cf_operand.port [of "hd (cf_rest p)" ?v dir]
    by (intro reads_skip [of p "\<lambda>ts. cf_operand dir (hd (cf_rest p) # ts)"]
        reads_skip [of "skip p" "\<lambda>ts. cf_operand dir (hd (cf_rest p) # ?v # ts)"] reads_alloc)
      (simp_all add: primitive_counts split: option.split)
qed

lemma parse_net_reads:
  assumes "cf_ok p" "tok_type (hd (cf_rest p)) = TOK_NET"
  shows "reads (cf_operand dir) p (parse_net dir p)"
proof -
  let ?p1 = "skip p" let ?p2 = "skip ?p1" let ?p3 = "skip ?p2" let ?p4 = "skip ?p3"
  let ?h = "hd (cf_rest p)" let ?a = "hd (cf_rest ?p1)" let ?s = "hd (cf_rest ?p2)" let ?v = "hd (cf_rest ?p3)"
  have fail: "reads L p (Some (None, p_fail msg ?p2))" "reads L p (Some (None, p_fail msg ?p3))"
    "reads L p (Some (None, p_fail msg ?p4))" for L msg
    using assms(1)
    by (intro reads_skip [of p "\<lambda>_ _. False"] reads_skip [of ?p1 "\<lambda>_ _. False"]
        reads_skip [of ?p2 "\<lambda>_ _. False"] reads_skip [of ?p3 "\<lambda>_ _. False"] reads_fail; simp)+
  have accept: "reads (cf_operand dir) p (Some (alloc (case dir of Some _ \<Rightarrow> 3 | None \<Rightarrow> 5)
      (under_ipv4 (either_dir dir (\<lambda>d. N_NET d (tok_addr ?a) (ucast (tok_num ?v))))) ?p4))"
    if "tok_type ?a = TOK_IPV4" "tok_type ?s = TOK_SLASH" "tok_type ?v = TOK_NUMBER" "unat (tok_num ?v) \<le> 32"
    using assms that cf_operand.net [of ?h ?a ?s ?v dir]
    by (intro reads_skip [of p "\<lambda>ts. cf_operand dir (?h # ts)"]
        reads_skip [of ?p1 "\<lambda>ts. cf_operand dir (?h # ?a # ts)"]
        reads_skip [of ?p2 "\<lambda>ts. cf_operand dir (?h # ?a # ?s # ts)"]
        reads_skip [of ?p3 "\<lambda>ts. cf_operand dir (?h # ?a # ?s # ?v # ts)"] reads_alloc)
      (simp_all add: primitive_counts del: skip_simps(4) split: option.split)
  show ?thesis
    unfolding parse_net_ok [OF assms(1)] Let_def
    by (cases "tok_type ?a = TOK_IPV4"; cases "tok_type ?s = TOK_SLASH"; cases "tok_type ?v = TOK_NUMBER";
        cases "tok_num ?v > 32") (simp_all only: simp_thms if_True if_False fail accept u32_le)
qed

text \<open>What may follow a direction, and what may stand without one.\<close>

definition cf_tail :: "dir_t option \<Rightarrow> token_t list \<Rightarrow> node_t \<Rightarrow> bool" where
  "cf_tail dir ts n \<longleftrightarrow> cf_operand dir ts n \<or> dir = None \<and> cf_primitive ts n"

lemma reads_mono: "reads L p r \<Longrightarrow> (\<And>ts n. L ts n \<Longrightarrow> M ts n) \<Longrightarrow> reads M p r"
  unfolding reads_def by blast

lemma reads_word:
  assumes "cf_ok p" "tok_type (hd (cf_rest p)) \<noteq> TOK_END" "M [hd (cf_rest p)] n" "node_count n = k"
  shows "reads M p (Some (alloc k n (skip p)))"
  using assms by (intro reads_skip [of p "\<lambda>ts. M (hd (cf_rest p) # ts)"] reads_alloc) simp_all

lemma mk_ethertype_alloc: "cf_ok p \<Longrightarrow> mk_ethertype e p = alloc 1 (N_ETHERTYPE e) p"
  by (simp add: mk_ethertype_def mk_node_alloc cf_ok_def)

lemma parse_after_dir_reads:
  assumes "cf_ok p"
  shows "reads (cf_tail dir) p (parse_after_dir dir p)"
proof (cases "dir \<noteq> None \<and> tok_type (hd (cf_rest p)) \<notin> {TOK_HOST, TOK_PORT, TOK_NET}")
  case True
  with assms show ?thesis by (auto simp: parse_after_dir_def p_peek_ok intro: reads_fail)
next
  case False
  have operand: "reads (cf_tail d) p r" if "reads (cf_operand d) p r" for d r
    using that by (rule reads_mono) (simp add: cf_tail_def)
  note cases = reads_fail [OF assms] operand [OF parse_host_reads [OF assms]]
    operand [OF parse_port_reads [OF assms]] operand [OF parse_net_reads [OF assms]]
  note word = reads_word [OF assms, of "cf_tail None"]
  show ?thesis
    using False assms
    by (cases "tok_type (hd (cf_rest p))")
      (auto simp: parse_after_dir_def p_peek_ok p_advance_ok mk_l4_proto_alloc mk_ethertype_alloc
        under_ipv4_count cf_tail_def [of None "[_]"] cf_primitive.intros intro!: cases word)
qed

lemma parse_primitive_reads:
  assumes "cf_ok p"
  shows "reads cf_primitive p (parse_primitive p)"
proof -
  note tail = parse_after_dir_reads [OF cf_ok_skip [OF assms]]
  let ?t = "hd (cf_rest p)"
  have dir: "reads cf_primitive p (parse_after_dir (Some d) (skip p))" if "cf_dir [?t] (Some d)" for d
  proof (rule reads_skip [OF assms tail])
    fix ts m assume "cf_tail (Some d) ts m"
    with cf_primitive.operand [OF that, of ts m] show "tok_type ?t \<noteq> TOK_END \<and> cf_primitive (?t # ts) m"
      using that by (auto simp: cf_tail_def elim: cf_dir.cases)
  qed
  have "reads cf_primitive p (parse_after_dir None p)"
    by (rule reads_mono [OF parse_after_dir_reads [OF assms]])
      (use cf_primitive.operand [of "[]" None] in \<open>auto simp: cf_tail_def cf_dir.intros\<close>)
  with dir assms show ?thesis
    by (simp add: parse_primitive_def p_peek_ok p_advance_ok cf_dir.intros)
qed

text \<open>Conversely, a primitive whose nodes fit is accepted.\<close>

definition accepts :: "cf_parser \<Rightarrow> node_t \<Rightarrow> token_t list \<Rightarrow> (node_t option \<times> cf_parser) option \<Rightarrow> bool" where
  "accepts p n us r \<longleftrightarrow> (\<exists>p'. r = Some (Some n, p') \<and> cf_ok p' \<and> \<not> cf_bad p' \<and> cf_rest p' = us
     \<and> cf_room p = cf_room p' + node_count n)"

lemma accepts_alloc:
  assumes "cf_ok q" "\<not> cf_bad q" "cf_rest q = us" "cf_room q = cf_room p" "node_count n = k" "node_count n \<le> cf_room p"
  shows "accepts p n us (Some (alloc k n q))"
proof -
  obtain r p' where a: "alloc k n q = (r, p')" by (meson surj_pair)
  with alloc_outcome [OF assms(1) a] assms show ?thesis by (auto simp: accepts_def)
qed

lemma parse_after_dir_operand:
  assumes "cf_ok p" "\<not> cf_bad p" "cf_operand dir ts n" "cf_rest p = ts @ us" "node_count n \<le> cf_room p"
  shows "accepts p n us (parse_after_dir dir p)"
  using assms(3)
proof cases
  case (host h a)
  with assms show ?thesis
    by (auto simp: parse_after_dir_def p_peek_ok parse_host_ok Let_def primitive_counts
        intro!: accepts_alloc split: option.split)
next
  case (port h v)
  with assms show ?thesis
    by (auto simp: parse_after_dir_def p_peek_ok parse_port_ok Let_def primitive_counts word_less_nat_alt
        intro!: accepts_alloc split: option.split)
next
  case (net h a s v)
  with assms show ?thesis
    by (auto simp: parse_after_dir_def p_peek_ok parse_net_ok Let_def primitive_counts word_less_nat_alt
        intro!: accepts_alloc split: option.split)
qed

lemma parse_primitive_accepts:
  assumes "cf_ok p" "\<not> cf_bad p" "cf_primitive ts n" "cf_rest p = ts @ us" "node_count n \<le> cf_room p"
  shows "accepts p n us (parse_primitive p)"
  using assms(3)
proof cases
  case (operand ds dir ts')
  from operand(2) show ?thesis
  proof cases
    case 1
    with operand assms have "tok_type (hd (cf_rest p)) \<noteq> TOK_SRC" "tok_type (hd (cf_rest p)) \<noteq> TOK_DST"
      by (auto elim: cf_operand.cases)
    with 1 operand assms parse_after_dir_operand [of p dir ts' n us] show ?thesis
      by (simp add: parse_primitive_def p_peek_ok)
  next
    case (2 t)
    with operand assms parse_after_dir_operand [of "skip p" dir ts' n us] show ?thesis
      by (simp add: parse_primitive_def p_peek_ok p_advance_ok accepts_def)
  next
    case (3 t)
    with operand assms parse_after_dir_operand [of "skip p" dir ts' n us] show ?thesis
      by (simp add: parse_primitive_def p_peek_ok p_advance_ok accepts_def)
  qed
qed (use assms in \<open>simp_all add: parse_primitive_def parse_after_dir_def p_peek_ok p_advance_ok
      mk_l4_proto_alloc mk_ethertype_alloc under_ipv4_count accepts_alloc\<close>)

lemma cf_primitive_start:
  "cf_primitive ts n \<Longrightarrow> ts \<noteq> [] \<and> tok_type (hd ts) \<noteq> TOK_NOT \<and> tok_type (hd ts) \<noteq> TOK_LPAREN"
  by (auto elim!: cf_primitive.cases cf_dir.cases cf_operand.cases)

subsection \<open>The parser implements the grammar\<close>

interpretation cf: recursive_descent cf_syntax parse_not parse_and parse_expr parse_and_loop parse_expr_loop
  parse_primitive p_peek p_advance mk_node "p_fail (''expected ')'' @ [CHR 0x27])" "\<lambda>_. False"
  cf_ok cf_rest "\<lambda>p. failed (p_ctx p)" cf_room node_count
proof
  fix p :: cf_parser assume p: "cf_ok p"
  show "\<exists>ts t. cf_rest p = ts @ [t] \<and> is_end cf_syntax t \<and> (\<forall>u \<in> set ts. \<not> is_end cf_syntax u)"
    using p by (simp add: cf_ok_def cf_syntax_def)
  show "p_peek p = Some (hd (cf_rest p))" by (rule p_peek_ok [OF p])
  show "\<exists>p'. p_advance p = Some (hd (cf_rest p), p') \<and> cf_ok p' \<and> cf_bad p' = cf_bad p \<and> cf_room p' = cf_room p
      \<and> cf_rest p' = (if is_end cf_syntax (hd (cf_rest p)) then cf_rest p else tl (cf_rest p))"
    using p by (simp add: p_advance_ok cf_syntax_def)
  show "\<exists>p'. mk_node m p = (Some m, p') \<and> cf_ok p' \<and> \<not> cf_bad p' \<and> cf_rest p' = cf_rest p \<and> cf_room p' = cf_room p - 1"
    if "\<not> cf_bad p" "0 < cf_room p" for m
    using p that by (auto simp: mk_node_def cf_ok_def cf_room_def cf_rest_def)
  show "\<exists>p'. mk_node m p = (None, p') \<and> cf_ok p' \<and> cf_bad p' \<and> cf_rest p' = cf_rest p"
    if "cf_bad p \<or> cf_room p = 0" for m
    using p that by (auto simp: mk_node_def cf_ok_def cf_room_def)
  show "\<exists>n p' ts. parse_primitive p = Some (n, p') \<and> cf_ok p' \<and> cf_rest p = ts @ cf_rest p' \<and> (cf_bad p \<longrightarrow> cf_bad p')"
    using parse_primitive_reads [OF p] unfolding reads_def by blast
  show "\<exists>ts m. n = Some m \<and> primitive cf_syntax ts m \<and> cf_rest p = ts @ cf_rest p' \<and> cf_room p = cf_room p' + node_count m"
    if "parse_primitive p = Some (n, p')" "\<not> cf_bad p'" for n p'
    using parse_primitive_reads [OF p] that unfolding reads_def by (auto simp: cf_syntax_def)
  show "\<exists>p'. parse_primitive p = Some (Some m, p') \<and> cf_ok p' \<and> \<not> cf_bad p' \<and> cf_rest p' = us
      \<and> cf_room p = cf_room p' + node_count m"
    if "\<not> cf_bad p" "primitive cf_syntax ts m" "cf_rest p = ts @ us" "us \<noteq> []" "node_count m \<le> cf_room p" for ts us m
    using parse_primitive_accepts [OF p that(1) _ that(3,5)] that(2) unfolding accepts_def
    by (simp add: cf_syntax_def)
qed (unfold cf_syntax_select parse_not.simps parse_and.simps parse_and_loop.simps parse_expr.simps
    parse_expr_loop.simps mk_and_def mk_or_def if_False, auto dest: cf_primitive_start)

end
