(* ===== verification/Capfilter_Codegen.thy ===== *)
theory Capfilter_Codegen
  imports Capfilter_Parser Bpf
begin

text \<open>
  The code generator of \<open>src/src/c/capfilter.c\<close>: leaves that load a field and compare it, and
  short-circuit boolean operators compiled by backpatching. \<open>insns\<close> holds the instructions emitted so
  far (\<open>n_insns\<close> is its length), a patch list is the list of its entries. \<open>None\<close> is a \<open>NULL\<close> node, an
  access outside a patch list or an instruction index that was never emitted.

  The reference is \<open>cf_eval\<close>, the value of a syntax tree on a packet, with \<open>None\<close> for a load beyond
  the end of the packet, which ends a BPF program and drops the packet.
\<close>

subsection \<open>Emitting instructions\<close>

abbreviation CF_MAX_INSNS :: nat where "CF_MAX_INSNS \<equiv> 1024"
abbreviation CF_ACCEPT_LEN :: u32 where "CF_ACCEPT_LEN \<equiv> 65535"
abbreviation OFF_ETHERTYPE :: u32 where "OFF_ETHERTYPE \<equiv> 12"
abbreviation OFF_IP_IHL_BYTE :: u32 where "OFF_IP_IHL_BYTE \<equiv> 14"
abbreviation OFF_IP_PROTO :: u32 where "OFF_IP_PROTO \<equiv> 23"
abbreviation OFF_IP_SRC :: u32 where "OFF_IP_SRC \<equiv> 26"
abbreviation OFF_IP_DST :: u32 where "OFF_IP_DST \<equiv> 30"

record cf_gen_t =
  insns :: "sock_filter list"
  gen_ctx :: cf_ctx_t

type_synonym patch_list_t = "(nat \<times> bool) list"

definition insn :: "u16 \<Rightarrow> u8 \<Rightarrow> u8 \<Rightarrow> u32 \<Rightarrow> sock_filter" where
  "insn code jt jf k = \<lparr>bpf_code = code, bpf_jt = jt, bpf_jf = jf, bpf_k = k\<rparr>"

definition gen_fail :: "string \<Rightarrow> cf_gen_t \<Rightarrow> cf_gen_t" where
  "gen_fail msg g = g\<lparr>gen_ctx := cf_fail msg (gen_ctx g)\<rparr>"

definition pl_add :: "patch_list_t \<Rightarrow> nat \<Rightarrow> bool \<Rightarrow> patch_list_t option" where
  "pl_add pl idx is_jt = (if length pl < CF_MAX_INSNS then Some (pl @ [(idx, is_jt)]) else None)"

fun pl_append :: "patch_list_t \<Rightarrow> patch_list_t \<Rightarrow> patch_list_t option" where
  "pl_append dst [] = Some dst"
| "pl_append dst ((idx, is_jt) # src) = do { dst \<leftarrow> pl_add dst idx is_jt; pl_append dst src }"

definition gen_push :: "cf_gen_t \<Rightarrow> sock_filter \<Rightarrow> int \<times> cf_gen_t" where
  "gen_push g f =
     (if length (insns g) \<ge> CF_MAX_INSNS then (-1, gen_fail ''compiled filter is too large'' g)
      else (int (length (insns g)), g\<lparr>insns := insns g @ [f]\<rparr>))"

definition set_jump :: "sock_filter \<Rightarrow> bool \<Rightarrow> u8 \<Rightarrow> sock_filter" where
  "set_jump f is_jt off = (if is_jt then f\<lparr>bpf_jt := off\<rparr> else f\<lparr>bpf_jf := off\<rparr>)"

fun pl_resolve :: "cf_gen_t \<Rightarrow> patch_list_t \<Rightarrow> nat \<Rightarrow> cf_gen_t option" where
  "pl_resolve g [] target_pc = Some g"
| "pl_resolve g ((idx, is_jt) # pl) target_pc =
     (let offset = int target_pc - (int idx + 1) in
      if offset < 0 \<or> offset > 255 then
        Some (gen_fail ''filter expression is too complex to compile to BPF (jump out of range)'' g)
      else if idx < length (insns g) then
        pl_resolve (g\<lparr>insns := (insns g)[idx := set_jump (insns g ! idx) is_jt (word_of_int offset)]\<rparr>)
          pl target_pc
      else None)"

fun emit_loads :: "cf_gen_t \<Rightarrow> sock_filter list \<Rightarrow> int \<times> cf_gen_t" where
  "emit_loads g [] = (0, g)"
| "emit_loads g (f # fs) =
     (let (idx, g) = gen_push g f in if idx < 0 then (-1, g) else emit_loads g fs)"

definition emit_leaf ::
  "cf_gen_t \<Rightarrow> sock_filter list \<Rightarrow> u32 \<Rightarrow> patch_list_t \<Rightarrow> patch_list_t \<Rightarrow>
    (int \<times> cf_gen_t \<times> patch_list_t \<times> patch_list_t) option" where
  "emit_leaf g load_insns k out_t out_f =
     (let (rc, g) = emit_loads g load_insns in
      if rc < 0 then Some (-1, g, out_t, out_f)
      else
        let (idx, g) = gen_push g (insn (BPF_JMP OR BPF_JEQ OR BPF_K) 0 0 k) in
        if idx < 0 then Some (-1, g, out_t, out_f)
        else do {
          out_t \<leftarrow> pl_add out_t (nat idx) True;
          out_f \<leftarrow> pl_add out_f (nat idx) False;
          Some (0, g, out_t, out_f)
        })"

definition addr_to_u32 :: "buf \<Rightarrow> u32 option" where
  "addr_to_u32 addr = rd32 addr 0"

definition prefix_mask :: "u8 \<Rightarrow> u32" where
  "prefix_mask prefix_len =
     (if prefix_len = 0 then 0
      else if prefix_len \<ge> 32 then 0xFFFFFFFF
      else push_bit (32 - unat prefix_len) (NOT 0))"

subsection \<open>Compiling a tree\<close>

definition addr_off :: "dir_t \<Rightarrow> u32" where
  "addr_off dir = (if dir = DIR_SRC then OFF_IP_SRC else OFF_IP_DST)"

definition compile_leaf ::
  "cf_gen_t \<Rightarrow> node_t \<Rightarrow> patch_list_t \<Rightarrow> patch_list_t \<Rightarrow>
    (int \<times> cf_gen_t \<times> patch_list_t \<times> patch_list_t) option" where
  "compile_leaf g n out_t out_f =
     (case n of
        N_ETHERTYPE k \<Rightarrow> emit_leaf g [insn (BPF_LD OR BPF_H OR BPF_ABS) 0 0 OFF_ETHERTYPE] k out_t out_f
      | N_IPPROTO k \<Rightarrow> emit_leaf g [insn (BPF_LD OR BPF_B OR BPF_ABS) 0 0 OFF_IP_PROTO] k out_t out_f
      | N_HOST dir addr \<Rightarrow> do {
          k \<leftarrow> addr_to_u32 addr;
          emit_leaf g [insn (BPF_LD OR BPF_W OR BPF_ABS) 0 0 (addr_off dir)] k out_t out_f }
      | N_NET dir addr prefix_len \<Rightarrow> do {
          k \<leftarrow> addr_to_u32 addr;
          let mask = prefix_mask prefix_len;
          emit_leaf g [insn (BPF_LD OR BPF_W OR BPF_ABS) 0 0 (addr_off dir),
                       insn (BPF_ALU OR BPF_AND OR BPF_K) 0 0 mask] (k AND mask) out_t out_f }
      | N_PORT dir port \<Rightarrow>
          (let (idx, g) = gen_push g (insn (BPF_LDX OR BPF_B OR BPF_MSH) 0 0 OFF_IP_IHL_BYTE) in
           if idx < 0 then Some (-1, g, out_t, out_f)
           else
             let ind_k = (if dir = DIR_SRC then OFF_IP_IHL_BYTE else OFF_IP_IHL_BYTE + 2) in
             emit_leaf g [insn (BPF_LD OR BPF_H OR BPF_IND) 0 0 ind_k] port out_t out_f)
      | _ \<Rightarrow> Some (-1, gen_fail ''internal error: unknown AST node kind'' g, out_t, out_f))"

function compile_node ::
  "cf_gen_t \<Rightarrow> node_t option \<Rightarrow> patch_list_t \<Rightarrow> patch_list_t \<Rightarrow>
    (int \<times> cf_gen_t \<times> patch_list_t \<times> patch_list_t) option" where
  "compile_node g node out_t out_f =
     (if failed (gen_ctx g) then Some (-1, g, out_t, out_f)
      else
        (case node of
           None \<Rightarrow> None
         | Some (N_NOT left) \<Rightarrow> do {
             (rc, g, out_f, out_t) \<leftarrow> compile_node g left out_f out_t;
             Some (rc, g, out_t, out_f) }
         | Some (N_AND left right) \<Rightarrow> do {
             (rc, g, lt, lf) \<leftarrow> compile_node g left [] [];
             if rc < 0 then Some (-1, g, out_t, out_f)
             else do {
               g \<leftarrow> pl_resolve g lt (length (insns g));
               if failed (gen_ctx g) then Some (-1, g, out_t, out_f)
               else do {
                 (rc, g, rt, rf) \<leftarrow> compile_node g right [] [];
                 if rc < 0 then Some (-1, g, out_t, out_f)
                 else do {
                   out_t \<leftarrow> pl_append out_t rt;
                   out_f \<leftarrow> pl_append out_f lf;
                   out_f \<leftarrow> pl_append out_f rf;
                   Some (0, g, out_t, out_f) } } } }
         | Some (N_OR left right) \<Rightarrow> do {
             (rc, g, lt, lf) \<leftarrow> compile_node g left [] [];
             if rc < 0 then Some (-1, g, out_t, out_f)
             else do {
               g \<leftarrow> pl_resolve g lf (length (insns g));
               if failed (gen_ctx g) then Some (-1, g, out_t, out_f)
               else do {
                 (rc, g, rt, rf) \<leftarrow> compile_node g right [] [];
                 if rc < 0 then Some (-1, g, out_t, out_f)
                 else do {
                   out_t \<leftarrow> pl_append out_t lt;
                   out_t \<leftarrow> pl_append out_t rt;
                   out_f \<leftarrow> pl_append out_f rf;
                   Some (0, g, out_t, out_f) } } } }
         | Some n \<Rightarrow> compile_leaf g n out_t out_f))"
  by pat_completeness auto
termination
  by (relation "measure (\<lambda>(_, n, _). size_option size n)") auto

declare compile_node.simps [simp del]

subsection \<open>Reference: the value of a tree on a packet\<close>

definition addr_value :: "buf \<Rightarrow> u32" where
  "addr_value a = be32 (a ! 0) (a ! 1) (a ! 2) (a ! 3)"

fun cf_eval :: "buf \<Rightarrow> u32 \<Rightarrow> node_t \<Rightarrow> bool option" where
  "cf_eval pkt m (N_AND l r) = do {
     a \<leftarrow> (case l of None \<Rightarrow> None | Some n \<Rightarrow> cf_eval pkt m n);
     if a then (case r of None \<Rightarrow> None | Some n \<Rightarrow> cf_eval pkt m n) else Some False }"
| "cf_eval pkt m (N_OR l r) = do {
     a \<leftarrow> (case l of None \<Rightarrow> None | Some n \<Rightarrow> cf_eval pkt m n);
     if a then Some True else (case r of None \<Rightarrow> None | Some n \<Rightarrow> cf_eval pkt m n) }"
| "cf_eval pkt m (N_NOT l) = map_option Not (case l of None \<Rightarrow> None | Some n \<Rightarrow> cf_eval pkt m n)"
| "cf_eval pkt m (N_ETHERTYPE k) = do { v \<leftarrow> pkt_half pkt m 12; Some (v = k) }"
| "cf_eval pkt m (N_IPPROTO k) = do { v \<leftarrow> pkt_byte pkt m 23; Some (v = k) }"
| "cf_eval pkt m (N_HOST dir a) = do {
     v \<leftarrow> pkt_word pkt m (if dir = DIR_SRC then 26 else 30); Some (v = addr_value a) }"
| "cf_eval pkt m (N_NET dir a len) = do {
     v \<leftarrow> pkt_word pkt m (if dir = DIR_SRC then 26 else 30);
     Some (v AND prefix_mask len = addr_value a AND prefix_mask len) }"
| "cf_eval pkt m (N_PORT dir port) = do {
     b \<leftarrow> pkt_byte pkt m 14;
     v \<leftarrow> pkt_half pkt m ((if dir = DIR_SRC then 14 else 16) + 4 * (unat b mod 16));
     Some (v = port) }"

text \<open>Trees without \<open>NULL\<close> children, with four-byte addresses: what the parser produces.\<close>

fun node_wf :: "node_t \<Rightarrow> bool" where
  "node_wf (N_AND l r) \<longleftrightarrow> (case l of None \<Rightarrow> False | Some n \<Rightarrow> node_wf n) \<and> (case r of None \<Rightarrow> False | Some n \<Rightarrow> node_wf n)"
| "node_wf (N_OR l r) \<longleftrightarrow> (case l of None \<Rightarrow> False | Some n \<Rightarrow> node_wf n) \<and> (case r of None \<Rightarrow> False | Some n \<Rightarrow> node_wf n)"
| "node_wf (N_NOT l) \<longleftrightarrow> (case l of None \<Rightarrow> False | Some n \<Rightarrow> node_wf n)"
| "node_wf (N_HOST _ a) \<longleftrightarrow> length a = 4"
| "node_wf (N_NET _ a _) \<longleftrightarrow> length a = 4"
| "node_wf _ \<longleftrightarrow> True"

subsection \<open>Code with open jumps\<close>

definition jump :: "sock_filter \<Rightarrow> bool \<Rightarrow> u8" where
  "jump f b = (if b then bpf_jt f else bpf_jf f)"

text \<open>The final program \<open>P\<close> holds the code \<open>is\<close> from \<open>lo\<close> on, except for the jumps in \<open>pend\<close>.\<close>

definition agrees :: "sock_filter list \<Rightarrow> sock_filter list \<Rightarrow> nat \<Rightarrow> (nat \<times> bool) set \<Rightarrow> bool" where
  "agrees P is lo pend \<longleftrightarrow> (\<forall>i. lo \<le> i \<longrightarrow> i < length is \<longrightarrow>
     i < length P \<and> bpf_code (P ! i) = bpf_code (is ! i) \<and> bpf_k (P ! i) = bpf_k (is ! i)
     \<and> (\<forall>b. (i, b) \<notin> pend \<longrightarrow> jump (P ! i) b = jump (is ! i) b))"

definition lands :: "sock_filter list \<Rightarrow> patch_list_t \<Rightarrow> nat \<Rightarrow> bool" where
  "lands P pl target \<longleftrightarrow> (\<forall>(i, b) \<in> set pl. i + 1 + unat (jump (P ! i) b) = target)"

text \<open>The shape of a compiled region: where its open jumps are and where its closed ones go.\<close>

definition region :: "nat \<Rightarrow> sock_filter list \<Rightarrow> patch_list_t \<Rightarrow> patch_list_t \<Rightarrow> bool" where
  "region lo is ts fs \<longleftrightarrow> lo < length is \<and> set ts \<inter> set fs = {}
     \<and> lo + length ts \<le> length is \<and> lo + length fs \<le> length is
     \<and> (\<forall>(i, b) \<in> set ts \<union> set fs. lo \<le> i \<and> i < length is)
     \<and> (\<forall>i. lo \<le> i \<longrightarrow> i < length is \<longrightarrow> bpf_code (is ! i) \<in> known_opcodes
         \<and> (bpf_code (is ! i) = 0x15 \<longrightarrow>
             (\<forall>b. (i, b) \<in> set ts \<union> set fs \<or> i + 1 + unat (jump (is ! i) b) < length is)))"

text \<open>
  The meaning of a region: in every program that closes its jumps, it runs to the true exit, to the
  false exit, or ends with 0, as the tree evaluates on the packet, from any register contents.
\<close>

definition computes :: "node_t \<Rightarrow> nat \<Rightarrow> sock_filter list \<Rightarrow> patch_list_t \<Rightarrow> patch_list_t \<Rightarrow> bool" where
  "computes n lo is ts fs \<longleftrightarrow> (\<forall>P pkt m tt ff a x. agrees P is lo (set ts \<union> set fs) \<longrightarrow> lands P ts tt \<longrightarrow>
     lands P fs ff \<longrightarrow> buf_ok pkt m \<longrightarrow>
     (\<exists>a' x'. bpf_exec P pkt m lo a x =
        (case cf_eval pkt m n of None \<Rightarrow> Some 0
         | Some b \<Rightarrow> bpf_exec P pkt m (if b then tt else ff) a' x')))"

lemma computesD:
  assumes "computes n lo is ts fs" "agrees P is lo (set ts \<union> set fs)" "lands P ts tt" "lands P fs ff" "buf_ok pkt m"
  obtains a' x' where "bpf_exec P pkt m lo a x =
    (case cf_eval pkt m n of None \<Rightarrow> Some 0 | Some b \<Rightarrow> bpf_exec P pkt m (if b then tt else ff) a' x')"
  using assms unfolding computes_def by blast

lemma lands_append: "lands P (xs @ ys) t \<longleftrightarrow> lands P xs t \<and> lands P ys t"
  by (auto simp: lands_def)

subsection \<open>Closing jumps\<close>

text \<open>\<open>is'\<close> is \<open>is\<close> with the jumps of \<open>pl\<close> closed to \<open>target\<close>.\<close>

definition closes :: "sock_filter list \<Rightarrow> sock_filter list \<Rightarrow> patch_list_t \<Rightarrow> nat \<Rightarrow> bool" where
  "closes is is' pl target \<longleftrightarrow> length is' = length is \<and> lands is' pl target
     \<and> (\<forall>i < length is. bpf_code (is' ! i) = bpf_code (is ! i) \<and> bpf_k (is' ! i) = bpf_k (is ! i)
         \<and> (\<forall>b. (i, b) \<notin> set pl \<longrightarrow> jump (is' ! i) b = jump (is ! i) b))"

lemma jump_set_jump:
  "jump (set_jump f b off) b' = (if b' = b then off else jump f b')"
  "bpf_code (set_jump f b off) = bpf_code f" "bpf_k (set_jump f b off) = bpf_k f"
  by (auto simp: jump_def set_jump_def)

lemma patch_one:
  assumes "i < length is"
  shows "bpf_code (is[idx := set_jump (is ! idx) b off] ! i) = bpf_code (is ! i)"
    and "bpf_k (is[idx := set_jump (is ! idx) b off] ! i) = bpf_k (is ! i)"
    and "jump (is[idx := set_jump (is ! idx) b off] ! i) b' = (if i = idx \<and> b' = b then off else jump (is ! i) b')"
  using assms by (cases "i = idx"; simp add: jump_set_jump)+

lemma byte_offset:
  assumes "\<not> (int target - (int idx + 1) < 0 \<or> int target - (int idx + 1) > 255)"
  shows "idx + 1 + unat (word_of_int (int target - (int idx + 1)) :: u8) = target"
proof -
  let ?off = "int target - (int idx + 1)"
  have "uint (word_of_int ?off :: u8) = ?off"
    using assms by (simp only: uint_word_of_int_eq) (rule take_bit_int_eq_self, simp_all)
  then have "unat (word_of_int ?off :: u8) = nat ?off" by (simp only: unat_eq_nat_uint)
  moreover have "idx + 1 + nat ?off = target" using assms by arith
  ultimately show ?thesis by (simp only:)
qed

lemma closes_Cons:
  assumes "closes (is[idx := set_jump (is ! idx) b off]) is' pl target" "idx < length is"
    and "idx + 1 + unat off = target"
  shows "closes is is' ((idx, b) # pl) target"
  unfolding closes_def
proof (intro conjI allI impI)
  note c = assms(1) [unfolded closes_def length_list_update]
  show "length is' = length is" using c by blast
  have "idx + 1 + unat (jump (is' ! idx) b) = target"
  proof (cases "(idx, b) \<in> set pl")
    case True
    then show ?thesis using c by (auto simp: lands_def)
  next
    case False
    then have "jump (is' ! idx) b = off" using c assms(2) by (simp add: jump_set_jump)
    with assms(3) show ?thesis by simp
  qed
  with c show "lands is' ((idx, b) # pl) target" by (auto simp: lands_def)
  fix i assume i: "i < length is"
  with c show "bpf_code (is' ! i) = bpf_code (is ! i)" "bpf_k (is' ! i) = bpf_k (is ! i)"
    by (simp_all add: patch_one [OF i])
  show "jump (is' ! i) b' = jump (is ! i) b'" if "(i, b') \<notin> set ((idx, b) # pl)" for b'
    using c that i by (auto simp: patch_one [OF i])
qed

lemma pl_resolve_closes:
  assumes "\<not> failed (gen_ctx g)" "\<forall>(i, b) \<in> set pl. i < length (insns g)"
  shows "\<exists>g'. pl_resolve g pl target = Some g'
    \<and> (failed (gen_ctx g') \<or> gen_ctx g' = gen_ctx g \<and> closes (insns g) (insns g') pl target)"
  using assms
proof (induction pl arbitrary: g)
  case Nil
  then show ?case by (simp add: closes_def lands_def)
next
  case (Cons e pl)
  obtain idx b where e: "e = (idx, b)" by (cases e)
  define off where "off = int target - (int idx + 1)"
  have idx: "idx < length (insns g)" using Cons.prems(2) e by auto
  show ?case
  proof (cases "off < 0 \<or> off > 255")
    case True
    then show ?thesis by (simp add: e gen_fail_def flip: off_def)
  next
    case False
    define g1 where "g1 = g\<lparr>insns := (insns g)[idx := set_jump (insns g ! idx) b (word_of_int off)]\<rparr>"
    have step: "pl_resolve g (e # pl) target = pl_resolve g1 pl target"
      using False idx by (simp add: e g1_def flip: off_def)
    obtain g' where g': "pl_resolve g1 pl target = Some g'"
      "failed (gen_ctx g') \<or> gen_ctx g' = gen_ctx g1 \<and> closes (insns g1) (insns g') pl target"
      using Cons.IH [of g1] Cons.prems by (auto simp: g1_def)
    have "closes (insns g) (insns g') (e # pl) target" if "closes (insns g1) (insns g') pl target"
      using closes_Cons [of "insns g" idx b "word_of_int off"] that idx byte_offset [of target idx] False
      by (simp add: e g1_def off_def)
    with g' step show ?thesis by (auto simp: g1_def)
  qed
qed

subsection \<open>Two regions in sequence\<close>

text \<open>
  The left operand's region with one of its exits closed to the start of the right operand's region;
  its other exit \<open>keep\<close> stays open and joins one of the exits of the right operand.
\<close>

definition sequenced :: "nat \<Rightarrow> sock_filter list \<Rightarrow> sock_filter list \<Rightarrow> sock_filter list \<Rightarrow>
    patch_list_t \<Rightarrow> patch_list_t \<Rightarrow> patch_list_t \<Rightarrow> patch_list_t \<Rightarrow> bool" where
  "sequenced lo is1 is1' is2 res keep rt rf \<longleftrightarrow> region lo is1 res keep
     \<and> closes is1 is1' res (length is1) \<and> take (length is1) is2 = is1' \<and> region (length is1) is2 rt rf"

lemma sequenced_facts:
  assumes "sequenced lo is1 is1' is2 res keep rt rf"
  shows "length is1' = length is1" "length is1 < length is2" "lo < length is1"
    and "\<And>i. i < length is1 \<Longrightarrow> is2 ! i = is1' ! i"
    and "\<And>i b. (i, b) \<in> set keep \<Longrightarrow> lo \<le> i \<and> i < length is1"
    and "\<And>i b. (i, b) \<in> set res \<Longrightarrow> lo \<le> i \<and> i < length is1"
    and "\<And>i b. (i, b) \<in> set rt \<union> set rf \<Longrightarrow> length is1 \<le> i \<and> i < length is2"
    and "set res \<inter> set keep = {}" "set rt \<inter> set rf = {}"
proof -
  show len: "length is1' = length is1" "length is1 < length is2" "lo < length is1"
    using assms by (auto simp: sequenced_def region_def closes_def)
  show "is2 ! i = is1' ! i" if "i < length is1" for i
    using that len assms by (metis nth_take sequenced_def)
qed (use assms in \<open>auto simp: sequenced_def region_def\<close>)

lemma agrees_left:
  assumes seq: "sequenced lo is1 is1' is2 res keep rt rf"
    and ag: "agrees P is2 lo (set keep \<union> set rt \<union> set rf)"
  shows "agrees P is1 lo (set res \<union> set keep)" "lands P res (length is1)"
proof -
  note f = sequenced_facts [OF seq]
  have c: "closes is1 is1' res (length is1)" using seq by (simp add: sequenced_def)
  have P: "i < length P" "bpf_code (P ! i) = bpf_code (is1 ! i)" "bpf_k (P ! i) = bpf_k (is1 ! i)"
    if "lo \<le> i" "i < length is1" for i
    using ag that f(2) f(4) [OF that(2)] c by (auto simp: agrees_def closes_def)
  have J: "jump (P ! i) b = jump (is1' ! i) b" if "lo \<le> i" "i < length is1" "(i, b) \<notin> set keep" for i b
  proof -
    have "(i, b) \<notin> set keep \<union> set rt \<union> set rf" using that f(7) [of i b] by auto
    with ag that f(2) have "jump (P ! i) b = jump (is2 ! i) b" by (auto simp: agrees_def)
    with f(4) that show ?thesis by simp
  qed
  show "lands P res (length is1)"
    unfolding lands_def
  proof clarify
    fix i b assume res: "(i, b) \<in> set res"
    then have "jump (P ! i) b = jump (is1' ! i) b" using f(6) [OF res] f(8) by (intro J) auto
    with res c show "i + 1 + unat (jump (P ! i) b) = length is1"
      by (auto simp: closes_def lands_def)
  qed
  show "agrees P is1 lo (set res \<union> set keep)"
    unfolding agrees_def using P J c by (auto simp: closes_def)
qed

lemma agrees_right:
  assumes seq: "sequenced lo is1 is1' is2 res keep rt rf"
    and ag: "agrees P is2 lo (set keep \<union> set rt \<union> set rf)"
  shows "agrees P is2 (length is1) (set rt \<union> set rf)"
  unfolding agrees_def
proof (intro allI impI conjI)
  note f = sequenced_facts [OF seq]
  fix i b assume i: "length is1 \<le> i" "i < length is2"
  then have "lo \<le> i" using f(3) by linarith
  with ag i show "i < length P" "bpf_code (P ! i) = bpf_code (is2 ! i)" "bpf_k (P ! i) = bpf_k (is2 ! i)"
    unfolding agrees_def by blast+
  show "jump (P ! i) b = jump (is2 ! i) b" if "(i, b) \<notin> set rt \<union> set rf"
  proof -
    have "(i, b) \<notin> set keep \<union> set rt \<union> set rf" using that f(5) [of i b] i by auto
    with ag \<open>lo \<le> i\<close> i show ?thesis by (auto simp: agrees_def)
  qed
qed

lemma region_both:
  assumes seq: "sequenced lo is1 is1' is2 res keep rt rf"
    and split: "ts = keep @ rt \<and> fs = rf \<or> ts = rt \<and> fs = keep @ rf"
  shows "region lo is2 ts fs"
proof -
  note f = sequenced_facts [OF seq]
  have s: "region lo is1 res keep" "closes is1 is1' res (length is1)" "region (length is1) is2 rt rf"
    using seq by (simp_all add: sequenced_def)
  have sets: "set ts \<union> set fs = set keep \<union> set rt \<union> set rf" using split by auto
  have sep: "(i, b) \<in> set keep \<Longrightarrow> (i, b) \<notin> set rt \<union> set rf" for i b
    using f(5) [of i b] f(7) [of i b] by linarith
  have "set ts \<inter> set fs = {}" using split f(9) sep by auto
  moreover have "lo + length ts \<le> length is2" "lo + length fs \<le> length is2"
    using split s by (auto simp: region_def)
  moreover have "lo \<le> i \<and> i < length is2" if "(i, b) \<in> set ts \<union> set fs" for i b
    using that f(5) [of i b] f(7) [of i b] f(2,3) unfolding sets by auto
  moreover have "bpf_code (is2 ! i) \<in> known_opcodes \<and> (bpf_code (is2 ! i) = 0x15 \<longrightarrow>
      (\<forall>b. (i, b) \<in> set ts \<union> set fs \<or> i + 1 + unat (jump (is2 ! i) b) < length is2))"
    if i: "lo \<le> i" "i < length is2" for i
  proof (cases "i < length is1")
    case True
    have "(i, b) \<in> set keep \<or> i + 1 + unat (jump (is1' ! i) b) < length is2"
      if "bpf_code (is1 ! i) = 0x15" for b
    proof (cases "(i, b) \<in> set res")
      case True
      with s(2) f(2) show ?thesis by (auto simp: closes_def lands_def)
    next
      case False
      with s that i \<open>i < length is1\<close> f(2) show ?thesis by (fastforce simp: region_def closes_def)
    qed
    then show ?thesis
      using s i True f(4) [OF True] unfolding sets by (auto simp: region_def closes_def)
  next
    case False
    with s(3) i show ?thesis unfolding sets region_def by auto
  qed
  ultimately show ?thesis
    using f(2,3) unfolding region_def by auto
qed

lemma computes_and:
  assumes seq: "sequenced lo is1 is1' is2 lt lf rt rf"
    and l: "computes l lo is1 lt lf" and r: "computes r (length is1) is2 rt rf"
  shows "computes (N_AND (Some l) (Some r)) lo is2 rt (lf @ rf)"
  unfolding computes_def
proof (intro allI impI)
  fix P pkt m tt ff a x
  assume ag: "agrees P is2 lo (set rt \<union> set (lf @ rf))" and tt: "lands P rt tt" and ff: "lands P (lf @ rf) ff"
    and pkt: "buf_ok pkt m"
  from ag have ag: "agrees P is2 lo (set lf \<union> set rt \<union> set rf)" by (simp add: Un_ac)
  from ff have ff: "lands P lf ff" "lands P rf ff" by (simp_all add: lands_append)
  obtain a1 x1 where 1: "bpf_exec P pkt m lo a x = (case cf_eval pkt m l of None \<Rightarrow> Some 0
      | Some b \<Rightarrow> bpf_exec P pkt m (if b then length is1 else ff) a1 x1)"
    by (rule computesD [OF l agrees_left [OF seq ag] ff(1) pkt])
  obtain a2 x2 where 2: "bpf_exec P pkt m (length is1) a1 x1 = (case cf_eval pkt m r of None \<Rightarrow> Some 0
      | Some b \<Rightarrow> bpf_exec P pkt m (if b then tt else ff) a2 x2)"
    by (rule computesD [OF r agrees_right [OF seq ag] tt ff(2) pkt])
  show "\<exists>a' x'. bpf_exec P pkt m lo a x = (case cf_eval pkt m (N_AND (Some l) (Some r)) of None \<Rightarrow> Some 0
      | Some b \<Rightarrow> bpf_exec P pkt m (if b then tt else ff) a' x')"
    using 1 2 by (cases "cf_eval pkt m l"; cases "cf_eval pkt m l = Some True") auto
qed

lemma computes_or:
  assumes seq: "sequenced lo is1 is1' is2 lf lt rt rf"
    and l: "computes l lo is1 lt lf" and r: "computes r (length is1) is2 rt rf"
  shows "computes (N_OR (Some l) (Some r)) lo is2 (lt @ rt) rf"
  unfolding computes_def
proof (intro allI impI)
  fix P pkt m tt ff a x
  assume ag: "agrees P is2 lo (set (lt @ rt) \<union> set rf)" and tt: "lands P (lt @ rt) tt" and ff: "lands P rf ff"
    and pkt: "buf_ok pkt m"
  from ag have ag: "agrees P is2 lo (set lt \<union> set rt \<union> set rf)" by (simp add: Un_ac)
  from tt have tt: "lands P lt tt" "lands P rt tt" by (simp_all add: lands_append)
  have left: "agrees P is1 lo (set lt \<union> set lf)" "lands P lf (length is1)"
    using agrees_left [OF seq ag] by (simp_all add: Un_commute)
  obtain a1 x1 where 1: "bpf_exec P pkt m lo a x = (case cf_eval pkt m l of None \<Rightarrow> Some 0
      | Some b \<Rightarrow> bpf_exec P pkt m (if b then tt else length is1) a1 x1)"
    by (rule computesD [OF l left(1) tt(1) left(2) pkt])
  obtain a2 x2 where 2: "bpf_exec P pkt m (length is1) a1 x1 = (case cf_eval pkt m r of None \<Rightarrow> Some 0
      | Some b \<Rightarrow> bpf_exec P pkt m (if b then tt else ff) a2 x2)"
    by (rule computesD [OF r agrees_right [OF seq ag] tt(2) ff pkt])
  show "\<exists>a' x'. bpf_exec P pkt m lo a x = (case cf_eval pkt m (N_OR (Some l) (Some r)) of None \<Rightarrow> Some 0
      | Some b \<Rightarrow> bpf_exec P pkt m (if b then tt else ff) a' x')"
    using 1 2 by (cases "cf_eval pkt m l"; cases "cf_eval pkt m l = Some True") auto
qed

lemma computes_not:
  assumes "computes n lo is fs ts"
  shows "computes (N_NOT (Some n)) lo is ts fs"
  unfolding computes_def
proof (intro allI impI)
  fix P pkt m tt ff a x
  assume ag: "agrees P is lo (set ts \<union> set fs)" and tt: "lands P ts tt" and ff: "lands P fs ff" and pkt: "buf_ok pkt m"
  from ag have ag: "agrees P is lo (set fs \<union> set ts)" by (simp add: Un_commute)
  obtain a1 x1 where 1: "bpf_exec P pkt m lo a x = (case cf_eval pkt m n of None \<Rightarrow> Some 0
      | Some b \<Rightarrow> bpf_exec P pkt m (if b then ff else tt) a1 x1)"
    by (rule computesD [OF assms ag ff tt pkt])
  then show "\<exists>a' x'. bpf_exec P pkt m lo a x = (case cf_eval pkt m (N_NOT (Some n)) of None \<Rightarrow> Some 0
      | Some b \<Rightarrow> bpf_exec P pkt m (if b then tt else ff) a' x')"
    by (cases "cf_eval pkt m n") auto
qed

subsection \<open>Leaves\<close>

text \<open>The load sequence of a leaf, the constant it is compared with, and the value it loads.\<close>

fun leaf_loads :: "node_t \<Rightarrow> sock_filter list" where
  "leaf_loads (N_ETHERTYPE k) = [insn 0x28 0 0 12]"
| "leaf_loads (N_IPPROTO k) = [insn 0x30 0 0 23]"
| "leaf_loads (N_HOST dir a) = [insn 0x20 0 0 (addr_off dir)]"
| "leaf_loads (N_NET dir a len) = [insn 0x20 0 0 (addr_off dir), insn 0x54 0 0 (prefix_mask len)]"
| "leaf_loads (N_PORT dir port) = [insn 0xb1 0 0 14, insn 0x48 0 0 (if dir = DIR_SRC then 14 else 16)]"
| "leaf_loads _ = []"

fun leaf_const :: "node_t \<Rightarrow> u32" where
  "leaf_const (N_ETHERTYPE k) = k"
| "leaf_const (N_IPPROTO k) = k"
| "leaf_const (N_HOST dir a) = addr_value a"
| "leaf_const (N_NET dir a len) = addr_value a AND prefix_mask len"
| "leaf_const (N_PORT dir port) = port"
| "leaf_const _ = 0"

fun is_leaf :: "node_t \<Rightarrow> bool" where
  "is_leaf (N_AND _ _) = False"
| "is_leaf (N_OR _ _) = False"
| "is_leaf (N_NOT _) = False"
| "is_leaf _ = True"

lemma addr_to_u32_eq: "length a = 4 \<Longrightarrow> addr_to_u32 a = Some (addr_value a)"
  by (simp add: addr_to_u32_def addr_value_def mem_simps numeral_2_eq_2)

lemma compile_leaf_emit:
  assumes "node_wf n" "is_leaf n"
  shows "compile_leaf g n out_t out_f = emit_leaf g (leaf_loads n) (leaf_const n) out_t out_f"
  using assms
  by (cases n) (auto simp: compile_leaf_def addr_to_u32_eq emit_leaf_def Let_def split: prod.split)

definition leaf_code :: "node_t \<Rightarrow> sock_filter list" where
  "leaf_code n = leaf_loads n @ [insn 0x15 0 0 (leaf_const n)]"

lemma emit_loads_eq:
  "emit_loads g fs = (if length (insns g) + length fs \<le> 1024 \<or> fs = [] then (0, g\<lparr>insns := insns g @ fs\<rparr>)
     else (-1, gen_fail ''compiled filter is too large'' (g\<lparr>insns := take 1024 (insns g @ fs)\<rparr>)))"
  if "length (insns g) \<le> 1024"
  using that
proof (induction fs arbitrary: g)
  case (Cons f fs)
  show ?case
  proof (cases "length (insns g) = 1024")
    case True
    then have "take 1024 (insns g @ f # fs) = insns g" by simp
    with True show ?thesis by (simp add: gen_push_def)
  next
    case False
    with Cons.prems Cons.IH [of "g\<lparr>insns := insns g @ [f]\<rparr>"] show ?thesis by (auto simp: gen_push_def)
  qed
qed simp

lemma emit_leaf_eq:
  assumes "length (insns g) \<le> 1024" "length out_t \<le> length (insns g)" "length out_f \<le> length (insns g)"
  shows "\<exists>rc g' ts fs. emit_leaf g loads k out_t out_f = Some (rc, g', out_t @ ts, out_f @ fs)
    \<and> (rc = -1 \<and> failed (gen_ctx g')
       \<or> rc = 0 \<and> gen_ctx g' = gen_ctx g \<and> insns g' = insns g @ loads @ [insn 0x15 0 0 k]
         \<and> length (insns g') \<le> 1024 \<and> ts = [(length (insns g) + length loads, True)]
         \<and> fs = [(length (insns g) + length loads, False)])"
  using assms by (auto simp: emit_leaf_def emit_loads_eq gen_push_def gen_fail_def pl_add_def Let_def)

lemma leaf_code_known:
  "is_leaf n \<Longrightarrow> j < length (leaf_code n) \<Longrightarrow> bpf_code (leaf_code n ! j) \<in> known_opcodes
    \<and> (bpf_code (leaf_code n ! j) = 0x15 \<longrightarrow> j = length (leaf_loads n))"
  by (cases n) (auto simp: leaf_code_def insn_def known_opcodes_def less_Suc_eq)

lemma leaf_region:
  assumes "is_leaf n"
  shows "region (length pre) (pre @ leaf_code n) [(length pre + length (leaf_loads n), True)]
    [(length pre + length (leaf_loads n), False)]"
proof -
  let ?is = "pre @ leaf_code n"
  have "bpf_code (?is ! i) \<in> known_opcodes \<and> (bpf_code (?is ! i) = 0x15 \<longrightarrow> i = length pre + length (leaf_loads n))"
    if "length pre \<le> i" "i < length ?is" for i
    using leaf_code_known [OF assms, of "i - length pre"] that by (auto simp: nth_append)
  moreover have "length ?is = length pre + length (leaf_loads n) + 1" by (simp add: leaf_code_def)
  ultimately show ?thesis
    unfolding region_def by (auto split: bool.split)
qed

text \<open>What a leaf loads, and that its value decides the comparison.\<close>

definition leaf_value :: "buf \<Rightarrow> u32 \<Rightarrow> node_t \<Rightarrow> u32 option" where
  "leaf_value pkt m n =
     (case n of
        N_ETHERTYPE k \<Rightarrow> pkt_half pkt m 12
      | N_IPPROTO k \<Rightarrow> pkt_byte pkt m 23
      | N_HOST dir a \<Rightarrow> pkt_word pkt m (if dir = DIR_SRC then 26 else 30)
      | N_NET dir a len \<Rightarrow> map_option (\<lambda>v. v AND prefix_mask len) (pkt_word pkt m (if dir = DIR_SRC then 26 else 30))
      | N_PORT dir port \<Rightarrow> do {
          b \<leftarrow> pkt_byte pkt m 14;
          pkt_half pkt m ((if dir = DIR_SRC then 14 else 16) + 4 * (unat b mod 16)) }
      | _ \<Rightarrow> None)"

lemma cf_eval_leaf:
  "is_leaf n \<Longrightarrow> cf_eval pkt m n = map_option (\<lambda>v. v = leaf_const n) (leaf_value pkt m n)"
  by (cases n) (auto simp: leaf_value_def split: option.split bind_split)

lemma unat_port_offset:
  "unat ((if dir = DIR_SRC then 14 else 16) + (b AND 0x0f) * 4 :: u32)
    = (if dir = DIR_SRC then 14 else 16) + 4 * (unat b mod 16)"
proof -
  have "unat b mod 16 < 16" by simp
  then show ?thesis by (auto simp: unat_word_ariths unat_and_low)
qed

lemma leaf_runs:
  assumes "is_leaf n" "buf_ok pkt m"
    and P: "\<And>j. j < length (leaf_loads n) \<Longrightarrow> lo + j < length P \<and> bpf_code (P ! (lo + j)) = bpf_code (leaf_loads n ! j)
      \<and> bpf_k (P ! (lo + j)) = bpf_k (leaf_loads n ! j)"
  shows "\<exists>x'. bpf_exec P pkt m lo a x
    = loaded (leaf_value pkt m n) (\<lambda>v. bpf_exec P pkt m (lo + length (leaf_loads n)) v x')"
proof (cases n)
  case (N_ETHERTYPE k)
  then show ?thesis
    using P [of 0] bpf_exec_ld_abs(2) [of lo P pkt m] assms(2) by (auto simp: insn_def leaf_value_def)
next
  case (N_IPPROTO k)
  then show ?thesis
    using P [of 0] bpf_exec_ld_abs(3) [of lo P pkt m] assms(2) by (auto simp: insn_def leaf_value_def)
next
  case (N_HOST dir addr)
  then show ?thesis
    using P [of 0] bpf_exec_ld_abs(1) [of lo P pkt m] assms(2) by (auto simp: insn_def leaf_value_def addr_off_def)
next
  case (N_NET dir addr len)
  then have P0: "lo < length P" "bpf_code (P ! lo) = 0x20" "bpf_k (P ! lo) = addr_off dir"
    and P1: "lo + 1 < length P" "bpf_code (P ! (lo + 1)) = 0x54" "bpf_k (P ! (lo + 1)) = prefix_mask len"
    using P [of 0] P [of 1] by (simp_all add: insn_def)
  have "bpf_exec P pkt m lo a x = loaded (pkt_word pkt m (unat (addr_off dir))) (\<lambda>v. bpf_exec P pkt m (lo + 1) v x)"
    using bpf_exec_ld_abs(1) [OF P0(1) assms(2) _ P0(2)] P0(3) by (simp add: addr_off_def)
  with N_NET show ?thesis
    using bpf_exec_and [OF P1(1,2)] P1(3)
    by (intro exI [of _ x]) (auto simp: leaf_value_def addr_off_def loaded_def split: option.split)
next
  case (N_PORT dir port)
  let ?k = "if dir = DIR_SRC then 14 else 16 :: u32"
  from N_PORT have P0: "lo < length P" "bpf_code (P ! lo) = 0xb1" "bpf_k (P ! lo) = 14"
    and P1: "lo + 1 < length P" "bpf_code (P ! (lo + 1)) = 0x48" "bpf_k (P ! (lo + 1)) = ?k"
    using P [of 0] P [of 1] by (simp_all add: insn_def)
  have step0: "bpf_exec P pkt m lo a x = loaded (pkt_byte pkt m 14) (\<lambda>b. bpf_exec P pkt m (lo + 1) a ((b AND 0x0f) * 4))"
    using bpf_exec_ldx_msh [OF P0(1) assms(2) _ P0(2)] P0(3) by simp
  have step1: "bpf_exec P pkt m (lo + 1) a ((b AND 0x0f) * 4)
      = loaded (pkt_half pkt m ((if dir = DIR_SRC then 14 else 16) + 4 * (unat b mod 16)))
          (\<lambda>v. bpf_exec P pkt m (lo + 2) v ((b AND 0x0f) * 4))" for b
    using bpf_exec_ld_ind [OF P1(1) assms(2) _ P1(2), of "(b AND 0x0f) * 4" a] unat_port_offset [of dir b] P1(3)
    by (simp split: if_splits)
  show ?thesis
  proof (cases "pkt_byte pkt m 14")
    case None
    with step0 N_PORT show ?thesis by (simp add: leaf_value_def)
  next
    case (Some b)
    with step0 step1 [of b] N_PORT show ?thesis
      by (intro exI [of _ "(b AND 0x0f) * 4"]) (simp add: leaf_value_def)
  qed
qed (use assms(1) in simp_all)

lemma leaf_computes:
  assumes "is_leaf n"
  shows "computes n (length pre) (pre @ leaf_code n) [(length pre + length (leaf_loads n), True)]
    [(length pre + length (leaf_loads n), False)]"
  unfolding computes_def
proof (intro allI impI)
  let ?lo = "length pre" let ?e = "length pre + length (leaf_loads n)"
  fix P pkt m tt ff a x
  assume ag: "agrees P (pre @ leaf_code n) ?lo (set [(?e, True)] \<union> set [(?e, False)])"
    and t: "lands P [(?e, True)] tt" and f: "lands P [(?e, False)] ff" and pkt: "buf_ok pkt m"
  have at: "?lo + j < length P \<and> bpf_code (P ! (?lo + j)) = bpf_code (leaf_code n ! j)
      \<and> bpf_k (P ! (?lo + j)) = bpf_k (leaf_code n ! j)" if "j < length (leaf_code n)" for j
    using ag that unfolding agrees_def by (metis le_add1 length_append nat_add_left_cancel_less nth_append_length_plus)
  obtain x' where run: "bpf_exec P pkt m ?lo a x = loaded (leaf_value pkt m n) (\<lambda>v. bpf_exec P pkt m ?e v x')"
    using leaf_runs [OF assms pkt, of ?lo P a x] at by (auto simp: leaf_code_def nth_append)
  have e: "?e < length P" "bpf_code (P ! ?e) = 0x15" "bpf_k (P ! ?e) = leaf_const n"
    using at [of "length (leaf_loads n)"] by (simp_all add: leaf_code_def insn_def)
  have "bpf_exec P pkt m ?e v x' = bpf_exec P pkt m (if v = leaf_const n then tt else ff) v x'" for v
    using bpf_exec_jeq [OF e(1,2)] t f by (simp add: e(3) lands_def jump_def)
  then show "\<exists>a' x'. bpf_exec P pkt m ?lo a x = (case cf_eval pkt m n of None \<Rightarrow> Some 0
      | Some b \<Rightarrow> bpf_exec P pkt m (if b then tt else ff) a' x')"
    unfolding run cf_eval_leaf [OF assms] by (cases "leaf_value pkt m n") auto
qed

subsection \<open>The generated code computes the tree\<close>

definition compiles :: "node_t \<Rightarrow> cf_gen_t \<Rightarrow> patch_list_t \<Rightarrow> patch_list_t \<Rightarrow>
    (int \<times> cf_gen_t \<times> patch_list_t \<times> patch_list_t) option \<Rightarrow> bool" where
  "compiles n g out_t out_f r \<longleftrightarrow> (\<exists>rc g' ot ot'. r = Some (rc, g', ot, ot')
     \<and> (rc = -1 \<and> failed (gen_ctx g')
        \<or> rc = 0 \<and> gen_ctx g' = gen_ctx g \<and> take (length (insns g)) (insns g') = insns g
          \<and> length (insns g') \<le> 1024
          \<and> (\<exists>ts fs. ot = out_t @ ts \<and> ot' = out_f @ fs \<and> region (length (insns g)) (insns g') ts fs
               \<and> computes n (length (insns g)) (insns g') ts fs)))"

lemma pl_append_eq: "length dst + length src \<le> 1024 \<Longrightarrow> pl_append dst src = Some (dst @ src)"
  by (induction dst src rule: pl_append.induct) (simp_all add: pl_add_def)

lemma compile_leaf_compiles:
  assumes "node_wf n" "is_leaf n" "length (insns g) \<le> 1024"
    and "length out_t \<le> length (insns g)" "length out_f \<le> length (insns g)"
  shows "compiles n g out_t out_f (compile_leaf g n out_t out_f)"
  using emit_leaf_eq [OF assms(3-5), of "leaf_loads n" "leaf_const n"]
    leaf_region [OF assms(2), of "insns g"] leaf_computes [OF assms(2), of "insns g"]
  unfolding compiles_def compile_leaf_emit [OF assms(1,2)] leaf_code_def
  by auto

text \<open>
  One operand, the closing of one of its exits, and the other operand; \<open>a\<close> and \<open>b\<close> are the two
  compilation steps.
\<close>

lemma compiles_seq:
  assumes l: "compiles l g [] [] r1" and r1: "r1 = Some (rc1, g1, lt, lf)" "rc1 = 0"
    and res: "res = (if conjn then lt else lf)"
    and g1': "pl_resolve g1 res (length (insns g1)) = Some g1'" "\<not> failed (gen_ctx g1')"
    and ok: "\<not> failed (gen_ctx g)"
    and r: "compiles r g1' [] [] (Some (0, g2, rt, rf))"
  shows "sequenced (length (insns g)) (insns g1) (insns g1') (insns g2) res (if conjn then lf else lt) rt rf"
    and "computes l (length (insns g)) (insns g1) lt lf" "computes r (length (insns g1)) (insns g2) rt rf"
    and "gen_ctx g2 = gen_ctx g" "take (length (insns g)) (insns g2) = insns g" "length (insns g2) \<le> 1024"
proof -
  have 1: "gen_ctx g1 = gen_ctx g" "take (length (insns g)) (insns g1) = insns g"
    "region (length (insns g)) (insns g1) lt lf" "computes l (length (insns g)) (insns g1) lt lf"
    using l r1 by (auto simp: compiles_def)
  have reg: "region (length (insns g)) (insns g1) res (if conjn then lf else lt)"
    using 1(3) res by (auto simp: region_def)
  have "\<forall>(i, b) \<in> set res. i < length (insns g1)" using reg by (auto simp: region_def)
  then have c: "gen_ctx g1' = gen_ctx g1" "closes (insns g1) (insns g1') res (length (insns g1))"
    using pl_resolve_closes [of g1 res "length (insns g1)"] g1' 1(1) ok by auto
  have len: "length (insns g1') = length (insns g1)" using c(2) by (simp add: closes_def)
  have 2: "gen_ctx g2 = gen_ctx g1'" "take (length (insns g1)) (insns g2) = insns g1'" "length (insns g2) \<le> 1024"
    "region (length (insns g1)) (insns g2) rt rf" "computes r (length (insns g1)) (insns g2) rt rf"
    using r by (auto simp: compiles_def len)
  show seq: "sequenced (length (insns g)) (insns g1) (insns g1') (insns g2) res (if conjn then lf else lt) rt rf"
    using reg c 2 by (simp add: sequenced_def)
  show "computes l (length (insns g)) (insns g1) lt lf" "computes r (length (insns g1)) (insns g2) rt rf"
    "length (insns g2) \<le> 1024" by fact+
  show "gen_ctx g2 = gen_ctx g" using 1 2 c by simp
  have "insns g1' ! i = insns g1 ! i" if "i < length (insns g)" for i
  proof -
    have "i < length (insns g1)" using that reg by (simp add: region_def)
    moreover have "(i, b) \<notin> set res" for b using that sequenced_facts(6) [OF seq, of i b] by auto
    ultimately have "bpf_code (insns g1' ! i) = bpf_code (insns g1 ! i)" "bpf_k (insns g1' ! i) = bpf_k (insns g1 ! i)"
      "jump (insns g1' ! i) b = jump (insns g1 ! i) b" for b
      using c(2) by (auto simp: closes_def)
    from this(1,2) this(3) [of True] this(3) [of False] show ?thesis
      by (simp add: jump_def)
  qed
  then show "take (length (insns g)) (insns g2) = insns g"
    using 1(2) 2(2) len sequenced_facts(2,3) [OF seq]
    by (metis (no_types, opaque_lifting) less_imp_le_nat nth_take_lemma take_take min.absorb1)
qed

lemma compiles_cases:
  assumes "compiles n g out_t out_f r"
  obtains (failed) g' ot ot' where "r = Some (-1, g', ot, ot')" "failed (gen_ctx g')"
  | (code) g' ts fs where "r = Some (0, g', out_t @ ts, out_f @ fs)" "gen_ctx g' = gen_ctx g"
      "length (insns g') \<le> 1024" "region (length (insns g)) (insns g') ts fs"
  using assms unfolding compiles_def by blast

lemma compiles_failed: "failed (gen_ctx g') \<Longrightarrow> compiles n g out_t out_f (Some (-1, g', ot, ot'))"
  unfolding compiles_def by blast

text \<open>
  The three steps both operators share: they either fail or give the two regions in sequence.
\<close>

lemma operands:
  assumes ok: "\<not> failed (gen_ctx g)"
    and l: "compiles l g [] [] (compile_node g (Some l) [] [])"
    and r: "\<And>g. \<not> failed (gen_ctx g) \<Longrightarrow> length (insns g) \<le> 1024 \<Longrightarrow> compiles r g [] [] (compile_node g (Some r) [] [])"
  obtains (left_failed) g1 ot ot' where "compile_node g (Some l) [] [] = Some (-1, g1, ot, ot')" "failed (gen_ctx g1)"
  | (resolve_failed) g1 lt lf g1' where "compile_node g (Some l) [] [] = Some (0, g1, lt, lf)"
      "pl_resolve g1 (if conjn then lt else lf) (length (insns g1)) = Some g1'" "failed (gen_ctx g1')"
  | (right_failed) g1 lt lf g1' g2 ot ot' where "compile_node g (Some l) [] [] = Some (0, g1, lt, lf)"
      "pl_resolve g1 (if conjn then lt else lf) (length (insns g1)) = Some g1'" "\<not> failed (gen_ctx g1')"
      "compile_node g1' (Some r) [] [] = Some (-1, g2, ot, ot')" "failed (gen_ctx g2)"
  | (both) g1 lt lf g1' g2 rt rf where "compile_node g (Some l) [] [] = Some (0, g1, lt, lf)"
      "pl_resolve g1 (if conjn then lt else lf) (length (insns g1)) = Some g1'" "\<not> failed (gen_ctx g1')"
      "compile_node g1' (Some r) [] [] = Some (0, g2, rt, rf)"
      "sequenced (length (insns g)) (insns g1) (insns g1') (insns g2)
         (if conjn then lt else lf) (if conjn then lf else lt) rt rf"
      "computes l (length (insns g)) (insns g1) lt lf" "computes r (length (insns g1)) (insns g2) rt rf"
      "gen_ctx g2 = gen_ctx g" "take (length (insns g)) (insns g2) = insns g" "length (insns g2) \<le> 1024"
  using l
proof (cases rule: compiles_cases)
  case (failed g1 ot ot')
  then show thesis by (rule left_failed)
next
  case (code g1 lt lf)
  then have c1: "compile_node g (Some l) [] [] = Some (0, g1, lt, lf)" by simp
  let ?res = "if conjn then lt else lf"
  have "\<forall>(i, b) \<in> set ?res. i < length (insns g1)" using code(4) by (auto simp: region_def)
  then obtain g1' where g1': "pl_resolve g1 ?res (length (insns g1)) = Some g1'"
    "failed (gen_ctx g1') \<or> gen_ctx g1' = gen_ctx g1 \<and> closes (insns g1) (insns g1') ?res (length (insns g1))"
    using pl_resolve_closes [of g1 ?res] code(2) ok by auto
  show thesis
  proof (cases "failed (gen_ctx g1')")
    case True
    with c1 g1' show thesis by (intro resolve_failed)
  next
    case nf: False
    then have "length (insns g1') \<le> 1024" using g1'(2) code(3) by (auto simp: closes_def)
    note c = r [OF nf this]
    from c show thesis
    proof (cases rule: compiles_cases)
      case (failed g2 ot ot')
      with c1 g1' nf show thesis by (intro right_failed)
    next
      case (code g2 rt rf)
      then have c2: "compile_node g1' (Some r) [] [] = Some (0, g2, rt, rf)" by simp
      show thesis
        by (rule both [OF c1 g1'(1) nf c2]) (rule compiles_seq [OF l c1 refl refl g1'(1) nf ok c [unfolded c2]])+
    qed
  qed
qed

lemma compiles_and:
  assumes ok: "\<not> failed (gen_ctx g)" and out: "length out_t \<le> length (insns g)" "length out_f \<le> length (insns g)"
    and l: "compiles l g [] [] (compile_node g (Some l) [] [])"
    and r: "\<And>g. \<not> failed (gen_ctx g) \<Longrightarrow> length (insns g) \<le> 1024 \<Longrightarrow> compiles r g [] [] (compile_node g (Some r) [] [])"
  shows "compiles (N_AND (Some l) (Some r)) g out_t out_f (compile_node g (Some (N_AND (Some l) (Some r))) out_t out_f)"
proof (rule operands [where conjn = True, OF ok l r])
  fix g1 lt lf g1' g2 rt rf
  assume run: "compile_node g (Some l) [] [] = Some (0, g1, lt, lf)"
      "pl_resolve g1 (if True then lt else lf) (length (insns g1)) = Some g1'" "\<not> failed (gen_ctx g1')"
      "compile_node g1' (Some r) [] [] = Some (0, g2, rt, rf)"
    and seq: "sequenced (length (insns g)) (insns g1) (insns g1') (insns g2)
         (if True then lt else lf) (if True then lf else lt) rt rf"
    and sem: "computes l (length (insns g)) (insns g1) lt lf" "computes r (length (insns g1)) (insns g2) rt rf"
    and rest: "gen_ctx g2 = gen_ctx g" "take (length (insns g)) (insns g2) = insns g" "length (insns g2) \<le> 1024"
  have reg: "region (length (insns g)) (insns g2) rt (lf @ rf)" using region_both [OF seq] by simp
  then have "length out_t + length rt \<le> 1024" "length out_f + length (lf @ rf) \<le> 1024"
    using out rest(3) by (auto simp: region_def)
  with run ok have "compile_node g (Some (N_AND (Some l) (Some r))) out_t out_f = Some (0, g2, out_t @ rt, out_f @ lf @ rf)"
    by (simp add: compile_node.simps [of g] pl_append_eq)
  with rest reg computes_and [OF seq [unfolded if_True] sem]
  show "compiles (N_AND (Some l) (Some r)) g out_t out_f (compile_node g (Some (N_AND (Some l) (Some r))) out_t out_f)"
    unfolding compiles_def by blast
qed (use ok in \<open>simp_all add: compile_node.simps [of g] compiles_failed\<close>)

lemma compiles_or:
  assumes ok: "\<not> failed (gen_ctx g)" and out: "length out_t \<le> length (insns g)" "length out_f \<le> length (insns g)"
    and l: "compiles l g [] [] (compile_node g (Some l) [] [])"
    and r: "\<And>g. \<not> failed (gen_ctx g) \<Longrightarrow> length (insns g) \<le> 1024 \<Longrightarrow> compiles r g [] [] (compile_node g (Some r) [] [])"
  shows "compiles (N_OR (Some l) (Some r)) g out_t out_f (compile_node g (Some (N_OR (Some l) (Some r))) out_t out_f)"
proof (rule operands [where conjn = False, OF ok l r])
  fix g1 lt lf g1' g2 rt rf
  assume run: "compile_node g (Some l) [] [] = Some (0, g1, lt, lf)"
      "pl_resolve g1 (if False then lt else lf) (length (insns g1)) = Some g1'" "\<not> failed (gen_ctx g1')"
      "compile_node g1' (Some r) [] [] = Some (0, g2, rt, rf)"
    and seq: "sequenced (length (insns g)) (insns g1) (insns g1') (insns g2)
         (if False then lt else lf) (if False then lf else lt) rt rf"
    and sem: "computes l (length (insns g)) (insns g1) lt lf" "computes r (length (insns g1)) (insns g2) rt rf"
    and rest: "gen_ctx g2 = gen_ctx g" "take (length (insns g)) (insns g2) = insns g" "length (insns g2) \<le> 1024"
  have reg: "region (length (insns g)) (insns g2) (lt @ rt) rf" using region_both [OF seq] by simp
  then have "length out_t + length (lt @ rt) \<le> 1024" "length out_f + length rf \<le> 1024"
    using out rest(3) by (auto simp: region_def)
  with run ok have "compile_node g (Some (N_OR (Some l) (Some r))) out_t out_f = Some (0, g2, out_t @ lt @ rt, out_f @ rf)"
    by (simp add: compile_node.simps [of g] pl_append_eq)
  with rest reg computes_or [OF seq [unfolded if_False] sem]
  show "compiles (N_OR (Some l) (Some r)) g out_t out_f (compile_node g (Some (N_OR (Some l) (Some r))) out_t out_f)"
    unfolding compiles_def by blast
qed (use ok in \<open>simp_all add: compile_node.simps [of g] compiles_failed\<close>)

lemma compiles_not:
  assumes ok: "\<not> failed (gen_ctx g)" and n: "compiles n g out_f out_t (compile_node g (Some n) out_f out_t)"
  shows "compiles (N_NOT (Some n)) g out_t out_f (compile_node g (Some (N_NOT (Some n))) out_t out_f)"
proof -
  have sym: "region lo code ts fs \<Longrightarrow> region lo code fs ts" for lo code ts fs
    unfolding region_def by (simp add: Int_commute Un_commute)
  show ?thesis
    using n ok unfolding compiles_def
    by (fastforce simp: compile_node.simps [of g] intro: sym computes_not)
qed

theorem compile_node_compiles:
  assumes "node_wf n" "\<not> failed (gen_ctx g)" "length (insns g) \<le> 1024"
    and "length out_t \<le> length (insns g)" "length out_f \<le> length (insns g)"
  shows "compiles n g out_t out_f (compile_node g (Some n) out_t out_f)"
  using assms
proof (induction n arbitrary: g out_t out_f)
  case (N_AND l r)
  then obtain l' r' where "l = Some l'" "r = Some r'" "node_wf l'" "node_wf r'" by (auto split: option.splits)
  with N_AND show ?case by (auto intro!: compiles_and)
next
  case (N_OR l r)
  then obtain l' r' where "l = Some l'" "r = Some r'" "node_wf l'" "node_wf r'" by (auto split: option.splits)
  with N_OR show ?case by (auto intro!: compiles_or)
next
  case (N_NOT l)
  then obtain l' where "l = Some l'" "node_wf l'" by (auto split: option.splits)
  with N_NOT show ?case by (auto intro!: compiles_not)
qed (auto simp: compile_node.simps intro: compile_leaf_compiles)

end
