(* ===== verification/Capfilter.thy ===== *)
theory Capfilter
  imports Capfilter_Codegen
begin

text \<open>
  The public interface of \<open>src/src/c/capfilter.c\<close> and its end-to-end correctness: the program
  \<open>capfilter_compile\<close> returns accepts exactly the packets on which the expression evaluates to true.

  \<open>mem_ok\<close> says whether the final \<open>malloc\<close> succeeds. The token array has 256 entries, so the fuel of
  \<open>4 * 256 + 3\<close> is never exhausted (\<open>capfilter_compile_cases\<close>).
\<close>

subsection \<open>Operations\<close>

abbreviation CF_FUEL :: nat where "CF_FUEL \<equiv> 1027"

definition cf_generate :: "cf_gen_t \<Rightarrow> node_t option \<Rightarrow> (int \<times> cf_gen_t) option" where
  "cf_generate gen root = do {
     (rc, gen, true_list, false_list) \<leftarrow> compile_node gen root [] [];
     if rc < 0 then Some (-1, gen)
     else do {
       gen \<leftarrow> pl_resolve gen true_list (length (insns gen));
       if failed (gen_ctx gen) then Some (-1, gen)
       else
         let (idx, gen) = gen_push gen (insn (BPF_RET OR BPF_K) 0 0 CF_ACCEPT_LEN) in
         if idx < 0 then Some (-1, gen)
         else do {
           gen \<leftarrow> pl_resolve gen false_list (length (insns gen));
           if failed (gen_ctx gen) then Some (-1, gen)
           else
             let (idx, gen) = gen_push gen (insn (BPF_RET OR BPF_K) 0 0 0) in
             if idx < 0 then Some (-1, gen) else Some (0, gen)
         }
     }
   }"

definition capfilter_compile ::
  "bool \<Rightarrow> string option \<Rightarrow> sock_fprog option \<Rightarrow> string option \<Rightarrow> int \<Rightarrow>
    (int \<times> sock_fprog option \<times> string option) option" where
  "capfilter_compile mem_ok expr out err_buf err_size =
     (case out of
        None \<Rightarrow> Some (-1, None, err_buf)
      | Some _ \<Rightarrow>
          let out = Some \<lparr>fprog_len = 0, fprog_filter = None\<rparr> in
          if expr = None \<or> expr = Some [] then Some (0, out, err_buf)
          else do {
            ctx \<leftarrow> cf_lex (init_ctx err_buf err_size) (the expr);
            if failed ctx then Some (-1, out, err ctx)
            else do {
              (root, p) \<leftarrow> parse_expr CF_FUEL \<lparr>p_ctx = ctx, arena_count = 0\<rparr>;
              ctx \<leftarrow> (if failed (p_ctx p) then Some (p_ctx p)
                else do {
                  t \<leftarrow> p_peek p;
                  Some (if tok_type t \<noteq> TOK_END
                        then cf_fail ''unexpected trailing tokens in filter expression'' (p_ctx p)
                        else p_ctx p)
                });
              if failed ctx then Some (-1, out, err ctx)
              else do {
                (rc, gen) \<leftarrow> cf_generate \<lparr>insns = [], gen_ctx = ctx\<rparr> root;
                if rc < 0 then Some (-1, out, err (gen_ctx gen))
                else if \<not> mem_ok then
                  Some (-1, out, err (cf_fail ''out of memory compiling filter'' (gen_ctx gen)))
                else
                  Some (0, Some \<lparr>fprog_len = of_nat (length (insns gen)), fprog_filter = Some (insns gen)\<rparr>,
                        err (gen_ctx gen))
              }
            }
          })"

definition capfilter_free :: "sock_fprog option \<Rightarrow> sock_fprog option" where
  "capfilter_free fprog = map_option (\<lambda>_. \<lparr>fprog_len = 0, fprog_filter = None\<rparr>) fprog"

definition fmt_3u :: "nat \<Rightarrow> string" where
  "fmt_3u n = replicate (3 - length (fmt_u n)) CHR '' '' @ fmt_u n"

definition fmt_04x :: "nat \<Rightarrow> string" where
  "fmt_04x n = replicate (4 - length (fmt_x n)) CHR ''0'' @ fmt_x n"

definition print_insn :: "nat \<Rightarrow> sock_filter \<Rightarrow> string" where
  "print_insn i f = fmt_3u i @ '': code=0x'' @ fmt_04x (unat (bpf_code f)) @ '' jt='' @ fmt_u (unat (bpf_jt f))
     @ '' jf='' @ fmt_u (unat (bpf_jf f)) @ '' k=0x'' @ fmt_x (unat (bpf_k f)) @ ''\<newline>''"

definition capfilter_print :: "sock_fprog option \<Rightarrow> string option" where
  "capfilter_print fprog =
     (if fprog = None \<or> fprog_filter (the fprog) = None then Some ''(empty filter - accepts everything)\<newline>''
      else
        let len = unat (fprog_len (the fprog)); code = the (fprog_filter (the fprog)) in
        if len \<le> length code then Some (concat (map (\<lambda>i. print_insn i (code ! i)) [0 ..< len])) else None)"

subsection \<open>Generated programs\<close>

text \<open>A program that computes a tree: it can be attached, and every run ends with the verdict.\<close>

definition implements :: "sock_filter list \<Rightarrow> node_t \<Rightarrow> bool" where
  "implements is n \<longleftrightarrow> bpf_attachable is \<and> length is \<le> 1024 \<and> (\<forall>pkt m. buf_ok pkt m \<longrightarrow>
     bpf_exec is pkt m 0 0 0 = Some (if cf_eval pkt m n = Some True then CF_ACCEPT_LEN else 0))"

abbreviation ret_insn :: "u32 \<Rightarrow> sock_filter" where
  "ret_insn k \<equiv> insn (BPF_RET OR BPF_K) 0 0 k"

definition returns :: "sock_filter list \<Rightarrow> nat \<Rightarrow> u32 \<Rightarrow> bool" where
  "returns P i k \<longleftrightarrow> bpf_code (P ! i) = 0x06 \<and> bpf_k (P ! i) = k"

text \<open>
  The end of the code generator: the true jumps of a region are bound to an accepting return behind it,
  the false jumps to a rejecting one behind that.
\<close>

lemma finished_program:
  assumes reg: "region 0 is ts fs" and c1: "closes is is2 ts (length is)"
    and c2: "closes (is2 @ [ret_insn CF_ACCEPT_LEN]) is4 fs (Suc (length is))"
  defines "P \<equiv> is4 @ [ret_insn 0]"
  shows "length P = length is + 2" "lands P ts (length is)" "lands P fs (Suc (length is))"
    "agrees P is 0 (set ts \<union> set fs)" "returns P (length is) CF_ACCEPT_LEN" "returns P (Suc (length is)) 0"
proof -
  show l: "length P = length is + 2" using c1 c2 by (simp add: closes_def P_def)
  have l2: "length is2 = length is" "length is4 = Suc (length is)" using c1 c2 by (simp_all add: closes_def)
  have dis: "set ts \<inter> set fs = {}" and inside: "(i, b) \<in> set ts \<union> set fs \<Longrightarrow> i < length is" for i b
    using reg by (auto simp: region_def)
  have P: "bpf_code (P ! i) = bpf_code (is ! i)" "bpf_k (P ! i) = bpf_k (is ! i)"
    "(i, b) \<notin> set fs \<Longrightarrow> jump (P ! i) b = jump (is2 ! i) b" if "i < length is" for i b
    using c1 c2 l2 that by (auto simp: closes_def P_def nth_append)
  show "lands P ts (length is)"
    unfolding lands_def
  proof clarify
    fix i b assume "(i, b) \<in> set ts"
    moreover from this have "jump (P ! i) b = jump (is2 ! i) b" using inside [of i b] dis P(3) [of i b] by blast
    ultimately show "i + 1 + unat (jump (P ! i) b) = length is" using c1 by (auto simp: closes_def lands_def)
  qed
  show "lands P fs (Suc (length is))"
    unfolding lands_def
  proof clarify
    fix i b assume "(i, b) \<in> set fs"
    moreover from this have "P ! i = is4 ! i" using inside [of i b] l2 by (simp add: P_def nth_append)
    ultimately show "i + 1 + unat (jump (P ! i) b) = Suc (length is)" using c2 by (auto simp: closes_def lands_def)
  qed
  show "agrees P is 0 (set ts \<union> set fs)" unfolding agrees_def using P c1 l l2 by (auto simp: closes_def)
  show "returns P (length is) CF_ACCEPT_LEN" "returns P (Suc (length is)) 0"
    using c2 l2 by (auto simp: returns_def closes_def P_def nth_append insn_def)
qed

lemma finished_attachable:
  assumes "region 0 is ts fs" "length P = length is + 2" "lands P ts (length is)" "lands P fs (Suc (length is))"
    and ag: "agrees P is 0 (set ts \<union> set fs)" and ret: "returns P (length is) CF_ACCEPT_LEN" "returns P (Suc (length is)) 0"
    and len: "length is \<le> 1022"
  shows "bpf_attachable P"
proof -
  have split: "i < length is \<or> i = length is \<or> i = Suc (length is)" if "i < length P" for i using that assms(2) by linarith
  have jumps: "i + 1 + unat (jump (P ! i) b) < length P" if "i < length is" "bpf_code (P ! i) = 0x15" for i b
  proof -
    consider "(i, b) \<in> set ts" | "(i, b) \<in> set fs" | "(i, b) \<notin> set ts \<union> set fs" by blast
    then show ?thesis
    proof cases
      case 3
      then have "jump (P ! i) b = jump (is ! i) b" using ag that by (auto simp: agrees_def)
      with 3 assms(1,2) that ag show ?thesis by (fastforce simp: region_def agrees_def)
    qed (use assms(2-4) in \<open>auto simp: lands_def\<close>)
  qed
  have "bpf_code (P ! i) \<in> known_opcodes" if "i < length P" for i
    using split [OF that] assms(1) ag ret by (auto simp: region_def agrees_def known_opcodes_def returns_def)
  moreover have "i + 1 + unat (bpf_jt (P ! i)) < length P \<and> i + 1 + unat (bpf_jf (P ! i)) < length P"
    if "i < length P" "bpf_code (P ! i) = 0x15" for i
  proof -
    have "i < length is" using split [OF that(1)] that(2) ret by (auto simp: returns_def)
    then show ?thesis using jumps [of i True] jumps [of i False] that by (simp add: jump_def)
  qed
  moreover have "P \<noteq> []" using assms(2) by auto
  moreover from this have "bpf_code (last P) = 0x06" using assms(2) ret(2) by (simp add: last_conv_nth returns_def)
  ultimately show ?thesis using assms(2) len by (auto simp: bpf_attachable_def)
qed

lemma finish:
  assumes reg: "region 0 is ts fs" and sem: "computes n 0 is ts fs"
    and c1: "closes is is2 ts (length is)"
    and c2: "closes (is2 @ [ret_insn CF_ACCEPT_LEN]) is4 fs (Suc (length is))"
    and len: "length is \<le> 1022"
  shows "implements (is4 @ [ret_insn 0]) n"
proof -
  note P = finished_program [OF reg c1 c2]
  let ?P = "is4 @ [ret_insn 0]"
  have "bpf_exec ?P pkt m 0 0 0 = Some (if cf_eval pkt m n = Some True then CF_ACCEPT_LEN else 0)"
    if ok: "buf_ok pkt m" for pkt m
  proof -
    obtain a x where "bpf_exec ?P pkt m 0 0 0 = (case cf_eval pkt m n of None \<Rightarrow> Some 0
        | Some b \<Rightarrow> bpf_exec ?P pkt m (if b then length is else Suc (length is)) a x)"
      using computesD [OF sem P(4,2,3) ok] by metis
    then show ?thesis using P(1,5,6) by (auto simp: returns_def bpf_exec_ret split: option.split)
  qed
  then show ?thesis
    using finished_attachable [OF reg P len] P(1) len by (auto simp: implements_def)
qed

text \<open>From the compiled tree with its accepting return to the finished program.\<close>

lemma finish_generated:
  assumes code: "compile_node g0 (Some n) [] [] = Some (0, g1, ts, fs)" "region 0 (insns g1) ts fs" "computes n 0 (insns g1) ts fs"
    and g2: "pl_resolve g1 ts (length (insns g1)) = Some g2" "gen_ctx g2 = c" "\<not> failed c"
      "closes (insns g1) (insns g2) ts (length (insns g1))" "length (insns g2) < 1024"
  shows "\<exists>rc g. cf_generate g0 (Some n) = Some (rc, g)
    \<and> (rc = -1 \<and> failed (gen_ctx g) \<or> rc = 0 \<and> gen_ctx g = c \<and> implements (insns g) n)"
proof -
  define g3 where "g3 = g2\<lparr>insns := insns g2 @ [ret_insn CF_ACCEPT_LEN]\<rparr>"
  have len: "length (insns g2) = length (insns g1)" using g2(4) by (simp add: closes_def)
  have in_fs: "\<forall>(i, b) \<in> set fs. i < length (insns g1)" using code(2) by (auto simp: region_def)
  have "\<forall>(i, b) \<in> set fs. i < length (insns g3)" using in_fs len by (fastforce simp: g3_def)
  then obtain g4 where g4: "pl_resolve g3 fs (length (insns g3)) = Some g4"
    "failed (gen_ctx g4) \<or> gen_ctx g4 = c \<and> closes (insns g3) (insns g4) fs (length (insns g3))"
    using pl_resolve_closes [of g3 fs "length (insns g3)"] g2(2,3) by (auto simp: g3_def)
  have run: "cf_generate g0 (Some n) = (if failed (gen_ctx g4) then Some (-1, g4)
      else if 1024 \<le> length (insns g4) then Some (-1, gen_fail ''compiled filter is too large'' g4)
      else Some (0, g4\<lparr>insns := insns g4 @ [ret_insn 0]\<rparr>))"
    using code(1) g2 g4(1) by (simp add: cf_generate_def gen_push_def g3_def)
  show ?thesis
  proof (cases "failed (gen_ctx g4) \<or> 1024 \<le> length (insns g4)")
    case True
    with run show ?thesis by (auto simp: gen_fail_def)
  next
    case False
    then have c4: "gen_ctx g4 = c" "closes (insns g2 @ [ret_insn CF_ACCEPT_LEN]) (insns g4) fs (Suc (length (insns g1)))"
      using g4(2) len by (auto simp: g3_def)
    moreover have "length (insns g1) \<le> 1022" using False c4(2) len by (simp add: closes_def)
    ultimately show ?thesis using run False finish [OF code(2,3) g2(4) c4(2)] by simp
  qed
qed

lemma cf_generate_implements:
  assumes "node_wf n" "\<not> failed c"
  shows "\<exists>rc g. cf_generate \<lparr>insns = [], gen_ctx = c\<rparr> (Some n) = Some (rc, g)
    \<and> (rc = -1 \<and> failed (gen_ctx g) \<or> rc = 0 \<and> gen_ctx g = c \<and> implements (insns g) n)"
proof -
  let ?g0 = "\<lparr>insns = [], gen_ctx = c\<rparr>"
  have "compiles n ?g0 [] [] (compile_node ?g0 (Some n) [] [])"
    using assms by (intro compile_node_compiles) simp_all
  then consider (failed) g' ot ot' where "compile_node ?g0 (Some n) [] [] = Some (-1, g', ot, ot')" "failed (gen_ctx g')"
    | (code) g1 ts fs where "compile_node ?g0 (Some n) [] [] = Some (0, g1, ts, fs)" "gen_ctx g1 = c"
      "length (insns g1) \<le> 1024" "region 0 (insns g1) ts fs" "computes n 0 (insns g1) ts fs"
    by (auto simp: compiles_def)
  then show ?thesis
  proof cases
    case failed
    then show ?thesis by (simp add: cf_generate_def)
  next
    case code
    have in1: "\<forall>(i, b) \<in> set ts. i < length (insns g1)" using code(4) by (auto simp: region_def)
    obtain g2 where g2: "pl_resolve g1 ts (length (insns g1)) = Some g2"
      "failed (gen_ctx g2) \<or> gen_ctx g2 = c \<and> closes (insns g1) (insns g2) ts (length (insns g1))"
      using pl_resolve_closes [of g1 ts "length (insns g1)"] in1 assms(2) code(2) by auto
    show ?thesis
    proof (cases "failed (gen_ctx g2) \<or> 1024 \<le> length (insns g2)")
      case True
      with code g2 show ?thesis
        by (auto simp: cf_generate_def gen_push_def gen_fail_def)
    next
      case False
      then have "gen_ctx g2 = c" "closes (insns g1) (insns g2) ts (length (insns g1))" "length (insns g2) < 1024" using g2(2) by auto
      then show ?thesis by (rule finish_generated [OF code(1,4,5) g2(1) _ assms(2)])
    qed
  qed
qed

subsection \<open>Programs of moderate size are never refused\<close>

fun insn_count :: "node_t \<Rightarrow> nat" where
  "insn_count (N_AND l r) = (case l of None \<Rightarrow> 0 | Some n \<Rightarrow> insn_count n)
     + (case r of None \<Rightarrow> 0 | Some n \<Rightarrow> insn_count n)"
| "insn_count (N_OR l r) = (case l of None \<Rightarrow> 0 | Some n \<Rightarrow> insn_count n)
     + (case r of None \<Rightarrow> 0 | Some n \<Rightarrow> insn_count n)"
| "insn_count (N_NOT l) = (case l of None \<Rightarrow> 0 | Some n \<Rightarrow> insn_count n)"
| "insn_count n = length (leaf_code n)"

text \<open>A jump over at most 255 instructions can be encoded.\<close>

lemma pl_resolve_near:
  assumes "target \<le> 256" "\<forall>(i, b) \<in> set pl. i < target \<and> i < length (insns g)"
  shows "\<exists>g'. pl_resolve g pl target = Some g' \<and> gen_ctx g' = gen_ctx g \<and> length (insns g') = length (insns g)"
  using assms(2)
proof (induction pl arbitrary: g)
  case (Cons e pl)
  obtain idx b where e: "e = (idx, b)" by (cases e)
  define off where "off = int target - (int idx + 1)"
  define g1 where "g1 = g\<lparr>insns := (insns g)[idx := set_jump (insns g ! idx) b (word_of_int off)]\<rparr>"
  have idx: "idx < target" "idx < length (insns g)" using Cons.prems e by auto
  then have "0 \<le> off" "off \<le> 255" using assms(1) by (auto simp: off_def)
  with idx have "pl_resolve g (e # pl) target = pl_resolve g1 pl target"
    by (simp add: e g1_def flip: off_def)
  with Cons.IH [of g1] Cons.prems show ?case by (simp add: g1_def)
qed simp

text \<open>Compilation that succeeds, with the number of instructions it emits.\<close>

definition emits :: "node_t \<Rightarrow> cf_gen_t \<Rightarrow> (int \<times> cf_gen_t \<times> patch_list_t \<times> patch_list_t) option \<Rightarrow> bool" where
  "emits n g r \<longleftrightarrow> (\<exists>g' ot ot'. r = Some (0, g', ot, ot') \<and> length (insns g') = length (insns g) + insn_count n)"

lemma operands_near:
  assumes wf: "node_wf l" "node_wf r" and ok: "\<not> failed (gen_ctx g)"
    and len: "length (insns g) + insn_count l + insn_count r \<le> 256"
    and l: "emits l g (compile_node g (Some l) [] [])"
    and r: "\<And>g. \<not> failed (gen_ctx g) \<Longrightarrow> length (insns g) + insn_count r \<le> 256 \<Longrightarrow>
      emits r g (compile_node g (Some r) [] [])"
  obtains g1 lt lf g1' g2 rt rf where "compile_node g (Some l) [] [] = Some (0, g1, lt, lf)"
    "pl_resolve g1 (if conjn then lt else lf) (length (insns g1)) = Some g1'" "\<not> failed (gen_ctx g1')"
    "compile_node g1' (Some r) [] [] = Some (0, g2, rt, rf)"
    "length (insns g2) = length (insns g) + insn_count l + insn_count r"
    "length lt \<le> 256" "length lf \<le> 256" "length rt \<le> 256" "length rf \<le> 256"
proof -
  have "compiles l g [] [] (compile_node g (Some l) [] [])"
    using wf ok len by (intro compile_node_compiles) simp_all
  with l obtain g1 lt lf where g1: "compile_node g (Some l) [] [] = Some (0, g1, lt, lf)"
    "gen_ctx g1 = gen_ctx g" "length (insns g1) = length (insns g) + insn_count l"
    "region (length (insns g)) (insns g1) lt lf"
    unfolding compiles_def emits_def by auto
  have "\<forall>(i, b) \<in> set (if conjn then lt else lf). i < length (insns g1) \<and> i < length (insns g1)"
    using g1(4) by (auto simp: region_def)
  moreover have "length (insns g1) \<le> 256" using g1(3) len by simp
  ultimately obtain g1' where g1': "pl_resolve g1 (if conjn then lt else lf) (length (insns g1)) = Some g1'"
    "gen_ctx g1' = gen_ctx g1" "length (insns g1') = length (insns g1)"
    using pl_resolve_near by blast
  have nf: "\<not> failed (gen_ctx g1')" using g1' g1 ok by simp
  then have "compiles r g1' [] [] (compile_node g1' (Some r) [] [])"
    using wf g1 g1' len by (intro compile_node_compiles) simp_all
  moreover have "emits r g1' (compile_node g1' (Some r) [] [])" using nf g1 g1' len by (intro r) simp_all
  ultimately obtain g2 rt rf where g2: "compile_node g1' (Some r) [] [] = Some (0, g2, rt, rf)"
    "length (insns g2) = length (insns g1') + insn_count r" "region (length (insns g1')) (insns g2) rt rf"
    unfolding compiles_def emits_def by auto
  show thesis
    by (rule that [OF g1(1) g1'(1) nf g2(1)]) (use g1 g1' g2 len in \<open>auto simp: region_def\<close>)
qed

lemma compile_node_emits:
  assumes "node_wf n" "\<not> failed (gen_ctx g)" "length (insns g) + insn_count n \<le> 256"
    and "length out_t \<le> 256" "length out_f \<le> 256" 
  shows "emits n g (compile_node g (Some n) out_t out_f)"
  using assms
proof (induction n arbitrary: g out_t out_f)
  case (N_AND l r)
  then obtain l' r' where lr: "l = Some l'" "r = Some r'" "node_wf l'" "node_wf r'" by (auto split: option.splits)
  have len: "length (insns g) + insn_count l' + insn_count r' \<le> 256" using N_AND.prems(3) lr by simp
  have l: "emits l' g (compile_node g (Some l') [] [])" using N_AND lr len by auto
  have r: "emits r' g (compile_node g (Some r') [] [])"
    if "\<not> failed (gen_ctx g)" "length (insns g) + insn_count r' \<le> 256" for g using N_AND lr that by auto
  show ?case
    by (rule operands_near [where conjn = True, OF lr(3,4) N_AND.prems(2) len l r])
      (use N_AND.prems lr in \<open>auto simp: emits_def compile_node.simps [of g] pl_append_eq\<close>)
next
  case (N_OR l r)
  then obtain l' r' where lr: "l = Some l'" "r = Some r'" "node_wf l'" "node_wf r'" by (auto split: option.splits)
  have len: "length (insns g) + insn_count l' + insn_count r' \<le> 256" using N_OR.prems(3) lr by simp
  have l: "emits l' g (compile_node g (Some l') [] [])" using N_OR lr len by auto
  have r: "emits r' g (compile_node g (Some r') [] [])"
    if "\<not> failed (gen_ctx g)" "length (insns g) + insn_count r' \<le> 256" for g using N_OR lr that by auto
  show ?case
    by (rule operands_near [where conjn = False, OF lr(3,4) N_OR.prems(2) len l r])
      (use N_OR.prems lr in \<open>auto simp: emits_def compile_node.simps [of g] pl_append_eq\<close>)
next
  case (N_NOT l)
  then obtain l' where l: "l = Some l'" "node_wf l'" by (auto split: option.splits)
  with N_NOT.prems have "emits l' g (compile_node g (Some l') out_f out_t)" by (intro N_NOT.IH) auto
  with l N_NOT.prems show ?case by (auto simp: emits_def compile_node.simps [of g])
qed (auto simp: emits_def compile_node.simps compile_leaf_emit emit_leaf_def emit_loads_eq gen_push_def pl_add_def
    leaf_code_def Let_def simp del: leaf_loads.simps leaf_const.simps)

lemma cf_generate_near:
  assumes "node_wf n" "\<not> failed c" "insn_count n \<le> 255"
  shows "\<exists>g. cf_generate \<lparr>insns = [], gen_ctx = c\<rparr> (Some n) = Some (0, g)"
proof -
  let ?g0 = "\<lparr>insns = [], gen_ctx = c\<rparr>"
  have "compiles n ?g0 [] [] (compile_node ?g0 (Some n) [] [])"
    using assms by (intro compile_node_compiles) simp_all
  moreover have "emits n ?g0 (compile_node ?g0 (Some n) [] [])"
    using assms by (intro compile_node_emits) simp_all
  ultimately obtain g1 ts fs where g1: "compile_node ?g0 (Some n) [] [] = Some (0, g1, ts, fs)"
    "gen_ctx g1 = c" "length (insns g1) \<le> 255" "region 0 (insns g1) ts fs"
    using assms(3) unfolding compiles_def emits_def by auto
  have inside: "\<forall>(i, b) \<in> set ts. i < length (insns g1)" "\<forall>(i, b) \<in> set fs. i < length (insns g1)"
    using g1(4) by (auto simp: region_def)
  obtain g2 where g2: "pl_resolve g1 ts (length (insns g1)) = Some g2" "gen_ctx g2 = c"
    "length (insns g2) = length (insns g1)"
    using pl_resolve_near [of "length (insns g1)" ts g1] inside(1) g1(2,3) by auto
  define g3 where "g3 = g2\<lparr>insns := insns g2 @ [ret_insn CF_ACCEPT_LEN]\<rparr>"
  have "\<forall>(i, b) \<in> set fs. i < length (insns g3) \<and> i < length (insns g3)"
    using inside(2) g2(3) by (fastforce simp: g3_def)
  moreover have "length (insns g3) \<le> 256" using g1(3) g2(3) by (simp add: g3_def)
  ultimately obtain g4 where g4: "pl_resolve g3 fs (length (insns g3)) = Some g4" "gen_ctx g4 = c"
    "length (insns g4) = length (insns g3)"
    using pl_resolve_near [of "length (insns g3)" fs g3] g2(2) by (auto simp: g3_def)
  show ?thesis
    using g1(1,3) g2 g4 assms(2) by (simp add: cf_generate_def gen_push_def g3_def)
qed

subsection \<open>Sentences and their trees\<close>

text \<open>Every address token carries four bytes, so every sentence has a well-formed tree.\<close>

definition token_wf :: "token_t \<Rightarrow> bool" where
  "token_wf t \<longleftrightarrow> tok_type t \<noteq> TOK_END \<and> length (tok_addr t) = 4"

lemma tok_text_wf: "tok_text w t \<Longrightarrow> token_wf t"
  by (induction rule: tok_text.induct)
    (auto simp: token_wf_def tok_def zero_tok_def number_tok_def ipv4_tok_def quad_text_def dest: keyword_shape)

lemma spells_wf: "spells tok_text s ts \<Longrightarrow> \<forall>t \<in> set ts. token_wf t"
  using spells_all [of tok_text s ts token_wf] tok_text_wf by blast

lemma cf_primitive_wf:
  assumes "cf_primitive ts n" "\<forall>t \<in> set ts. token_wf t"
  shows "node_wf n"
  using assms
  by (auto elim!: cf_primitive.cases cf_operand.cases
      simp: under_ipv4_def either_dir_def tcp_or_udp_def token_wf_def split: option.split)

lemma sentence_wf:
  "not_expr cf_syntax ts n \<Longrightarrow> (\<forall>t \<in> set ts. token_wf t) \<longrightarrow> node_wf n"
  "and_expr cf_syntax ts n \<Longrightarrow> (\<forall>t \<in> set ts. token_wf t) \<longrightarrow> node_wf n"
  "or_expr cf_syntax ts n \<Longrightarrow> (\<forall>t \<in> set ts. token_wf t) \<longrightarrow> node_wf n"
  by (induction rule: not_expr_and_expr_or_expr.inducts)
    (auto simp: cf_syntax_select dest: cf_primitive_wf)

lemma sentence_nonempty:
  "not_expr cf_syntax ts n \<Longrightarrow> ts \<noteq> []" "and_expr cf_syntax ts n \<Longrightarrow> ts \<noteq> []" "or_expr cf_syntax ts n \<Longrightarrow> ts \<noteq> []"
  by (induction rule: not_expr_and_expr_or_expr.inducts)
    (auto simp: cf_syntax_select dest: cf_primitive_start)

subsection \<open>Compiling a token list\<close>

text \<open>What \<open>capfilter_compile\<close> does with the tokens \<open>ts\<close> of a non-empty expression.\<close>

abbreviation no_filter :: sock_fprog where
  "no_filter \<equiv> \<lparr>fprog_len = 0, fprog_filter = None\<rparr>"

definition program :: "sock_filter list \<Rightarrow> sock_fprog" where
  "program is = \<lparr>fprog_len = of_nat (length is), fprog_filter = Some is\<rparr>"

lemma compile_parsed:
  assumes "s \<noteq> []" "cf_lex (init_ctx eb el) s = Some c" "\<not> failed c"
    and "parse_expr CF_FUEL \<lparr>p_ctx = c, arena_count = 0\<rparr> = Some (r, p')" "cf_ok p'"
  shows "capfilter_compile mem_ok (Some s) (Some f) eb el =
      (if cf_bad p' \<or> \<not> is_end cf_syntax (hd (cf_rest p'))
       then Some (-1, Some no_filter, err (cf_fail ''unexpected trailing tokens in filter expression'' (p_ctx p')))
       else do {
         (rc, gen) \<leftarrow> cf_generate \<lparr>insns = [], gen_ctx = p_ctx p'\<rparr> r;
         if rc < 0 then Some (-1, Some no_filter, err (gen_ctx gen))
         else if \<not> mem_ok then
           Some (-1, Some no_filter, err (cf_fail ''out of memory compiling filter'' (gen_ctx gen)))
         else Some (0, Some (program (insns gen)), err (gen_ctx gen)) })"
  using assms unfolding program_def capfilter_compile_def Let_def
  by (simp add: p_peek_ok cf_syntax_select cf_fail_first)

lemma compile_tokens:
  assumes lex: "cf_lex (init_ctx eb el) s = Some c" "\<not> failed c" "toks c = ts @ [tok TOK_END]" "pos c = 0"
    and s: "s \<noteq> []" and wf: "\<forall>t \<in> set ts. token_wf t" and len: "length ts < 256"
  obtains (reject) e where "capfilter_compile mem_ok (Some s) (Some f) eb el = Some (-1, Some no_filter, e)"
      "\<And>n. or_expr cf_syntax ts n \<Longrightarrow> node_count n \<le> 256 \<Longrightarrow> insn_count n \<le> 255 \<Longrightarrow> \<not> mem_ok"
  | (accept) n code e where "capfilter_compile mem_ok (Some s) (Some f) eb el = Some (0, Some (program code), e)"
      "or_expr cf_syntax ts n" "implements code n"
      "\<And>m. or_expr cf_syntax ts m \<Longrightarrow> node_count m \<le> 256 \<Longrightarrow> m = n"
proof -
  define p0 where "p0 = \<lparr>p_ctx = c, arena_count = 0\<rparr>"
  have ok: "cf_ok p0" "\<not> failed (p_ctx p0)" "cf_rest p0 = ts @ [tok TOK_END]" "cf_room p0 = 256"
    using lex wf by (auto simp: cf_ok_def cf_rest_def cf_room_def p0_def tok_def token_wf_def)
  obtain r p' where p': "parse_expr CF_FUEL p0 = Some (r, p')" "cf_ok p'"
    and iff: "\<And>m. \<not> cf_bad p' \<and> is_end cf_syntax (hd (cf_rest p')) \<and> r = Some m
      \<longleftrightarrow> or_expr cf_syntax ts m \<and> node_count m \<le> 256"
    and some: "\<not> cf_bad p' \<Longrightarrow> \<exists>m. r = Some m"
    by (rule cf.parse_iff [OF ok(1-3), of CF_FUEL]) (use ok len in auto)
  note run = compile_parsed [OF s lex(1,2) p' [unfolded p0_def], of mem_ok f]
  show thesis
  proof (cases "cf_bad p' \<or> \<not> is_end cf_syntax (hd (cf_rest p'))")
    case True
    with run iff show thesis by (intro reject) auto
  next
    case False
    then obtain m where m: "r = Some m" "or_expr cf_syntax ts m" "node_count m \<le> 256" using some iff by blast
    have "node_wf m" using sentence_wf(3) [OF m(2)] wf by blast
    note g = cf_generate_implements [OF this, of "p_ctx p'"] cf_generate_near [OF this, of "p_ctx p'"]
    have unique: "m' = m" if "or_expr cf_syntax ts m'" "node_count m' \<le> 256" for m'
      using iff [of m'] that m(1) by simp
    from g(1) False obtain rc gen where gen: "cf_generate \<lparr>insns = [], gen_ctx = p_ctx p'\<rparr> r = Some (rc, gen)"
      "rc = -1 \<or> rc = 0 \<and> implements (insns gen) m"
      using m(1) by auto
    show thesis
    proof (cases "rc = 0 \<and> mem_ok")
      case True
      have "capfilter_compile mem_ok (Some s) (Some f) eb el = Some (0, Some (program (insns gen)), err (gen_ctx gen))"
        using run False gen True by simp
      moreover have "implements (insns gen) m" using gen(2) True by simp
      ultimately show thesis using m(2) unique by (intro accept)
    next
      case nacc: False
      have no: "\<not> mem_ok" if "or_expr cf_syntax ts n" "node_count n \<le> 256" "insn_count n \<le> 255" for n
        using unique [OF that(1,2)] that(3) g(2) gen(1) m(1) False nacc by auto
      from run False gen nacc obtain e where
        "capfilter_compile mem_ok (Some s) (Some f) eb el = Some (-1, Some no_filter, e)" by auto
      from this no show thesis by (rule reject)
    qed
  qed
qed

lemma compile_outcome:
  assumes "s \<noteq> []"
  obtains (overflow) ts where "capfilter_compile mem_ok (Some s) (Some f) eb el = None"
      "spells tok_text s ts" "length ts = 256"
  | (reject) e where "capfilter_compile mem_ok (Some s) (Some f) eb el = Some (-1, Some no_filter, e)"
  | (accept) ts n code e where
      "capfilter_compile mem_ok (Some s) (Some f) eb el = Some (0, Some (program code), e)"
      "spells tok_text s ts" "or_expr cf_syntax ts n" "implements code n"
proof (cases "cf_lex (init_ctx eb el) s")
  case None
  then obtain ts where "spells tok_text s ts" "length ts = 256"
    using cf_lexer.undefined_only_when_full [OF None] by (auto simp: init_ctx_def)
  with None assms show thesis by (intro overflow) (simp_all add: capfilter_compile_def)
next
  case (Some c)
  show thesis
  proof (cases "failed c")
    case True
    with Some assms show thesis by (intro reject) (simp add: capfilter_compile_def)
  next
    case False
    obtain ts where ts: "toks c = ts @ [tok TOK_END]" "pos c = 0" "spells tok_text s ts" "length ts < 256"
      by (rule cf_lexer.from_start [OF Some False])
    show thesis
      by (rule compile_tokens [OF Some False ts(1,2) assms spells_wf [OF ts(3)] ts(4), of mem_ok f])
        (auto intro: reject accept ts)
  qed
qed

lemma implements_length:
  assumes "implements code n"
  shows "code \<noteq> []" "length code \<le> 1024" "unat (fprog_len (program code)) = length code"
proof -
  show code: "code \<noteq> []" "length code \<le> 1024" using assms by (auto simp: implements_def bpf_attachable_def)
  then show "unat (fprog_len (program code)) = length code"
    by (simp add: program_def unat_of_nat)
qed

lemma implements_run:
  assumes "implements code n" "buf_ok pkt m"
  shows "bpf_interp_run (Some (program code)) pkt m
    = Some (if cf_eval pkt m n = Some True then CF_ACCEPT_LEN else 0)"
proof -
  have "bpf_interp_run (Some (program code)) pkt m = bpf_exec code pkt m 0 0 0"
    using implements_length [OF assms(1)] by (intro bpf_interp_run_exec) (simp_all add: program_def)
  with assms show ?thesis by (simp add: implements_def)
qed

subsection \<open>Sentences without connectives\<close>

lemma plain_sentence:
  "not_expr G ts n \<Longrightarrow> (\<forall>t \<in> set ts. \<not> is_not G t \<and> \<not> is_lparen G t \<and> \<not> is_and G t \<and> \<not> is_or G t) \<longrightarrow> primitive G ts n"
  "and_expr G ts n \<Longrightarrow> (\<forall>t \<in> set ts. \<not> is_not G t \<and> \<not> is_lparen G t \<and> \<not> is_and G t \<and> \<not> is_or G t) \<longrightarrow> primitive G ts n"
  "or_expr G ts n \<Longrightarrow> (\<forall>t \<in> set ts. \<not> is_not G t \<and> \<not> is_lparen G t \<and> \<not> is_and G t \<and> \<not> is_or G t) \<longrightarrow> primitive G ts n"
  by (induction rule: not_expr_and_expr_or_expr.inducts) auto

lemma no_protocol_before_port:
  assumes "tok_type t = TOK_PROTO_TCP \<or> tok_type t = TOK_PROTO_UDP" "tok_type u = TOK_PORT" "tok_type v = TOK_NUMBER"
  shows "\<not> or_expr cf_syntax [t, u, v] n"
proof
  assume "or_expr cf_syntax [t, u, v] n"
  then have "cf_primitive [t, u, v] n" using plain_sentence(3) [of cf_syntax "[t, u, v]" n] assms by (auto simp: cf_syntax_select)
  then show False using assms by cases (auto elim!: cf_dir.cases cf_operand.cases simp: Cons_eq_append_conv)
qed

text \<open>The listing of a compiled program has one line per instruction and reads nothing beyond it.\<close>

lemma capfilter_print_program:
  assumes "implements code n"
  shows "capfilter_print (Some (program code)) = Some (concat (map (\<lambda>(i, f). print_insn i f) (enumerate 0 code)))"
proof -
  have "map (\<lambda>i. print_insn i (code ! i)) [0 ..< length code] = map (\<lambda>(i, f). print_insn i f) (enumerate 0 code)"
    by (rule nth_equalityI) (simp_all add: nth_enumerate_eq)
  moreover have "fprog_filter (program code) = Some code" by (simp add: program_def)
  ultimately show ?thesis by (simp only: capfilter_print_def implements_length(3) [OF assms] option.sel Let_def simp_thms option.distinct if_False if_True le_refl)
qed

subsection \<open>Properties\<close>

text \<open>
  C2: Whenever \<open>capfilter_compile\<close> succeeds on a non-empty expression, the text spells a token list that
  is a sentence of the grammar in \<open>capfilter.h\<close>, and the compiled program, run by the BPF interpreter on
  any packet, accepts it with 65535 exactly when the sentence's tree is true on the packet and drops it
  with 0 otherwise, in particular when the packet is too short for a field the tree asks for.
\<close>

theorem capfilter_compile_correct:
  assumes "capfilter_compile mem_ok (Some s) (Some f) eb el = Some (0, Some prog, e)" "s \<noteq> []"
  shows "\<exists>ts n. spells tok_text s ts \<and> or_expr cf_syntax ts n \<and> (\<forall>pkt m. buf_ok pkt m \<longrightarrow>
    bpf_interp_run (Some prog) pkt m = Some (if cf_eval pkt m n = Some True then CF_ACCEPT_LEN else 0))"
proof (rule compile_outcome [OF assms(2), of mem_ok f eb el])
  fix ts n code e'
  assume "capfilter_compile mem_ok (Some s) (Some f) eb el = Some (0, Some (program code), e')"
    and n: "spells tok_text s ts" "or_expr cf_syntax ts n" "implements code n"
  with assms have "prog = program code" by simp
  with n implements_run [OF n(3)] show ?thesis by blast
qed (use assms in auto)

theorem capfilter_compile_correct_witness:
  "\<exists>prog. capfilter_compile True (Some ''tcp'') (Some no_filter) None 0 = Some (0, Some prog, None)
    \<and> (\<exists>ts n. spells tok_text ''tcp'' ts \<and> or_expr cf_syntax ts n \<and> (\<forall>pkt m. buf_ok pkt m \<longrightarrow>
      bpf_interp_run (Some prog) pkt m = Some (if cf_eval pkt m n = Some True then CF_ACCEPT_LEN else 0)))"
proof -
  have "(case capfilter_compile True (Some ''tcp'') (Some no_filter) None 0 of
      Some (rc, Some _, None) \<Rightarrow> rc = 0 | _ \<Rightarrow> False)"
    by code_simp
  then obtain prog where "capfilter_compile True (Some ''tcp'') (Some no_filter) None 0 = Some (0, Some prog, None)"
    by (auto split: option.splits)
  from this capfilter_compile_correct [OF this list.distinct(2)] show ?thesis by blast
qed

text \<open>
  C12: Every blank-separated spelling of a sentence with fewer than 256 tokens, at most 256 tree nodes
  and at most 255 instructions is accepted, whatever the contents of the output and error buffers, and
  the program returned implements that sentence's tree.
\<close>

theorem capfilter_compile_accepts:
  assumes "list_all2 tok_text ws ts" "length ts < 256" "or_expr cf_syntax ts n"
    and "node_count n \<le> 256" "insn_count n \<le> 255"
  shows "\<exists>code e. capfilter_compile True (Some (spaced ws)) (Some f) eb el = Some (0, Some (program code), e)
    \<and> implements code n"
proof -
  obtain c where c: "cf_lex (init_ctx eb el) (spaced ws) = Some c" "\<not> failed c" "toks c = ts @ [tok TOK_END]" "pos c = 0"
    by (rule cf_lexer.spaced_from_start [OF assms(1,2)])
  have "ts \<noteq> []" using sentence_nonempty(3) [OF assms(3)] .
  then have s: "spaced ws \<noteq> []" using assms(1) by (cases ws) (auto simp: spaced_def)
  have wf: "\<forall>t \<in> set ts. token_wf t"
    using assms(1) by (induction rule: list_all2_induct) (auto dest: tok_text_wf)
  show ?thesis
  proof (rule compile_tokens [OF c s wf assms(2), of True f])
    show ?thesis if "\<And>n. or_expr cf_syntax ts n \<Longrightarrow> node_count n \<le> 256 \<Longrightarrow> insn_count n \<le> 255 \<Longrightarrow> \<not> True"
      using that [OF assms(3-5)] by simp
    fix n' code e
    assume "capfilter_compile True (Some (spaced ws)) (Some f) eb el = Some (0, Some (program code), e)"
      and "implements code n'" and "\<And>m. or_expr cf_syntax ts m \<Longrightarrow> node_count m \<le> 256 \<Longrightarrow> m = n'"
    then show ?thesis using assms(3,4) by blast
  qed
qed

theorem capfilter_compile_accepts_witness:
  "\<exists>code e. capfilter_compile True (Some ''udp '') (Some no_filter) None 0 = Some (0, Some (program code), e)
    \<and> implements code (under_ipv4 (N_IPPROTO IPPROTO_UDP))"
proof -
  have "list_all2 tok_text [''udp''] [tok TOK_PROTO_UDP]"
    using tok_text.keyword [of "''udp''" TOK_PROTO_UDP] by (simp add: KEYWORDS_def)
  moreover have "or_expr cf_syntax [tok TOK_PROTO_UDP] (under_ipv4 (N_IPPROTO IPPROTO_UDP))"
    by (intro or_one and_one prim) (simp add: cf_syntax_select cf_primitive.udp tok_def)
  ultimately show ?thesis
    using capfilter_compile_accepts [of "[''udp'']" "[tok TOK_PROTO_UDP]"
        "under_ipv4 (N_IPPROTO IPPROTO_UDP)" no_filter None 0]
    by (simp add: spaced_def under_ipv4_def leaf_code_def)
qed

text \<open>
  A program returned by \<open>capfilter_compile\<close> meets the kernel's rules for \<open>SO_ATTACH_FILTER\<close>: its
  length is stored without truncation and lies between 1 and 1024, it uses only opcodes the kernel
  knows, every jump stays inside it, and its last instruction returns.
\<close>

theorem capfilter_compile_attachable:
  assumes "capfilter_compile mem_ok (Some s) (Some f) eb el = Some (0, Some prog, e)" "s \<noteq> []"
  shows "\<exists>code. fprog_filter prog = Some code \<and> unat (fprog_len prog) = length code
    \<and> length code \<le> 1024 \<and> bpf_attachable code"
proof (rule compile_outcome [OF assms(2), of mem_ok f eb el])
  fix ts n code e'
  assume "capfilter_compile mem_ok (Some s) (Some f) eb el = Some (0, Some (program code), e')"
    and n: "implements code n"
  with assms have "prog = program code" by simp
  with n implements_length [OF n] show ?thesis
    by (intro exI [of _ code]) (simp add: implements_def, simp add: program_def)
qed (use assms in auto)

theorem capfilter_compile_attachable_witness:
  "\<exists>prog code. capfilter_compile True (Some ''arp'') (Some no_filter) None 0 = Some (0, Some prog, None)
    \<and> fprog_filter prog = Some code \<and> unat (fprog_len prog) = length code
    \<and> length code \<le> 1024 \<and> bpf_attachable code"
proof -
  have "(case capfilter_compile True (Some ''arp'') (Some no_filter) None 0 of
      Some (rc, Some _, None) \<Rightarrow> rc = 0 | _ \<Rightarrow> False)"
    by code_simp
  then obtain prog where "capfilter_compile True (Some ''arp'') (Some no_filter) None 0 = Some (0, Some prog, None)"
    by (auto split: option.splits)
  from this capfilter_compile_attachable [OF this list.distinct(2)] show ?thesis by blast
qed

text \<open>
  C14: \<open>capfilter_compile\<close> returns 0 or -1 on every input, and on -1 the caller finds an empty program; the
  one exception is an expression of exactly 256 tokens, on which the lexer writes past its token array.
\<close>

theorem capfilter_compile_outcome:
  "(\<exists>ts. capfilter_compile mem_ok expr out eb el = None \<and> expr \<noteq> None \<and> spells tok_text (the expr) ts \<and> length ts = 256)
   \<or> (\<exists>out' e. capfilter_compile mem_ok expr out eb el = Some (0, out', e) \<and> out \<noteq> None)
   \<or> (\<exists>e. capfilter_compile mem_ok expr out eb el = Some (-1, map_option (\<lambda>_. no_filter) out, e))"
proof -
  consider "out = None" | f where "out = Some f" "expr = None \<or> expr = Some []"
    | f s where "out = Some f" "expr = Some s" "s \<noteq> []"
    by (cases out; cases expr) auto
  then show ?thesis
  proof cases
    case 1
    then have "capfilter_compile mem_ok expr out eb el = Some (-1, None, eb)" by (simp add: capfilter_compile_def)
    with 1 show ?thesis by simp
  next
    case 2
    then have "capfilter_compile mem_ok expr out eb el = Some (0, Some no_filter, eb)"
      by (simp add: capfilter_compile_def)
    with 2 show ?thesis by blast
  next
    case fs: 3
    show ?thesis
      unfolding fs option.sel option.map
    proof (rule compile_outcome [OF fs(3), of mem_ok f eb el])
      fix ts assume "capfilter_compile mem_ok (Some s) (Some f) eb el = None" "spells tok_text s ts" "length ts = 256"
      then show "(\<exists>ts. capfilter_compile mem_ok (Some s) (Some f) eb el = None \<and> Some s \<noteq> None
          \<and> spells tok_text s ts \<and> length ts = 256) \<or> Q" for Q by blast
    qed blast+
  qed
qed

text \<open>
  C34: The exception is real: an expression of 256 tokens, however it is spelled with blanks, makes
  \<open>cf_lex\<close> store its end token one entry beyond the token array.
\<close>

theorem capfilter_token_overflow:
  assumes "list_all2 tok_text ws ts" "length ts = 256"
  shows "capfilter_compile mem_ok (Some (spaced ws)) (Some f) eb el = None"
proof -
  have "spaced ws \<noteq> []" using assms by (cases ws) (auto simp: spaced_def)
  then show ?thesis by (simp add: capfilter_compile_def cf_lexer.spaced_overflow [OF assms])
qed

theorem capfilter_token_overflow_witness:
  "capfilter_compile True (Some (spaced (replicate 256 ''not''))) (Some no_filter) None 0 = None"
proof -
  have "tok_text ''not'' (tok TOK_NOT)" using tok_text.keyword [of "''not''" TOK_NOT] by (simp add: KEYWORDS_def)
  then have "list_all2 tok_text (replicate k ''not'') (replicate k (tok TOK_NOT))" for k
    by (induction k) simp_all
  from capfilter_token_overflow [OF this length_replicate] show ?thesis .
qed

text \<open>
  C37: A protocol and a port cannot be written next to each other: \<open>tcp port 443\<close>, the example of the usage
  text, written with a blank behind every word, is rejected, as is every other \<open>tcp port\<close> or \<open>udp port\<close>
  with a number behind it.
\<close>

theorem protocol_port_rejected:
  assumes "proto = ''tcp'' \<or> proto = ''udp''" "v < 2 ^ 32"
  shows "\<exists>e. capfilter_compile mem_ok (Some (spaced [proto, ''port'', fmt_u v])) (Some f) eb el = Some (-1, Some no_filter, e)"
proof -
  let ?ws = "[proto, ''port'', fmt_u v]"
  obtain t where t: "tok_text proto t" "tok_type t = TOK_PROTO_TCP \<or> tok_type t = TOK_PROTO_UDP"
    using assms(1) tok_text.keyword [of "''tcp''" TOK_PROTO_TCP] tok_text.keyword [of "''udp''" TOK_PROTO_UDP]
    by (auto simp: KEYWORDS_def tok_def)
  have u: "tok_text ''port'' (tok TOK_PORT)" using tok_text.keyword [of "''port''" TOK_PORT] by (simp add: KEYWORDS_def)
  have v: "tok_text (fmt_u v) (number_tok (of_nat v))"
    using fmt_u_digits [of v] assms(2) by (intro tok_text.number) (auto simp: unat_of_nat)
  have ws: "list_all2 tok_text ?ws [t, tok TOK_PORT, number_tok (of_nat v)]" using t u v by simp
  obtain c where c: "cf_lex (init_ctx eb el) (spaced ?ws) = Some c" "\<not> failed c"
    "toks c = [t, tok TOK_PORT, number_tok (of_nat v)] @ [tok TOK_END]" "pos c = 0"
    by (rule cf_lexer.spaced_from_start [OF ws]) auto
  have wf: "\<forall>t \<in> set [t, tok TOK_PORT, number_tok (of_nat v)]. token_wf t" and s: "spaced ?ws \<noteq> []"
    using tok_text_wf t u v by (auto simp: spaced_def)
  have no: "\<not> or_expr cf_syntax [t, tok TOK_PORT, number_tok (of_nat v)] n" for n
    by (rule no_protocol_before_port [OF t(2)]) (simp_all add: tok_def number_tok_def)
  have len: "length [t, tok TOK_PORT, number_tok (of_nat v)] < 256" by simp
  show ?thesis by (rule compile_tokens [OF c s wf len, of mem_ok f], blast, use no in blast)
qed

theorem protocol_port_rejected_witness:
  "\<exists>e. capfilter_compile True (Some ''tcp port 443 '') (Some no_filter) None 0 = Some (-1, Some no_filter, e)"
proof -
  have "fmt_u 443 = ''443''" by code_simp
  then show ?thesis using protocol_port_rejected [of "''tcp''" 443 True no_filter None 0] by (simp add: spaced_def)
qed

end
