(* ===== verification/Dispfilter_Literals.thy ===== *)
theory Dispfilter_Literals
  imports Filter_Common Eth_Parser Ipv6_Parser Ip_Parser
begin

text \<open>
  The address literals of \<open>src/src/c/dispfilter.c\<close>: \<open>parse_mac_word\<close>, \<open>parse_hextet_list\<close> and
  \<open>parse_ipv6_word\<close>. Each is shown to accept exactly the texts of its grammar, and to read back what
  the formatters \<open>eth_mac_to_str\<close> and \<open>ipv6_addr_to_str\<close> print. \<open>parse_ipv4_word\<close> is the same
  function as in \<open>capfilter.c\<close> (\<open>Filter_Common\<close>).
\<close>

subsection \<open>Operations\<close>

definition hex_nibble :: "char \<Rightarrow> int" where
  "hex_nibble c =
     (let v = int (of_char c :: nat) in
      if 48 \<le> v \<and> v \<le> 57 then v - 48
      else if 97 \<le> v \<and> v \<le> 102 then v - 97 + 10
      else if 65 \<le> v \<and> v \<le> 70 then v - 65 + 10
      else -1)"

function mac_loop :: "string \<Rightarrow> nat \<Rightarrow> buf \<Rightarrow> buf option" where
  "mac_loop word g out =
     (if g \<ge> 6 then Some out
      else
        let base = g * 3; hi = hex_nibble (word ! base); lo = hex_nibble (word ! (base + 1)) in
        if hi < 0 \<or> lo < 0 then None
        else
          let out = out @ [word_of_int (push_bit 4 hi OR lo)] in
          if g < 5 \<and> word ! (base + 2) \<noteq> CHR '':'' then None
          else mac_loop word (g + 1) out)"
  by pat_completeness auto
termination
  by (relation "measure (\<lambda>(_, g, _). 6 - g)") auto

declare mac_loop.simps [simp del]

definition parse_mac_word :: "string \<Rightarrow> buf option" where
  "parse_mac_word word = (if length word \<noteq> 17 then None else mac_loop word 0 [])"

text \<open>The value of one group, \<open>val = (val << 4) | nib\<close> in 16 bits.\<close>

fun hextet_value :: "string \<Rightarrow> u16 \<Rightarrow> u16 option" where
  "hextet_value [] val = Some val"
| "hextet_value (c # s) val =
     (let nib = hex_nibble c in
      if nib < 0 then None else hextet_value s (push_bit 4 val OR word_of_int nib))"

function hextet_loop :: "string \<Rightarrow> u16 list \<Rightarrow> nat \<Rightarrow> u16 list option" where
  "hextet_loop s out max_groups =
     (if s = [] then Some out
      else
        let grp = takeWhile (\<lambda>c. c \<noteq> CHR '':'') s; after = dropWhile (\<lambda>c. c \<noteq> CHR '':'') s in
        if grp = [] \<or> length grp > 4 then None
        else do {
          val \<leftarrow> hextet_value grp 0;
          if length out \<ge> max_groups then None
          else
            let out = out @ [val] in
            if after = [] then Some out
            else if tl after = [] then None
            else hextet_loop (tl after) out max_groups
        })"
  by pat_completeness auto
termination
proof (relation "measure (\<lambda>(s, _). length s)", simp)
  fix s :: string and out after grp val outa and max_groups :: nat
  assume "after = dropWhile (\<lambda>c. c \<noteq> CHR '':'') s" "after \<noteq> []" "tl after \<noteq> []"
  then have "length (tl after) < length after" "length after \<le> length s"
    by (simp, simp only: length_dropWhile_le)
  then show "((tl after, outa, max_groups), s, out, max_groups) \<in> measure (\<lambda>(s, _). length s)" by simp
qed

declare hextet_loop.simps [simp del]

definition parse_hextet_list :: "string \<Rightarrow> nat \<Rightarrow> u16 list option" where
  "parse_hextet_list s max_groups = hextet_loop s [] max_groups"

text \<open>The search for the first \<open>::\<close>.\<close>

fun dbl_index :: "string \<Rightarrow> nat option" where
  "dbl_index (a # b # word) =
     (if a = CHR '':'' \<and> b = CHR '':'' then Some 0 else map_option Suc (dbl_index (b # word)))"
| "dbl_index _ = None"

definition hextet_bytes :: "u16 list \<Rightarrow> buf" where
  "hextet_bytes hs = concat (map (\<lambda>h. [ucast (drop_bit 8 h), ucast (h AND 0xFF)]) hs)"

definition parse_ipv6_word :: "string \<Rightarrow> buf option" where
  "parse_ipv6_word word = do {
     let dbl = dbl_index word;
     left \<leftarrow> parse_hextet_list (case dbl of Some i \<Rightarrow> take i word | None \<Rightarrow> word) 8;
     right \<leftarrow> (case dbl of Some i \<Rightarrow> parse_hextet_list (drop (i + 2) word) 8 | None \<Rightarrow> Some []);
     let total = length left + length right;
     if (if dbl \<noteq> None then total > 7 else total \<noteq> 8) then None
     else Some (hextet_bytes (left @ replicate (8 - total) 0 @ right))
   }"

subsection \<open>Hexadecimal digits\<close>

definition is_hex :: "char \<Rightarrow> bool" where
  "is_hex c \<longleftrightarrow> 0 \<le> hex_nibble c"

definition hex_val :: "char \<Rightarrow> nat" where
  "hex_val c = nat (hex_nibble c)"

definition hex_value :: "string \<Rightarrow> nat" where
  "hex_value s = foldl (\<lambda>v c. v * 16 + hex_val c) 0 s"

lemma hex_val_less: "hex_val c < 16"
  by (auto simp: hex_val_def hex_nibble_def Let_def)

lemma hex_nibble_val: "is_hex c \<Longrightarrow> hex_nibble c = int (hex_val c)"
  by (simp add: is_hex_def hex_val_def)

lemma hex_colon [simp]: "\<not> is_hex CHR '':''"
  by (simp add: is_hex_def hex_nibble_def)

lemma hex_digit_hex: "n < 16 \<Longrightarrow> is_hex (hex_digit n) \<and> hex_val (hex_digit n) = n"
  by (auto simp: is_hex_def hex_val_def hex_nibble_def of_char_hex_digit)

lemma hex_value_bound: "hex_value s < 16 ^ length s"
proof (induction s rule: rev_induct)
  case (snoc c s)
  then show ?case using hex_val_less [of c] by (simp add: hex_value_def)
qed (simp add: hex_value_def)

lemma hex_value_fmt_x: "hex_value (fmt_x n) = n \<and> (\<forall>c \<in> set (fmt_x n). is_hex c) \<and> fmt_x n \<noteq> []"
proof (induction n rule: fmt_x.induct)
  case (1 n)
  then show ?case
    using hex_digit_hex [of n] hex_digit_hex [of "n mod 16"]
    by (cases "n < 16") (auto simp: fmt_x.simps [of n] hex_value_def)
qed

text \<open>Sixteen times a value plus a digit, on words.\<close>

lemma word_shift_nibble:
  fixes v :: u16
  assumes "unat v * 16 + d < 65536" "d < 16"
  shows "unat (push_bit 4 v OR of_nat d) = unat v * 16 + d"
proof -
  have "of_nat d AND push_bit 4 v = 0"
  proof (rule bit_eqI)
    fix n
    have "take_bit 4 d = d" using assms(2) by (simp add: take_bit_nat_eq_self)
    then have "bit d n \<Longrightarrow> n < 4" by (metis bit_take_bit_iff)
    then show "bit (of_nat d AND push_bit 4 v) n = bit (0 :: u16) n"
      by (auto simp: bit_simps)
  qed
  then have "push_bit 4 v OR of_nat d = push_bit 4 v + of_nat d"
    by (metis disjunctive_add_eq_or and.commute)
  also have "\<dots> = of_nat (unat v * 16 + d)"
    by (simp add: push_bit_eq_mult mult.commute)
  finally show ?thesis using assms(1)
    by (simp only: unat_of_nat) (simp add: take_bit_nat_eq_self)
qed

lemma hextet_value_hex:
  assumes "\<forall>c \<in> set s. is_hex c" "(unat val + 1) * 16 ^ length s \<le> 65536"
  shows "\<exists>w. hextet_value s val = Some w \<and> unat w = foldl (\<lambda>v c. v * 16 + hex_val c) (unat val) s"
  using assms
proof (induction s arbitrary: val)
  case (Cons c s)
  have c: "is_hex c" "hex_val c < 16" using Cons.prems(1) hex_val_less by auto
  let ?v = "push_bit 4 val OR of_nat (hex_val c)"
  have pos: "(1 :: nat) \<le> 16 ^ length s" by simp
  have bound: "(unat val * 16 + 16) * 16 ^ length s \<le> 65536" using Cons.prems(2) by (simp add: algebra_simps)
  then have "unat val * 16 + 16 \<le> 65536" using pos by (metis le_trans mult.right_neutral mult_le_mono2)
  then have v: "unat ?v = unat val * 16 + hex_val c" using c by (intro word_shift_nibble) simp_all
  have "(unat ?v + 1) * 16 ^ length s \<le> (unat val * 16 + 16) * 16 ^ length s"
    using c unfolding v by (intro mult_le_mono1) simp
  with bound have "(unat ?v + 1) * 16 ^ length s \<le> 65536" by (rule order_trans [rotated])
  with Cons.IH [of ?v] Cons.prems(1) c show ?case by (simp add: hex_nibble_val v)
qed simp

lemma hextet_value_fail: "hextet_value s val = Some w \<Longrightarrow> \<forall>c \<in> set s. is_hex c"
  by (induction s val rule: hextet_value.induct) (auto simp: Let_def is_hex_def split: if_splits)

text \<open>One group of an IPv6 literal: one to four hexadecimal digits.\<close>

definition hextet_text :: "string \<Rightarrow> u16 \<Rightarrow> bool" where
  "hextet_text g v \<longleftrightarrow> g \<noteq> [] \<and> length g \<le> 4 \<and> (\<forall>c \<in> set g. is_hex c) \<and> hex_value g = unat v"

lemma hextet_value_iff:
  assumes "g \<noteq> []" "length g \<le> 4"
  shows "hextet_value g 0 = Some v \<longleftrightarrow> hextet_text g v"
proof -
  have "(16 :: nat) ^ length g \<le> 16 ^ 4" using assms(2) by (intro power_increasing) simp_all
  then have "\<forall>c \<in> set g. is_hex c \<Longrightarrow> \<exists>w. hextet_value g 0 = Some w \<and> unat w = hex_value g"
    using hextet_value_hex [of g 0] by (simp add: hex_value_def)
  with assms show ?thesis
    using hextet_value_fail [of g 0] by (auto simp: hextet_text_def word_unat_eq_iff)
qed

lemma hextet_text_fmt_x: "hextet_text (fmt_x (unat w)) w"
  using hex_value_fmt_x [of "unat w"] fmt_x_u16 [of w] by (simp add: hextet_text_def)

subsection \<open>Lists of groups\<close>

text \<open>Groups joined by single colons.\<close>

fun colons :: "string list \<Rightarrow> string" where
  "colons [] = []"
| "colons [g] = g"
| "colons (g # gs) = g @ CHR '':'' # colons gs"

lemma colons_Cons: "gs \<noteq> [] \<Longrightarrow> colons (g # gs) = g @ CHR '':'' # colons gs"
  by (cases gs) simp_all

lemma hextet_text_no_colon: "hextet_text g v \<Longrightarrow> CHR '':'' \<notin> set g"
  by (auto simp: hextet_text_def)

lemma takeWhile_colon:
  assumes "CHR '':'' \<notin> set g"
  shows "takeWhile (\<lambda>c. c \<noteq> CHR '':'') g = g" "dropWhile (\<lambda>c. c \<noteq> CHR '':'') g = []"
    and "takeWhile (\<lambda>c. c \<noteq> CHR '':'') (g @ CHR '':'' # s) = g"
    and "dropWhile (\<lambda>c. c \<noteq> CHR '':'') (g @ CHR '':'' # s) = CHR '':'' # s"
  using assms by (induction g) auto

lemma colons_nonempty: "list_all2 hextet_text gs vs \<Longrightarrow> colons gs = [] \<longleftrightarrow> gs = []"
  by (cases gs rule: colons.cases) (auto simp: hextet_text_def list_all2_Cons1)

lemma hextet_loop_complete:
  assumes "list_all2 hextet_text gs vs" "length out + length gs \<le> m"
  shows "hextet_loop (colons gs) out m = Some (out @ vs)"
  using assms
proof (induction gs vs arbitrary: out rule: list_all2_induct)
  case Nil
  then show ?case by (simp add: hextet_loop.simps)
next
  case (Cons g gs v vs)
  note g = hextet_text_no_colon [OF Cons(1)]
  have v: "hextet_value g 0 = Some v" "g \<noteq> []" "\<not> 4 < length g"
    using Cons(1) hextet_value_iff [of g v] by (auto simp: hextet_text_def)
  show ?case
  proof (cases "gs = []")
    case True
    with Cons v show ?thesis by (simp add: hextet_loop.simps [of g] takeWhile_colon [OF g])
  next
    case False
    then have "colons gs \<noteq> []" using colons_nonempty [OF Cons(2)] by simp
    with False Cons v show ?thesis
      by (simp add: colons_Cons hextet_loop.simps [of "g @ _"] takeWhile_colon [OF g])
  qed
qed

lemma hextet_loop_sound:
  assumes "hextet_loop s out m = Some vs" "length out \<le> m"
  shows "\<exists>gs ws. s = colons gs \<and> list_all2 hextet_text gs ws \<and> vs = out @ ws \<and> length vs \<le> m"
  using assms
proof (induction s out m rule: hextet_loop.induct)
  case (1 s out m)
  define grp where "grp = takeWhile (\<lambda>c. c \<noteq> CHR '':'') s"
  define after where "after = dropWhile (\<lambda>c. c \<noteq> CHR '':'') s"
  have s: "s = grp @ after" by (simp add: grp_def after_def)
  show ?case
  proof (cases "s = []")
    case True
    with 1 show ?thesis by (intro exI [of _ "[]"]) (simp add: hextet_loop.simps)
  next
    case False
    with "1.prems" obtain val where val: "grp \<noteq> []" "length grp \<le> 4" "hextet_value grp 0 = Some val" "length out < m"
      and r: "(if after = [] then Some (out @ [val]) else if tl after = [] then None
        else hextet_loop (tl after) (out @ [val]) m) = Some vs"
      by (subst (asm) hextet_loop.simps)
        (auto simp: Let_def grp_def after_def split: if_splits bind_splits)
    have g: "hextet_text grp val" using val hextet_value_iff by blast
    show ?thesis
    proof (cases "after = []")
      case True
      with r s g val show ?thesis by (intro exI [of _ "[grp]"] exI [of _ "[val]"]) auto
    next
      case after: False
      then have "hd after = CHR '':''" using hd_dropWhile [of "\<lambda>c. c \<noteq> CHR '':''" s] by (simp add: after_def)
      then have colon: "after = CHR '':'' # tl after" using after by (cases after) auto
      from r after have t: "tl after \<noteq> []" "hextet_loop (tl after) (out @ [val]) m = Some vs"
        by (auto split: if_splits)
      obtain gs ws where ih: "tl after = colons gs" "list_all2 hextet_text gs ws" "vs = (out @ [val]) @ ws" "length vs \<le> m"
        using "1.IH" [OF False grp_def after_def _ val(3) _ refl after t(1) t(2)] val by auto
      with t have "gs \<noteq> []" by auto
      with ih g s colon show ?thesis
        by (intro exI [of _ "grp # gs"] exI [of _ "val # ws"]) (simp add: colons_Cons)
    qed
  qed
qed

lemma parse_hextet_list_iff:
  "parse_hextet_list s m = Some vs \<longleftrightarrow> (\<exists>gs. s = colons gs \<and> list_all2 hextet_text gs vs \<and> length vs \<le> m)"
proof
  assume "parse_hextet_list s m = Some vs"
  then show "\<exists>gs. s = colons gs \<and> list_all2 hextet_text gs vs \<and> length vs \<le> m"
    using hextet_loop_sound [of s "[]" m vs] by (auto simp: parse_hextet_list_def)
next
  assume "\<exists>gs. s = colons gs \<and> list_all2 hextet_text gs vs \<and> length vs \<le> m"
  then obtain gs where gs: "s = colons gs" "list_all2 hextet_text gs vs" "length vs \<le> m" by blast
  from hextet_loop_complete [OF gs(2), of "[]" m] gs(1,3) list_all2_lengthD [OF gs(2)]
  show "parse_hextet_list s m = Some vs" by (simp add: parse_hextet_list_def)
qed

subsection \<open>MAC literals\<close>

text \<open>Six pairs of hexadecimal digits with colons between them.\<close>

definition mac_text :: "string \<Rightarrow> buf \<Rightarrow> bool" where
  "mac_text w m \<longleftrightarrow> length w = 17 \<and> length m = 6
     \<and> (\<forall>g < 6. is_hex (w ! (3 * g)) \<and> is_hex (w ! (3 * g + 1))
         \<and> unat (m ! g) = 16 * hex_val (w ! (3 * g)) + hex_val (w ! (3 * g + 1)))
     \<and> (\<forall>g < 5. w ! (3 * g + 2) = CHR '':'')"

definition mac_byte :: "string \<Rightarrow> nat \<Rightarrow> u8" where
  "mac_byte w g = word_of_int (push_bit 4 (hex_nibble (w ! (g * 3))) OR hex_nibble (w ! (g * 3 + 1)))"

definition mac_pair :: "string \<Rightarrow> nat \<Rightarrow> bool" where
  "mac_pair w g \<longleftrightarrow> is_hex (w ! (g * 3)) \<and> is_hex (w ! (g * 3 + 1)) \<and> (g < 5 \<longrightarrow> w ! (g * 3 + 2) = CHR '':'')"

lemma mac_loop_iff:
  "g \<le> 6 \<Longrightarrow> mac_loop w g out = Some m \<longleftrightarrow>
    (\<forall>i \<in> {g..<6}. mac_pair w i) \<and> m = out @ map (mac_byte w) [g..<6]"
proof (induction w g out rule: mac_loop.induct)
  case (1 w g out)
  show ?case
  proof (cases "g = 6")
    case True
    then show ?thesis by (auto simp: mac_loop.simps [of w 6])
  next
    case False
    then have g: "g < 6" "\<not> 6 \<le> g" using "1.prems" by simp_all
    have r: "{g..<6} = insert g {g + 1..<6}" "[g..<6] = g # [g + 1..<6]"
      using g by (auto simp: upt_conv_Cons)
    have "mac_loop w g out = (if mac_pair w g then mac_loop w (g + 1) (out @ [mac_byte w g]) else None)"
      using g by (subst mac_loop.simps) (auto simp: Let_def mac_pair_def mac_byte_def is_hex_def)
    moreover have "mac_pair w g \<Longrightarrow> mac_loop w (g + 1) (out @ [mac_byte w g]) = Some m \<longleftrightarrow>
        (\<forall>i \<in> {g + 1..<6}. mac_pair w i) \<and> m = (out @ [mac_byte w g]) @ map (mac_byte w) [g + 1..<6]"
      using g by (intro "1.IH" [OF _ refl refl refl]) (auto simp: mac_pair_def mac_byte_def is_hex_def)
    ultimately show ?thesis unfolding r by auto
  qed
qed

lemma nibble_or: "lo < 16 \<Longrightarrow> push_bit 4 (int hi) OR int lo = int (16 * hi + lo)"
proof -
  assume lo: "lo < 16"
  have "take_bit 4 (int lo) = int lo" using lo by (intro take_bit_int_eq_self) simp_all
  then have "bit (int lo) n \<Longrightarrow> n < 4" for n by (metis bit_take_bit_iff)
  then have "push_bit 4 (int hi) AND int lo = 0" by (simp add: bit_eq_iff bit_simps) (meson not_less)
  then have "push_bit 4 (int hi) OR int lo = push_bit 4 (int hi) + int lo"
    by (simp add: disjunctive_add_eq_or)
  then show ?thesis by (simp add: push_bit_eq_mult)
qed

lemma unat_mac_byte:
  assumes "is_hex (w ! (g * 3))" "is_hex (w ! (g * 3 + 1))"
  shows "unat (mac_byte w g) = 16 * hex_val (w ! (g * 3)) + hex_val (w ! (g * 3 + 1))"
proof -
  have "mac_byte w g = of_nat (16 * hex_val (w ! (g * 3)) + hex_val (w ! (g * 3 + 1)))"
    unfolding mac_byte_def hex_nibble_val [OF assms(1)] hex_nibble_val [OF assms(2)] nibble_or [OF hex_val_less]
    by (rule of_int_of_nat_eq)
  moreover have "16 * hex_val (w ! (g * 3)) + hex_val (w ! (g * 3 + 1)) < 256"
    using hex_val_less [of "w ! (g * 3)"] hex_val_less [of "w ! (g * 3 + 1)"] by linarith
  ultimately show ?thesis by (simp add: unat_of_nat take_bit_nat_eq_self del: of_nat_add of_nat_mult)
qed

lemma parse_mac_word_iff: "parse_mac_word w = Some m \<longleftrightarrow> mac_text w m"
proof -
  have loop: "mac_loop w 0 [] = Some m \<longleftrightarrow> (\<forall>i < 6. mac_pair w i) \<and> m = map (mac_byte w) [0..<6]"
    by (subst mac_loop_iff) auto
  have "m = map (mac_byte w) [0..<6] \<longleftrightarrow> length m = 6
      \<and> (\<forall>g < 6. unat (m ! g) = 16 * hex_val (w ! (3 * g)) + hex_val (w ! (3 * g + 1)))"
    if "\<forall>i < 6. mac_pair w i"
  proof -
    have "unat (m ! g) = 16 * hex_val (w ! (3 * g)) + hex_val (w ! (3 * g + 1)) \<longleftrightarrow> m ! g = mac_byte w g"
      if "g < 6" for g
      using unat_mac_byte [of w g] \<open>\<forall>i < 6. mac_pair w i\<close> that
      by (auto simp: mac_pair_def mult.commute word_unat_eq_iff)
    then show ?thesis by (auto simp: list_eq_iff_nth_eq)
  qed
  with loop show ?thesis
    unfolding parse_mac_word_def mac_text_def mac_pair_def by (auto simp: mult.commute)
qed

lemma mac_text_mac_to_str:
  assumes "length m = 6" "eth_mac_to_str m = Some w"
  shows "mac_text w m"
proof -
  obtain m0 m1 m2 m3 m4 m5 where m: "m = [m0, m1, m2, m3, m4, m5]"
    using assms(1) by (auto simp: numeral_eq_Suc length_Suc_conv)
  have d: "is_hex (hex_digit (unat b div 16))" "is_hex (hex_digit (unat b mod 16))"
    "16 * hex_val (hex_digit (unat b div 16)) + hex_val (hex_digit (unat b mod 16)) = unat b" for b :: u8
    using hex_digit_hex [of "unat b div 16"] hex_digit_hex [of "unat b mod 16"] unat_u8_bound [of b] by auto
  have all6: "(\<forall>g < 6. P g) \<longleftrightarrow> P 0 \<and> P 1 \<and> P 2 \<and> P 3 \<and> P 4 \<and> P (5 :: nat)" for P
    by (simp add: numeral_eq_Suc All_less_Suc conj_ac)
  have all5: "(\<forall>g < 5. P g) \<longleftrightarrow> P 0 \<and> P 1 \<and> P 2 \<and> P 3 \<and> P (4 :: nat)" for P
    by (simp add: numeral_eq_Suc All_less_Suc conj_ac)
  have "w = fmt_02x m0 @ '':'' @ fmt_02x m1 @ '':'' @ fmt_02x m2 @ '':'' @
      fmt_02x m3 @ '':'' @ fmt_02x m4 @ '':'' @ fmt_02x m5"
    using assms(2) by (simp add: m eth_mac_to_str_eq)
  then show ?thesis
    unfolding mac_text_def all6 all5 by (simp add: m fmt_02x_def d)
qed

subsection \<open>IPv6 literals\<close>

text \<open>
  Eight groups, or at most seven with one \<open>::\<close> standing for the missing ones, which are zero
  (RFC 4291, section 2.2).
\<close>

definition ipv6_text :: "string \<Rightarrow> buf \<Rightarrow> bool" where
  "ipv6_text w a \<longleftrightarrow>
     (\<exists>gs vs. list_all2 hextet_text gs vs \<and> length vs = 8 \<and> w = colons gs \<and> a = hextet_bytes vs)
   \<or> (\<exists>ls lv rs rv. list_all2 hextet_text ls lv \<and> list_all2 hextet_text rs rv \<and> length lv + length rv \<le> 7
       \<and> w = colons ls @ ''::'' @ colons rs
       \<and> a = hextet_bytes (lv @ replicate (8 - (length lv + length rv)) 0 @ rv))"

lemma low_byte_mask: "(0xFF :: 'a :: len word) = mask 8"
  by (simp add: mask_eq_exp_minus_1)

lemma dbl_index_skip: "c \<noteq> CHR '':'' \<Longrightarrow> dbl_index (c # s) = map_option Suc (dbl_index s)"
  by (cases s) simp_all

lemma dbl_index_group: "CHR '':'' \<notin> set g \<Longrightarrow> dbl_index (g @ s) = map_option ((+) (length g)) (dbl_index s)"
  by (induction g; cases "dbl_index s") (auto simp: dbl_index_skip)

lemma dbl_index_colons:
  "list_all2 hextet_text gs vs \<Longrightarrow> dbl_index (colons gs @ s) = map_option ((+) (length (colons gs))) (dbl_index s)"
proof (induction gs vs rule: list_all2_induct)
  case Nil
  then show ?case by (cases "dbl_index s") simp_all
next
  case (Cons g gs v vs)
  note g = hextet_text_no_colon [OF Cons(1)]
  show ?case
  proof (cases "gs = []")
    case False
    then obtain c t where ct: "colons gs @ s = c # t" "colons gs \<noteq> []"
      using colons_nonempty [OF Cons(2)] by (cases "colons gs") auto
    obtain g' gs' where gs: "gs = g' # gs'" using False by (cases gs) auto
    then obtain v' where "hextet_text g' v'" using Cons(2) by (auto simp: list_all2_Cons1)
    then have "g' \<noteq> []" "CHR '':'' \<notin> set g'" by (simp_all add: hextet_text_def hextet_text_no_colon [unfolded hextet_text_def])
    then have "c \<noteq> CHR '':''"
      using ct gs by (cases g'; cases gs') auto
    then have "dbl_index (CHR '':'' # colons gs @ s) = map_option Suc (dbl_index (colons gs @ s))"
      unfolding ct by simp
    with Cons False show ?thesis
      by (cases "dbl_index s") (simp_all add: colons_Cons dbl_index_group [OF g])
  qed (simp add: dbl_index_group [OF g])
qed

lemma dbl_index_split: "dbl_index w = Some i \<Longrightarrow> w = take i w @ ''::'' @ drop (i + 2) w"
  by (induction w arbitrary: i rule: dbl_index.induct) (auto split: if_splits)

lemma parse_ipv6_word_iff: "parse_ipv6_word w = Some a \<longleftrightarrow> ipv6_text w a"
proof
  assume p: "parse_ipv6_word w = Some a"
  show "ipv6_text w a"
  proof (cases "dbl_index w")
    case None
    with p obtain lv where "parse_hextet_list w 8 = Some lv" "length lv = 8" "a = hextet_bytes lv"
      by (auto simp: parse_ipv6_word_def Let_def split: if_splits bind_splits)
    then show ?thesis unfolding ipv6_text_def parse_hextet_list_iff by blast
  next
    case (Some i)
    with p obtain lv rv where lr: "parse_hextet_list (take i w) 8 = Some lv"
      "parse_hextet_list (drop (i + 2) w) 8 = Some rv" "length lv + length rv \<le> 7"
      "a = hextet_bytes (lv @ replicate (8 - (length lv + length rv)) 0 @ rv)"
      by (auto simp: parse_ipv6_word_def Let_def split: if_splits bind_splits)
    then obtain ls rs where "take i w = colons ls" "list_all2 hextet_text ls lv"
      "drop (i + 2) w = colons rs" "list_all2 hextet_text rs rv"
      unfolding parse_hextet_list_iff by blast
    with lr dbl_index_split [OF Some] show ?thesis unfolding ipv6_text_def by metis
  qed
next
  have hex: "parse_hextet_list (colons gs) 8 = Some vs" if "list_all2 hextet_text gs vs" "length vs \<le> 8" for gs vs
    using that unfolding parse_hextet_list_iff by blast
  assume "ipv6_text w a"
  then consider gs vs where "list_all2 hextet_text gs vs" "length vs = 8" "w = colons gs" "a = hextet_bytes vs"
    | ls lv rs rv where "list_all2 hextet_text ls lv" "list_all2 hextet_text rs rv" "length lv + length rv \<le> 7"
      "w = colons ls @ ''::'' @ colons rs" "a = hextet_bytes (lv @ replicate (8 - (length lv + length rv)) 0 @ rv)"
    unfolding ipv6_text_def by blast
  then show "parse_ipv6_word w = Some a"
  proof cases
    case 1
    then have "dbl_index w = None" using dbl_index_colons [OF 1(1), of "[]"] by simp
    with 1 hex [OF 1(1)] show ?thesis by (simp add: parse_ipv6_word_def)
  next
    case 2
    then have "dbl_index w = Some (length (colons ls))" using dbl_index_colons [OF 2(1), of "''::'' @ colons rs"] by simp
    with 2 hex [OF 2(1)] hex [OF 2(2)] show ?thesis by (simp add: parse_ipv6_word_def)
  qed
qed

lemma hextet_bytes_eq: "hextet_bytes hs = concat (map bytes16 hs)"
proof -
  have "(ucast (h AND 0xFF) :: u8) = ucast h" for h :: u16
    by (rule bit_word_eqI) (simp add: bit_simps low_byte_mask)
  then show ?thesis by (simp add: hextet_bytes_def bytes16_def [abs_def])
qed

lemma hextet_bytes_length: "length (hextet_bytes vs) = 2 * length vs"
  by (induction vs) (simp_all add: hextet_bytes_def)

lemma ipv6_text_length: "ipv6_text w a \<Longrightarrow> length a = 16"
  by (auto simp: ipv6_text_def hextet_bytes_length)

lemma mac_text_length: "mac_text w m \<Longrightarrow> length m = 6"
  by (simp add: mac_text_def)

lemma ipv6_text_addr_to_str:
  assumes "length a = 16" "ipv6_addr_to_str a = Some w"
  shows "ipv6_text w a"
proof -
  define hs where "hs = map (\<lambda>i. be16 (a ! (2 * i)) (a ! (2 * i + 1))) [0..<8]"
  have idx: "[0..<8] = [0, 1, 2, 3, 4, 5, 6, 7 :: nat]" by (simp add: upt_rec)
  have "w = colons (map (\<lambda>h. fmt_x (unat h)) hs)"
    using assms by (simp add: ipv6_addr_to_str_eq hs_def idx)
  moreover have "list_all2 hextet_text (map (\<lambda>h. fmt_x (unat h)) hs) hs"
    by (simp add: list_all2_map1 list_all2_refl hextet_text_fmt_x)
  moreover have "hextet_bytes hs = a"
  proof -
    have idx16: "[0..<16] = [0, 1, 2, 3, 4, 5, 6, 7, 8, 9, 10, 11, 12, 13, 14, 15 :: nat]" by (simp add: upt_rec)
    have "hextet_bytes hs = map ((!) a) [0..<16]"
      by (simp add: hs_def idx idx16 hextet_bytes_eq bytes16_be16 del: One_nat_def)
    then show ?thesis using map_nth [of a] assms(1) by simp
  qed
  moreover have "length hs = 8" by (simp add: hs_def)
  ultimately show ?thesis unfolding ipv6_text_def by blast
qed

text \<open>No literal is both: a MAC address has five single colons.\<close>

definition colon_count :: "string \<Rightarrow> nat" where
  "colon_count w = length (filter (\<lambda>c. c = CHR '':'') w)"

lemma colon_count_none: "CHR '':'' \<notin> set g \<Longrightarrow> colon_count g = 0"
  by (auto simp: colon_count_def filter_empty_conv)

lemma colon_count_colons: "list_all2 hextet_text gs vs \<Longrightarrow> gs \<noteq> [] \<Longrightarrow> Suc (colon_count (colons gs)) = length gs"
proof (induction gs vs rule: list_all2_induct)
  case (Cons g gs v vs)
  have "colon_count g = 0" using hextet_text_no_colon [OF Cons(1)] by (rule colon_count_none)
  with Cons show ?case
    by (cases "gs = []") (simp_all add: colons_Cons, simp_all add: colon_count_def)
qed simp

lemma mac_text_colons:
  assumes "mac_text w m"
  shows "dbl_index w = None" "colon_count w = 5"
proof -
  obtain c0 c1 c2 c3 c4 c5 c6 c7 c8 c9 c10 c11 c12 c13 c14 c15 c16 where
    w: "w = [c0, c1, c2, c3, c4, c5, c6, c7, c8, c9, c10, c11, c12, c13, c14, c15, c16]"
    using assms by (auto simp: mac_text_def numeral_eq_Suc length_Suc_conv)
  have h: "\<forall>g < 6. is_hex (w ! (3 * g)) \<and> is_hex (w ! (3 * g + 1))" and s: "\<forall>g < 5. w ! (3 * g + 2) = CHR '':''"
    using assms by (simp_all add: mac_text_def)
  have hex: "is_hex c0" "is_hex c1" "is_hex c3" "is_hex c4" "is_hex c6" "is_hex c7" "is_hex c9" "is_hex c10"
    "is_hex c12" "is_hex c13" "is_hex c15" "is_hex c16"
    using h [rule_format, of 0] h [rule_format, of 1] h [rule_format, of 2] h [rule_format, of 3]
      h [rule_format, of 4] h [rule_format, of 5] by (simp_all add: w)
  have colon: "c2 = CHR '':''" "c5 = CHR '':''" "c8 = CHR '':''" "c11 = CHR '':''" "c14 = CHR '':''"
    using s [rule_format, of 0] s [rule_format, of 1] s [rule_format, of 2] s [rule_format, of 3]
      s [rule_format, of 4] by (simp_all add: w)
  have "c \<noteq> CHR '':''" if "is_hex c" for c using that by auto
  with hex colon show "dbl_index w = None" "colon_count w = 5"
    by (simp_all add: w colon_count_def)
qed

lemma mac_not_ipv6: "mac_text w m \<Longrightarrow> \<not> ipv6_text w a"
proof
  assume m: "mac_text w m" and "ipv6_text w a"
  then consider gs vs where "list_all2 hextet_text gs vs" "length vs = 8" "w = colons gs"
    | ls lv rs where "list_all2 hextet_text ls lv" "w = colons ls @ ''::'' @ colons rs"
    unfolding ipv6_text_def by blast
  then show False
  proof cases
    case 1
    then have "length gs = 8" by (simp add: list_all2_lengthD)
    with 1 colon_count_colons [OF 1(1)] mac_text_colons(2) [OF m] show False by fastforce
  next
    case 2
    with dbl_index_colons [OF 2(1), of "''::'' @ colons rs"] mac_text_colons(1) [OF m] show False by simp
  qed
qed

lemma colons_chars:
  "list_all2 hextet_text gs vs \<Longrightarrow> \<forall>c \<in> set (colons gs). is_hex c \<or> c = CHR '':''"
proof (induction gs vs rule: list_all2_induct)
  case (Cons g gs v vs)
  then show ?case by (cases "gs = []") (auto simp: colons_Cons hextet_text_def)
qed simp

lemma ipv6_text_chars: "ipv6_text w a \<Longrightarrow> \<forall>c \<in> set w. is_hex c \<or> c = CHR '':''"
  unfolding ipv6_text_def by (elim disjE exE conjE) (simp_all add: colons_chars ball_Un)

lemma mac_text_chars: "mac_text w m \<Longrightarrow> \<forall>c \<in> set w. is_hex c \<or> c = CHR '':''"
proof
  fix c assume m: "mac_text w m" and "c \<in> set w"
  then obtain i where i: "i < 17" "c = w ! i" by (auto simp: in_set_conv_nth mac_text_def)
  define g where "g = i div 3"
  have "g < 6" "i = 3 * g \<or> i = 3 * g + 1 \<or> i = 3 * g + 2 \<and> g < 5" using i(1) by (auto simp: g_def)
  with m i(2) show "is_hex c \<or> c = CHR '':''" unfolding mac_text_def by blast
qed

lemma mac_text_colon: "mac_text w m \<Longrightarrow> CHR '':'' \<in> set w"
  using mac_text_colons(2) [of w m] colon_count_none [of w] by auto

lemma ipv6_text_colon: "ipv6_text w a \<Longrightarrow> CHR '':'' \<in> set w"
  unfolding ipv6_text_def
proof (elim disjE exE conjE)
  fix gs vs assume gs: "list_all2 hextet_text gs vs" "length vs = 8" "w = colons gs"
  then have "length gs = 8" by (simp add: list_all2_lengthD)
  then have "gs \<noteq> []" by auto
  with colon_count_colons [OF gs(1)] \<open>length gs = 8\<close> have "colon_count (colons gs) = 7" by simp
  then show ?thesis using colon_count_none [of w] gs(3) by auto
qed simp

lemmas literal_has_colon = mac_text_colon ipv6_text_colon

end
