(* ===== verification/Dispfilter_Lexer.thy ===== *)
theory Dispfilter_Lexer
  imports Dispfilter_Literals Lexer
begin

text \<open>
  The tokens and the lexer of \<open>src/src/c/dispfilter.c\<close>. The names of \<open>capfilter.c\<close> that occur here
  again carry the prefix \<open>df\<close> or \<open>D\<close>.
\<close>

subsection \<open>Tokens\<close>

datatype df_token_type_t =
    DTOK_END | DTOK_LPAREN | DTOK_RPAREN | DTOK_AND | DTOK_OR | DTOK_NOT | DTOK_EQ | DTOK_NE
  | DTOK_FIELD | DTOK_NUMBER | DTOK_IPV4 | DTOK_IPV6 | DTOK_MAC

datatype df_field_t =
    FIELD_ETH_SRC | FIELD_ETH_DST | FIELD_ETH_ADDR
  | FIELD_IP_SRC | FIELD_IP_DST | FIELD_IP_ADDR
  | FIELD_IPV6_SRC | FIELD_IPV6_DST | FIELD_IPV6_ADDR
  | FIELD_TCP_SRCPORT | FIELD_TCP_DSTPORT | FIELD_TCP_PORT
  | FIELD_UDP_SRCPORT | FIELD_UDP_DSTPORT | FIELD_UDP_PORT

record df_token_t =
  dtok_type :: df_token_type_t
  dtok_field :: df_field_t
  dtok_num :: u32
  dtok_ipv4 :: buf
  dtok_ipv6 :: buf
  dtok_mac :: buf

type_synonym df_ctx_t = "df_token_t filter_ctx"

text \<open>The token after its \<open>memset\<close>, and the ways the lexer fills it in.\<close>

definition df_zero_tok :: df_token_t where
  "df_zero_tok = \<lparr>dtok_type = DTOK_END, dtok_field = FIELD_ETH_SRC, dtok_num = 0,
     dtok_ipv4 = replicate 4 0, dtok_ipv6 = replicate 16 0, dtok_mac = replicate 6 0\<rparr>"

definition df_tok :: "df_token_type_t \<Rightarrow> df_token_t" where
  "df_tok ty = df_zero_tok\<lparr>dtok_type := ty\<rparr>"

definition df_word_tok :: "df_token_type_t \<times> df_field_t \<Rightarrow> df_token_t" where
  "df_word_tok k = df_zero_tok\<lparr>dtok_type := fst k, dtok_field := snd k\<rparr>"

definition df_number_tok :: "u32 \<Rightarrow> df_token_t" where
  "df_number_tok v = df_zero_tok\<lparr>dtok_type := DTOK_NUMBER, dtok_num := v\<rparr>"

definition df_ipv4_tok :: "buf \<Rightarrow> df_token_t" where
  "df_ipv4_tok a = df_zero_tok\<lparr>dtok_type := DTOK_IPV4, dtok_ipv4 := a\<rparr>"

definition df_ipv6_tok :: "buf \<Rightarrow> df_token_t" where
  "df_ipv6_tok a = df_zero_tok\<lparr>dtok_type := DTOK_IPV6, dtok_ipv6 := a\<rparr>"

definition df_mac_tok :: "buf \<Rightarrow> df_token_t" where
  "df_mac_tok m = df_zero_tok\<lparr>dtok_type := DTOK_MAC, dtok_mac := m\<rparr>"

definition DF_KEYWORDS :: "(string \<times> df_token_type_t \<times> df_field_t) list" where
  "DF_KEYWORDS =
     [(''and'', DTOK_AND, FIELD_ETH_SRC), (''or'', DTOK_OR, FIELD_ETH_SRC), (''not'', DTOK_NOT, FIELD_ETH_SRC),
      (''eth.src'', DTOK_FIELD, FIELD_ETH_SRC), (''eth.dst'', DTOK_FIELD, FIELD_ETH_DST),
      (''eth.addr'', DTOK_FIELD, FIELD_ETH_ADDR), (''ip.src'', DTOK_FIELD, FIELD_IP_SRC),
      (''ip.dst'', DTOK_FIELD, FIELD_IP_DST), (''ip.addr'', DTOK_FIELD, FIELD_IP_ADDR),
      (''ipv6.src'', DTOK_FIELD, FIELD_IPV6_SRC), (''ipv6.dst'', DTOK_FIELD, FIELD_IPV6_DST),
      (''ipv6.addr'', DTOK_FIELD, FIELD_IPV6_ADDR), (''tcp.srcport'', DTOK_FIELD, FIELD_TCP_SRCPORT),
      (''tcp.dstport'', DTOK_FIELD, FIELD_TCP_DSTPORT), (''tcp.port'', DTOK_FIELD, FIELD_TCP_PORT),
      (''udp.srcport'', DTOK_FIELD, FIELD_UDP_SRCPORT), (''udp.dstport'', DTOK_FIELD, FIELD_UDP_DSTPORT),
      (''udp.port'', DTOK_FIELD, FIELD_UDP_PORT)]"

subsection \<open>The lexer\<close>

definition df_word_char :: "char \<Rightarrow> bool" where
  "df_word_char ch \<longleftrightarrow> is_lower ch \<or> is_upper ch \<or> is_digit ch
     \<or> ch = CHR ''_'' \<or> ch = CHR ''.'' \<or> ch = CHR '':''"

definition df_next_is :: "char \<Rightarrow> string \<Rightarrow> bool" where
  "df_next_is ch s \<longleftrightarrow> (case s of [] \<Rightarrow> False | c # _ \<Rightarrow> c = ch)"

text \<open>The token a word stands for, or the error it causes.\<close>

definition df_word :: "string \<Rightarrow> (df_ctx_t \<Rightarrow> df_ctx_t) + df_token_t" where
  "df_word word =
     (if CHR '':'' \<in> set word then
        (case parse_mac_word word of
           Some mac \<Rightarrow> Inr (df_mac_tok mac)
         | None \<Rightarrow>
             (case parse_ipv6_word word of
                Some ipv6 \<Rightarrow> Inr (df_ipv6_tok ipv6)
              | None \<Rightarrow> Inl (cf_fail ''invalid MAC or IPv6 literal'')))
      else if is_digit (hd word) then
        (case parse_ipv4_word word of
           Some addr \<Rightarrow> Inr (df_ipv4_tok addr)
         | None \<Rightarrow>
             if \<not> list_all is_digit word then Inl (cf_fail ''invalid number or IPv4 address'')
             else
               let v = strtoul word in
               if v > 0xFFFFFFFF then Inl (cf_fail ''number out of range'')
               else Inr (df_number_tok (of_nat v)))
      else
        (case map_of DF_KEYWORDS word of
           Some k \<Rightarrow> Inr (df_word_tok k)
         | None \<Rightarrow>
             Inl (cf_failf (''unknown field or keyword '' @ [CHR 0x27]) [CHR 0x27] (take 63 word))))"

function df_lex :: "df_ctx_t \<Rightarrow> string \<Rightarrow> df_ctx_t option" where
  "df_lex c [] = put_end (df_tok DTOK_END) c"
| "df_lex c (ch # expr) =
     (if is_space ch then df_lex c expr
      else if length (toks c) \<ge> CF_MAX_TOKENS then
        Some (cf_fail ''filter expression has too many tokens'' c)
      else if ch = CHR ''('' then df_lex (push_tok (df_tok DTOK_LPAREN) c) expr
      else if ch = CHR '')'' then df_lex (push_tok (df_tok DTOK_RPAREN) c) expr
      else if ch = CHR ''&'' \<and> df_next_is CHR ''&'' expr then
        df_lex (push_tok (df_tok DTOK_AND) c) (tl expr)
      else if ch = CHR ''|'' \<and> df_next_is CHR ''|'' expr then
        df_lex (push_tok (df_tok DTOK_OR) c) (tl expr)
      else if ch = CHR ''='' \<and> df_next_is CHR ''='' expr then
        df_lex (push_tok (df_tok DTOK_EQ) c) (tl expr)
      else if ch = CHR ''!'' \<and> df_next_is CHR ''='' expr then
        df_lex (push_tok (df_tok DTOK_NE) c) (tl expr)
      else if ch = CHR ''!'' then df_lex (push_tok (df_tok DTOK_NOT) c) expr
      else if df_word_char ch then
        (case df_word (takeWhile df_word_char (ch # expr)) of
           Inl fail \<Rightarrow> Some (fail c)
         | Inr t \<Rightarrow> df_lex (push_tok t c) (dropWhile df_word_char expr))
      else Some (cf_fail ''unexpected character in filter expression'' c))"
  by pat_completeness auto
termination
  by (relation "measure (length \<circ> snd)")
    (auto simp: length_dropWhile_le less_Suc_eq_le df_next_is_def split: list.splits
      intro: le_trans [OF length_dropWhile_le])

declare df_lex.simps [simp del]

subsection \<open>Spelling of tokens\<close>

inductive df_tok_text :: "string \<Rightarrow> df_token_t \<Rightarrow> bool" where
  keyword: "map_of DF_KEYWORDS w = Some k \<Longrightarrow> df_tok_text w (df_word_tok k)"
| lparen: "df_tok_text ''('' (df_tok DTOK_LPAREN)"
| rparen: "df_tok_text '')'' (df_tok DTOK_RPAREN)"
| amp_amp: "df_tok_text ''&&'' (df_tok DTOK_AND)"
| bar_bar: "df_tok_text ''||'' (df_tok DTOK_OR)"
| eq_eq: "df_tok_text ''=='' (df_tok DTOK_EQ)"
| bang_eq: "df_tok_text ''!='' (df_tok DTOK_NE)"
| bang: "df_tok_text ''!'' (df_tok DTOK_NOT)"
| number: "w \<noteq> [] \<Longrightarrow> \<forall>ch \<in> set w. is_digit ch \<Longrightarrow> dec_value w = unat v \<Longrightarrow> df_tok_text w (df_number_tok v)"
| ipv4: "quad_text w a \<Longrightarrow> df_tok_text w (df_ipv4_tok a)"
| ipv6: "ipv6_text w a \<Longrightarrow> df_tok_text w (df_ipv6_tok a)"
| mac: "mac_text w m \<Longrightarrow> df_tok_text w (df_mac_tok m)"

lemma df_keyword_shape:
  assumes "map_of DF_KEYWORDS w = Some k"
  shows "w \<noteq> [] \<and> is_lower (hd w) \<and> CHR '':'' \<notin> set w \<and> (\<forall>ch \<in> set w. df_word_char ch)
    \<and> fst k \<in> {DTOK_AND, DTOK_OR, DTOK_NOT, DTOK_FIELD}"
proof -
  have "\<forall>(w, k) \<in> set DF_KEYWORDS. w \<noteq> [] \<and> is_lower (hd w) \<and> CHR '':'' \<notin> set w \<and> (\<forall>ch \<in> set w. df_word_char ch)
      \<and> fst k \<in> {DTOK_AND, DTOK_OR, DTOK_NOT, DTOK_FIELD}"
    by code_simp
  with map_of_SomeD [OF assms] show ?thesis by blast
qed

lemma df_tok_text_not_end: "df_tok_text w t \<Longrightarrow> dtok_type t \<noteq> DTOK_END"
  by (induction rule: df_tok_text.induct)
    (auto simp: df_tok_def df_word_tok_def df_number_tok_def df_ipv4_tok_def df_ipv6_tok_def df_mac_tok_def
      dest: df_keyword_shape)

lemma df_tok_text_nonempty: "df_tok_text w t \<Longrightarrow> w \<noteq> []"
  by (auto elim!: df_tok_text.cases simp: quad_text_def dest: df_keyword_shape literal_has_colon)

subsection \<open>Words\<close>

lemma digits_no_colon: "\<forall>ch \<in> set d. is_digit ch \<Longrightarrow> CHR '':'' \<notin> set d"
  by (auto simp: is_digit_def)

lemma strtoul_digits:
  assumes "\<forall>ch \<in> set w. is_digit ch"
  shows "strtoul w = min (dec_value w) 18446744073709551615"
  using assms by (simp add: strtoul_def takeWhile_eq_all_conv [THEN iffD2])

lemma df_word_sound:
  assumes "df_word w = Inr t" "w \<noteq> []"
  shows "df_tok_text w t"
proof -
  consider (colon) "CHR '':'' \<in> set w" | (digit) "CHR '':'' \<notin> set w" "is_digit (hd w)"
    | (alpha) "CHR '':'' \<notin> set w" "\<not> is_digit (hd w)" by blast
  then show ?thesis
  proof cases
    case colon
    with assms(1) show ?thesis
      by (auto simp: df_word_def parse_mac_word_iff parse_ipv6_word_iff split: option.splits
          intro: df_tok_text.mac df_tok_text.ipv6)
  next
    case digit
    show ?thesis
    proof (cases "parse_ipv4_word w")
      case (Some a)
      with assms digit show ?thesis by (auto simp: df_word_def parse_ipv4_word_iff intro: df_tok_text.ipv4)
    next
      case None
      with assms digit have d: "\<forall>ch \<in> set w. is_digit ch" "strtoul w \<le> 4294967295"
        "t = df_number_tok (of_nat (strtoul w))"
        by (auto simp: df_word_def Let_def list_all_iff split: if_splits)
      then have "dec_value w = strtoul w" by (simp add: strtoul_digits min_def split: if_splits)
      moreover have "unat (of_nat (strtoul w) :: u32) = strtoul w"
        using d(2) by (simp add: unat_of_nat take_bit_nat_eq_self)
      ultimately show ?thesis using d assms(2) by (auto intro: df_tok_text.number)
    qed
  next
    case alpha
    with assms(1) show ?thesis by (auto simp: df_word_def split: option.splits intro: df_tok_text.keyword)
  qed
qed

text \<open>The words, as opposed to the operators.\<close>

definition df_wordy :: "string \<Rightarrow> bool" where
  "df_wordy w \<longleftrightarrow> w \<noteq> [] \<and> (\<forall>ch \<in> set w. df_word_char ch)"

lemma hex_word_char: "is_hex c \<Longrightarrow> df_word_char c"
  by (auto simp: is_hex_def hex_nibble_def Let_def df_word_char_def is_lower_def is_upper_def is_digit_def
      split: if_splits)

lemma df_wordyI: "\<forall>c \<in> set w. is_hex c \<or> c = CHR '':'' \<Longrightarrow> CHR '':'' \<in> set w \<Longrightarrow> df_wordy w"
  using hex_word_char by (auto simp: df_wordy_def df_word_char_def)

lemma lower_not_digit: "is_lower c \<Longrightarrow> \<not> is_digit c"
  by (auto simp: is_lower_def is_digit_def)

lemma df_word_complete:
  assumes "df_tok_text w t" "df_wordy w"
  shows "df_word w = Inr t"
  using assms(1)
proof cases
  case (keyword k)
  with df_keyword_shape [OF keyword(2)] show ?thesis by (auto simp: df_word_def dest: lower_not_digit)
next
  case (number v)
  note colon = digits_no_colon [OF number(3)]
  have "parse_ipv4_word w = None"
  proof (rule ccontr)
    assume "parse_ipv4_word w \<noteq> None"
    then have "CHR ''.'' \<in> set w" by (auto simp: parse_ipv4_word_iff quad_text_def)
    with number(3) show False by auto
  qed
  moreover have "strtoul w = unat v" using number unat_u32_bound [of v] by (simp add: strtoul_digits)
  moreover have "unat v \<le> 4294967295" using unat_u32_bound [of v] by simp
  ultimately show ?thesis using number colon by (auto simp: df_word_def list_all_iff hd_in_set)
next
  case (ipv4 a)
  then have "is_digit (hd w)" "CHR '':'' \<notin> set w"
    by (auto simp: quad_text_def octet_text_def hd_append digits_no_colon)
  with ipv4 show ?thesis by (simp add: df_word_def parse_ipv4_word_iff [THEN iffD2])
next
  case (ipv6 a)
  then have "parse_mac_word w = None"
    using mac_not_ipv6 by (metis not_None_eq parse_mac_word_iff)
  with ipv6 literal_has_colon(2) show ?thesis by (simp add: df_word_def parse_ipv6_word_iff [THEN iffD2])
next
  case (mac m)
  with literal_has_colon(1) show ?thesis by (simp add: df_word_def parse_mac_word_iff [THEN iffD2])
qed (use assms(2) in \<open>simp_all add: df_wordy_def df_word_char_def is_lower_def is_upper_def is_digit_def\<close>)

lemma df_tok_text_cases:
  assumes "df_tok_text w t"
  shows "df_wordy w \<or> (w, t) \<in> {(''('', df_tok DTOK_LPAREN), ('')'', df_tok DTOK_RPAREN),
    (''&&'', df_tok DTOK_AND), (''||'', df_tok DTOK_OR), (''=='', df_tok DTOK_EQ),
    (''!='', df_tok DTOK_NE), (''!'', df_tok DTOK_NOT)}"
  using assms
proof cases
  case (keyword k)
  with df_keyword_shape [OF keyword(2)] show ?thesis by (simp add: df_wordy_def)
next
  case (number v)
  then show ?thesis by (simp add: df_wordy_def df_word_char_def)
next
  case (ipv4 a)
  then have "w \<noteq> []" "\<forall>ch \<in> set w. df_word_char ch"
    by (auto simp: quad_text_def octet_text_def df_word_char_def)
  then show ?thesis by (simp add: df_wordy_def)
next
  case (ipv6 a)
  then show ?thesis using df_wordyI [OF ipv6_text_chars literal_has_colon(2)] by blast
next
  case (mac m)
  then show ?thesis using df_wordyI [OF mac_text_chars literal_has_colon(1)] by blast
qed simp_all

subsection \<open>The lexer meets its contract\<close>

lemma df_word_char_class:
  "df_word_char ch \<Longrightarrow> \<not> is_space ch \<and> ch \<notin> {CHR ''('', CHR '')'', CHR ''&'', CHR ''|'', CHR ''='', CHR ''!''}"
  by (auto simp: df_word_char_def is_space_def is_digit_def is_lower_def is_upper_def)

lemma df_lex_wordy:
  assumes "df_word_char ch" "length (toks c) < 256"
  shows "df_lex c (ch # expr) = (case df_word (takeWhile df_word_char (ch # expr)) of
      Inl fail \<Rightarrow> Some (fail c) | Inr t \<Rightarrow> df_lex (push_tok t c) (dropWhile df_word_char expr))"
  using df_word_char_class [OF assms(1)] assms by (subst df_lex.simps) simp

lemma df_lex_symbols:
  assumes "length (toks c) < 256"
  shows "df_lex c (CHR ''('' # s) = df_lex (push_tok (df_tok DTOK_LPAREN) c) s"
    and "df_lex c (CHR '')'' # s) = df_lex (push_tok (df_tok DTOK_RPAREN) c) s"
    and "df_lex c (CHR ''&'' # CHR ''&'' # s) = df_lex (push_tok (df_tok DTOK_AND) c) s"
    and "df_lex c (CHR ''|'' # CHR ''|'' # s) = df_lex (push_tok (df_tok DTOK_OR) c) s"
    and "df_lex c (CHR ''='' # CHR ''='' # s) = df_lex (push_tok (df_tok DTOK_EQ) c) s"
    and "df_lex c (CHR ''!'' # CHR ''='' # s) = df_lex (push_tok (df_tok DTOK_NE) c) s"
    and "\<not> df_next_is CHR ''='' s \<Longrightarrow> df_lex c (CHR ''!'' # s) = df_lex (push_tok (df_tok DTOK_NOT) c) s"
  using assms by (subst df_lex.simps, simp add: is_space_def df_next_is_def)+

lemma df_word_fails: "df_word w = Inl fail \<Longrightarrow> failed (fail c)"
  by (auto simp: df_word_def Let_def split: if_splits option.splits)

lemma df_lex_two:
  assumes "length (toks c) < 256" "df_next_is (if ch = CHR ''!'' then CHR ''='' else ch) expr"
    and "ch \<in> {CHR ''&'', CHR ''|'', CHR ''='', CHR ''!''}"
  shows "\<exists>w t s. df_tok_text w t \<and> ch # expr = w @ s \<and> df_lex c (ch # expr) = df_lex (push_tok t c) s"
proof -
  obtain d s where d: "expr = d # s" "d = (if ch = CHR ''!'' then CHR ''='' else ch)"
    using assms(2) by (cases expr) (auto simp: df_next_is_def)
  have "\<exists>t. df_tok_text [ch, d] t \<and> df_lex c (ch # expr) = df_lex (push_tok t c) s"
    using assms(3) df_lex_symbols(3-6) [OF assms(1), of s] df_tok_text.amp_amp df_tok_text.bar_bar
      df_tok_text.eq_eq df_tok_text.bang_eq d by auto
  then show ?thesis using d(1) by (metis append_Cons append_Nil)
qed

lemma df_lex_step_word:
  assumes "length (toks c) < 256" "df_word_char ch"
  shows "(\<exists>c'. df_lex c (ch # expr) = Some c' \<and> failed c')
    \<or> (\<exists>w t s. df_tok_text w t \<and> ch # expr = w @ s \<and> df_lex c (ch # expr) = df_lex (push_tok t c) s)"
proof -
  define wd where "wd = takeWhile df_word_char (ch # expr)"
  define after where "after = dropWhile df_word_char expr"
  have w: "ch # expr = wd @ after" "wd \<noteq> []" using assms(2) by (simp_all add: wd_def after_def)
  note step = df_lex_wordy [OF assms(2,1), of expr, folded wd_def after_def]
  show ?thesis
  proof (cases "df_word wd")
    case (Inl f)
    with step df_word_fails [OF Inl] show ?thesis by simp
  next
    case (Inr t)
    with step w df_word_sound [OF Inr] show ?thesis by auto
  qed
qed

lemma df_lex_step:
  "(\<exists>c'. df_lex c (ch # expr) = Some c' \<and> failed c')
   \<or> is_space ch \<and> df_lex c (ch # expr) = df_lex c expr
   \<or> (\<exists>w t s. df_tok_text w t \<and> ch # expr = w @ s \<and> length (toks c) < 256
       \<and> df_lex c (ch # expr) = df_lex (push_tok t c) s)"
proof -
  have fail: "\<exists>c'. df_lex c (ch # expr) = Some c' \<and> failed c'"
    if "df_lex c (ch # expr) = Some (cf_fail msg c)" for msg using that by simp
  consider (blank) "is_space ch" | (full) "\<not> is_space ch" "256 \<le> length (toks c)"
    | (sym) "length (toks c) < 256" "ch = CHR ''('' \<or> ch = CHR '')'' \<or> ch = CHR ''!'' \<and> \<not> df_next_is CHR ''='' expr"
    | (two) "length (toks c) < 256" "df_next_is (if ch = CHR ''!'' then CHR ''='' else ch) expr"
        "ch \<in> {CHR ''&'', CHR ''|'', CHR ''='', CHR ''!''}"
    | (word) "length (toks c) < 256" "df_word_char ch"
    | (other) "\<not> is_space ch" "length (toks c) < 256" "\<not> df_word_char ch" "ch \<notin> {CHR ''('', CHR '')''}"
        "ch \<in> {CHR ''&'', CHR ''|'', CHR ''=''} \<longrightarrow> \<not> df_next_is ch expr" "ch \<noteq> CHR ''!''"
    by (cases "is_space ch"; cases "256 \<le> length (toks c)"; cases "df_word_char ch"; cases "ch = CHR ''!''") auto
  then show ?thesis
  proof cases
    case blank
    then show ?thesis by (simp add: df_lex.simps)
  next
    case full
    then show ?thesis using fail by (simp add: df_lex.simps)
  next
    case sym
    then show ?thesis
      using df_lex_symbols(1,2,7) [OF sym(1), of expr] df_tok_text.lparen df_tok_text.rparen df_tok_text.bang
      by (metis append_Cons append_Nil)
  next
    case two
    then show ?thesis using df_lex_two [OF two] by blast
  next
    case word
    then show ?thesis using df_lex_step_word [OF word, of expr] by blast
  next
    case other
    then have "df_lex c (ch # expr) = Some (cf_fail ''unexpected character in filter expression'' c)"
      by (subst df_lex.simps) auto
    then show ?thesis using fail by blast
  qed
qed

lemma df_lex_word:
  assumes "df_tok_text w t" "length (toks c) < 256"
  shows "df_lex c (w @ CHR '' '' # s) = df_lex (push_tok t c) (CHR '' '' # s)"
  using df_tok_text_cases [OF assms(1)]
proof
  assume w: "df_wordy w"
  then obtain ch w' where ch: "w = ch # w'" "df_word_char ch" "\<forall>c \<in> set w'. df_word_char c"
    by (cases w) (auto simp: df_wordy_def)
  have blank: "\<not> df_word_char CHR '' ''" by (simp add: df_word_char_def is_lower_def is_upper_def is_digit_def)
  have "takeWhile df_word_char (w @ CHR '' '' # s) = w" "dropWhile df_word_char (w' @ CHR '' '' # s) = CHR '' '' # s"
    using w blank ch takeWhile_upto_space [of w df_word_char s] takeWhile_upto_space(2) [of w' df_word_char s]
    by (simp_all add: df_wordy_def)
  with df_lex_wordy [OF ch(2) assms(2), of "w' @ CHR '' '' # s"] df_word_complete [OF assms(1) w] ch(1)
  show ?thesis by simp
qed (use df_lex_symbols [OF assms(2)] in \<open>auto simp: df_next_is_def\<close>)

interpretation df_lexer: lexer df_lex df_tok_text "df_tok DTOK_END"
proof
  fix c :: df_ctx_t and ch expr
  show "(\<exists>c'. df_lex c (ch # expr) = Some c' \<and> failed c')
      \<or> is_space ch \<and> df_lex c (ch # expr) = df_lex c expr
      \<or> (\<exists>w t s. df_tok_text w t \<and> ch # expr = w @ s \<and> length (toks c) < 256
          \<and> df_lex c (ch # expr) = df_lex (push_tok t c) s)"
    by (rule df_lex_step)
qed (simp_all add: df_lex.simps df_lex_word df_tok_text_nonempty)

end
