(* ===== verification/Dispfilter_Parser.thy ===== *)
theory Dispfilter_Parser
  imports Dispfilter_Lexer Recursive_Descent
begin

text \<open>
  The syntax tree and the recursive-descent parser of \<open>src/src/c/dispfilter.c\<close>, with the same
  representation of nodes and arena as for the capture filter. Unlike there, the two loops return at
  once when no node can be allocated. The boolean layer is proved by interpreting the same locale.
\<close>

subsection \<open>Syntax tree\<close>

datatype df_cmp_t = CMP_EQ | CMP_NE

text \<open>The union of a comparison node, with the member that was stored last.\<close>

datatype df_value_t = V_PORT u16 | V_IPV4 buf | V_IPV6 buf | V_MAC buf

datatype df_node_t =
    DN_AND "df_node_t option" "df_node_t option"
  | DN_OR "df_node_t option" "df_node_t option"
  | DN_NOT "df_node_t option"
  | DN_CMP df_field_t df_cmp_t df_value_t

record df_parser =
  dp_ctx :: df_ctx_t
  dp_count :: nat

abbreviation DF_MAX_NODES :: nat where "DF_MAX_NODES \<equiv> 256"

definition df_pfail :: "string \<Rightarrow> df_parser \<Rightarrow> df_parser" where
  "df_pfail msg p = p\<lparr>dp_ctx := cf_fail msg (dp_ctx p)\<rparr>"

definition df_mk_node :: "df_node_t \<Rightarrow> df_parser \<Rightarrow> df_node_t option \<times> df_parser" where
  "df_mk_node n p =
     (if failed (dp_ctx p) then (None, p)
      else if dp_count p \<ge> DF_MAX_NODES then (None, df_pfail ''filter expression is too complex'' p)
      else (Some n, p\<lparr>dp_count := dp_count p + 1\<rparr>))"

subsection \<open>Parser\<close>

definition df_peek :: "df_parser \<Rightarrow> df_token_t option" where
  "df_peek p =
     (let i = pos (dp_ctx p); ts = toks (dp_ctx p) in
      if i < length ts then Some (ts ! i) else if i < CF_MAX_TOKENS then Some df_zero_tok else None)"

definition df_advance :: "df_parser \<Rightarrow> (df_token_t \<times> df_parser) option" where
  "df_advance p = do {
     t \<leftarrow> df_peek p;
     Some (t, if dtok_type t \<noteq> DTOK_END then p\<lparr>dp_ctx := (dp_ctx p)\<lparr>pos := pos (dp_ctx p) + 1\<rparr>\<rparr> else p)
   }"

text \<open>The \<open>switch\<close> on the field: the value stored in the node, or the message.\<close>

definition df_operand :: "df_field_t \<Rightarrow> df_token_t \<Rightarrow> string + df_value_t" where
  "df_operand field val_tok =
     (case field of
        FIELD_ETH_SRC \<Rightarrow> (if dtok_type val_tok \<noteq> DTOK_MAC then Inl ''expected a MAC address (aa:bb:cc:dd:ee:ff)''
          else Inr (V_MAC (dtok_mac val_tok)))
      | FIELD_ETH_DST \<Rightarrow> (if dtok_type val_tok \<noteq> DTOK_MAC then Inl ''expected a MAC address (aa:bb:cc:dd:ee:ff)''
          else Inr (V_MAC (dtok_mac val_tok)))
      | FIELD_ETH_ADDR \<Rightarrow> (if dtok_type val_tok \<noteq> DTOK_MAC then Inl ''expected a MAC address (aa:bb:cc:dd:ee:ff)''
          else Inr (V_MAC (dtok_mac val_tok)))
      | FIELD_IP_SRC \<Rightarrow> (if dtok_type val_tok \<noteq> DTOK_IPV4 then Inl ''expected an IPv4 address''
          else Inr (V_IPV4 (dtok_ipv4 val_tok)))
      | FIELD_IP_DST \<Rightarrow> (if dtok_type val_tok \<noteq> DTOK_IPV4 then Inl ''expected an IPv4 address''
          else Inr (V_IPV4 (dtok_ipv4 val_tok)))
      | FIELD_IP_ADDR \<Rightarrow> (if dtok_type val_tok \<noteq> DTOK_IPV4 then Inl ''expected an IPv4 address''
          else Inr (V_IPV4 (dtok_ipv4 val_tok)))
      | FIELD_IPV6_SRC \<Rightarrow> (if dtok_type val_tok \<noteq> DTOK_IPV6 then Inl ''expected an IPv6 address''
          else Inr (V_IPV6 (dtok_ipv6 val_tok)))
      | FIELD_IPV6_DST \<Rightarrow> (if dtok_type val_tok \<noteq> DTOK_IPV6 then Inl ''expected an IPv6 address''
          else Inr (V_IPV6 (dtok_ipv6 val_tok)))
      | FIELD_IPV6_ADDR \<Rightarrow> (if dtok_type val_tok \<noteq> DTOK_IPV6 then Inl ''expected an IPv6 address''
          else Inr (V_IPV6 (dtok_ipv6 val_tok)))
      | _ \<Rightarrow> (if dtok_type val_tok \<noteq> DTOK_NUMBER \<or> dtok_num val_tok > 65535
          then Inl ''expected a port number (0-65535)''
          else Inr (V_PORT (ucast (dtok_num val_tok)))))"

definition df_parse_primitive :: "df_parser \<Rightarrow> (df_node_t option \<times> df_parser) option" where
  "df_parse_primitive p = do {
     (field_tok, p) \<leftarrow> df_advance p;
     if dtok_type field_tok \<noteq> DTOK_FIELD then
       Some (None, df_pfail ''expected a field name (e.g. tcp.port, ip.src)'' p)
     else do {
       let field = dtok_field field_tok;
       (op_tok, p) \<leftarrow> df_advance p;
       if dtok_type op_tok \<noteq> DTOK_EQ \<and> dtok_type op_tok \<noteq> DTOK_NE then
         Some (None, df_pfail (''expected '=='' @ [CHR 0x27] @ '' or '!='' @ [CHR 0x27] @ '' after field name'') p)
       else do {
         let cmp = (if dtok_type op_tok = DTOK_EQ then CMP_EQ else CMP_NE);
         (val_tok, p) \<leftarrow> df_advance p;
         let (n, p) = df_mk_node (DN_CMP field cmp (V_PORT 0)) p;
         case n of
           None \<Rightarrow> Some (None, p)
         | Some _ \<Rightarrow>
             (case df_operand field val_tok of
                Inl msg \<Rightarrow> Some (None, df_pfail msg p)
              | Inr v \<Rightarrow> Some (Some (DN_CMP field cmp v), p))
       }
     }
   }"

fun df_parse_not :: "nat \<Rightarrow> df_parser \<Rightarrow> (df_node_t option \<times> df_parser) option"
  and df_parse_and :: "nat \<Rightarrow> df_parser \<Rightarrow> (df_node_t option \<times> df_parser) option"
  and df_parse_and_loop :: "nat \<Rightarrow> df_node_t option \<Rightarrow> df_parser \<Rightarrow> (df_node_t option \<times> df_parser) option"
  and df_parse_expr :: "nat \<Rightarrow> df_parser \<Rightarrow> (df_node_t option \<times> df_parser) option"
  and df_parse_expr_loop :: "nat \<Rightarrow> df_node_t option \<Rightarrow> df_parser \<Rightarrow> (df_node_t option \<times> df_parser) option"
where
  "df_parse_not 0 p = None"
| "df_parse_not (Suc fuel) p = do {
     t \<leftarrow> df_peek p;
     if dtok_type t = DTOK_NOT then do {
       (_, p) \<leftarrow> df_advance p;
       (operand, p) \<leftarrow> df_parse_not fuel p;
       Some (df_mk_node (DN_NOT operand) p)
     } else if dtok_type t = DTOK_LPAREN then do {
       (_, p) \<leftarrow> df_advance p;
       (inner, p) \<leftarrow> df_parse_expr fuel p;
       (t, p) \<leftarrow> df_advance p;
       if dtok_type t = DTOK_RPAREN then Some (inner, p)
       else Some (None, df_pfail (''expected ')'' @ [CHR 0x27]) p)
     } else df_parse_primitive p
   }"
| "df_parse_and 0 p = None"
| "df_parse_and (Suc fuel) p = do { (left, p) \<leftarrow> df_parse_not fuel p; df_parse_and_loop fuel left p }"
| "df_parse_and_loop 0 left p = None"
| "df_parse_and_loop (Suc fuel) left p = do {
     t \<leftarrow> df_peek p;
     if dtok_type t = DTOK_AND then do {
       (_, p) \<leftarrow> df_advance p;
       (right, p) \<leftarrow> df_parse_not fuel p;
       let (n, p) = df_mk_node (DN_AND left right) p;
       if n = None then Some (n, p) else df_parse_and_loop fuel n p
     } else Some (left, p)
   }"
| "df_parse_expr 0 p = None"
| "df_parse_expr (Suc fuel) p = do { (left, p) \<leftarrow> df_parse_and fuel p; df_parse_expr_loop fuel left p }"
| "df_parse_expr_loop 0 left p = None"
| "df_parse_expr_loop (Suc fuel) left p = do {
     t \<leftarrow> df_peek p;
     if dtok_type t = DTOK_OR then do {
       (_, p) \<leftarrow> df_advance p;
       (right, p) \<leftarrow> df_parse_and fuel p;
       let (n, p) = df_mk_node (DN_OR left right) p;
       if n = None then Some (n, p) else df_parse_expr_loop fuel n p
     } else Some (left, p)
   }"

subsection \<open>The language\<close>

fun df_node_count :: "df_node_t \<Rightarrow> nat" where
  "df_node_count (DN_AND l r) = Suc ((case l of None \<Rightarrow> 0 | Some n \<Rightarrow> df_node_count n)
     + (case r of None \<Rightarrow> 0 | Some n \<Rightarrow> df_node_count n))"
| "df_node_count (DN_OR l r) = Suc ((case l of None \<Rightarrow> 0 | Some n \<Rightarrow> df_node_count n)
     + (case r of None \<Rightarrow> 0 | Some n \<Rightarrow> df_node_count n))"
| "df_node_count (DN_NOT l) = Suc (case l of None \<Rightarrow> 0 | Some n \<Rightarrow> df_node_count n)"
| "df_node_count (DN_CMP _ _ _) = 1"

text \<open>\<open>primitive\<close> of the grammar in \<open>dispfilter.h\<close>: the value must be of the field's type.\<close>

datatype df_type = T_MAC | T_IPV4 | T_IPV6 | T_PORT

fun field_type :: "df_field_t \<Rightarrow> df_type" where
  "field_type FIELD_ETH_SRC = T_MAC" | "field_type FIELD_ETH_DST = T_MAC" | "field_type FIELD_ETH_ADDR = T_MAC"
| "field_type FIELD_IP_SRC = T_IPV4" | "field_type FIELD_IP_DST = T_IPV4" | "field_type FIELD_IP_ADDR = T_IPV4"
| "field_type FIELD_IPV6_SRC = T_IPV6" | "field_type FIELD_IPV6_DST = T_IPV6" | "field_type FIELD_IPV6_ADDR = T_IPV6"
| "field_type _ = T_PORT"

inductive value_of :: "df_type \<Rightarrow> df_token_t \<Rightarrow> df_value_t \<Rightarrow> bool" where
  "dtok_type t = DTOK_MAC \<Longrightarrow> value_of T_MAC t (V_MAC (dtok_mac t))"
| "dtok_type t = DTOK_IPV4 \<Longrightarrow> value_of T_IPV4 t (V_IPV4 (dtok_ipv4 t))"
| "dtok_type t = DTOK_IPV6 \<Longrightarrow> value_of T_IPV6 t (V_IPV6 (dtok_ipv6 t))"
| "dtok_type t = DTOK_NUMBER \<Longrightarrow> unat (dtok_num t) \<le> 65535 \<Longrightarrow> value_of T_PORT t (V_PORT (ucast (dtok_num t)))"

inductive df_primitive :: "df_token_t list \<Rightarrow> df_node_t \<Rightarrow> bool" where
  eq: "dtok_type f = DTOK_FIELD \<Longrightarrow> dtok_type r = DTOK_EQ \<Longrightarrow> value_of (field_type (dtok_field f)) t v \<Longrightarrow>
    df_primitive [f, r, t] (DN_CMP (dtok_field f) CMP_EQ v)"
| ne: "dtok_type f = DTOK_FIELD \<Longrightarrow> dtok_type r = DTOK_NE \<Longrightarrow> value_of (field_type (dtok_field f)) t v \<Longrightarrow>
    df_primitive [f, r, t] (DN_CMP (dtok_field f) CMP_NE v)"

definition df_syntax :: "(df_token_t, df_node_t) bool_syntax" where
  "df_syntax = \<lparr>is_not = (\<lambda>t. dtok_type t = DTOK_NOT), is_lparen = (\<lambda>t. dtok_type t = DTOK_LPAREN),
     is_rparen = (\<lambda>t. dtok_type t = DTOK_RPAREN), is_and = (\<lambda>t. dtok_type t = DTOK_AND),
     is_or = (\<lambda>t. dtok_type t = DTOK_OR), is_end = (\<lambda>t. dtok_type t = DTOK_END),
     node_not = DN_NOT, node_and = DN_AND, node_or = DN_OR, primitive = df_primitive\<rparr>"

lemma df_syntax_select:
  "is_not df_syntax = (\<lambda>t. dtok_type t = DTOK_NOT)" "is_lparen df_syntax = (\<lambda>t. dtok_type t = DTOK_LPAREN)"
  "is_rparen df_syntax = (\<lambda>t. dtok_type t = DTOK_RPAREN)" "is_and df_syntax = (\<lambda>t. dtok_type t = DTOK_AND)"
  "is_or df_syntax = (\<lambda>t. dtok_type t = DTOK_OR)" "is_end df_syntax = (\<lambda>t. dtok_type t = DTOK_END)"
  "node_not df_syntax = DN_NOT" "node_and df_syntax = DN_AND" "node_or df_syntax = DN_OR"
  "primitive df_syntax = df_primitive"
  by (simp_all add: df_syntax_def)

lemma df_operand_iff: "df_operand field t = Inr v \<longleftrightarrow> value_of (field_type field) t v"
proof -
  have "\<not> dtok_num t > 65535 \<longleftrightarrow> unat (dtok_num t) \<le> 65535" by (simp add: word_less_nat_alt not_less)
  then show ?thesis
    by (cases field) (auto simp: df_operand_def value_of.simps split: if_splits)
qed

subsection \<open>Cursor and arena\<close>

definition df_rest :: "df_parser \<Rightarrow> df_token_t list" where
  "df_rest p = drop (pos (dp_ctx p)) (toks (dp_ctx p))"

definition df_room :: "df_parser \<Rightarrow> nat" where
  "df_room p = DF_MAX_NODES - dp_count p"

definition df_ok :: "df_parser \<Rightarrow> bool" where
  "df_ok p \<longleftrightarrow> dp_count p \<le> DF_MAX_NODES
     \<and> (\<exists>ts t. df_rest p = ts @ [t] \<and> dtok_type t = DTOK_END \<and> (\<forall>u \<in> set ts. dtok_type u \<noteq> DTOK_END))"

abbreviation df_bad :: "df_parser \<Rightarrow> bool" where
  "df_bad p \<equiv> failed (dp_ctx p)"

definition df_skip :: "df_parser \<Rightarrow> df_parser" where
  "df_skip p = (if dtok_type (hd (df_rest p)) \<noteq> DTOK_END
     then p\<lparr>dp_ctx := (dp_ctx p)\<lparr>pos := pos (dp_ctx p) + 1\<rparr>\<rparr> else p)"

lemma df_pfail_simps [simp]:
  "df_rest (df_pfail msg p) = df_rest p" "df_bad (df_pfail msg p)" "df_room (df_pfail msg p) = df_room p"
  "df_ok (df_pfail msg p) = df_ok p"
  by (simp_all add: df_pfail_def df_rest_def df_room_def df_ok_def)

lemma df_peek_ok: "df_ok p \<Longrightarrow> df_peek p = Some (hd (df_rest p))"
  by (cases "pos (dp_ctx p) < length (toks (dp_ctx p))")
    (auto simp: df_ok_def df_rest_def df_peek_def Let_def hd_drop_conv_nth)

lemma df_advance_ok: "df_ok p \<Longrightarrow> df_advance p = Some (hd (df_rest p), df_skip p)"
  by (simp add: df_advance_def df_peek_ok df_skip_def)

lemma df_skip_simps [simp]:
  "df_bad (df_skip p) = df_bad p" "df_room (df_skip p) = df_room p" "dp_count (df_skip p) = dp_count p"
  "df_rest (df_skip p) = (if dtok_type (hd (df_rest p)) = DTOK_END then df_rest p else tl (df_rest p))"
  by (auto simp: df_skip_def df_room_def df_rest_def drop_Suc tl_drop)

lemma df_ok_skip [simp]: "df_ok p \<Longrightarrow> df_ok (df_skip p)"
  unfolding df_ok_def df_skip_simps
  by (auto simp: tl_append hd_append split: list.splits if_splits)

lemma df_rest_nonempty: "df_ok p \<Longrightarrow> df_rest p \<noteq> []"
  by (auto simp: df_ok_def)

lemma df_mk_node_outcome:
  assumes "df_ok p"
  shows "\<not> df_bad p \<Longrightarrow> 0 < df_room p \<Longrightarrow> \<exists>p'. df_mk_node m p = (Some m, p') \<and> df_ok p' \<and> \<not> df_bad p'
      \<and> df_rest p' = df_rest p \<and> df_room p' = df_room p - 1"
    and "df_bad p \<or> df_room p = 0 \<Longrightarrow> \<exists>p'. df_mk_node m p = (None, p') \<and> df_ok p' \<and> df_bad p' \<and> df_rest p' = df_rest p"
  using assms by (auto simp: df_mk_node_def df_ok_def df_room_def df_rest_def df_pfail_def)

text \<open>The tokens the cursor passes over on its way.\<close>

lemma df_skip_suffix: "df_ok p \<Longrightarrow> \<exists>ts. df_rest p = ts @ df_rest (df_skip p)"
  using df_rest_nonempty [of p] by (cases "df_rest p") auto

subsection \<open>Primitives against the grammar\<close>

text \<open>The three tokens of a primitive, and the parser state behind them.\<close>

lemma df_parse_primitive_ok:
  assumes "df_ok p"
  shows "df_parse_primitive p = (let p1 = df_skip p; p2 = df_skip p1; p3 = df_skip p2;
      f = hd (df_rest p); r = hd (df_rest p1); t = hd (df_rest p2);
      cmp = (if dtok_type r = DTOK_EQ then CMP_EQ else CMP_NE); (n, p4) = df_mk_node (DN_CMP (dtok_field f) cmp (V_PORT 0)) p3 in
    if dtok_type f \<noteq> DTOK_FIELD then Some (None, df_pfail ''expected a field name (e.g. tcp.port, ip.src)'' p1)
    else if dtok_type r \<noteq> DTOK_EQ \<and> dtok_type r \<noteq> DTOK_NE then
      Some (None, df_pfail (''expected '=='' @ [CHR 0x27] @ '' or '!='' @ [CHR 0x27] @ '' after field name'') p2)
    else case n of
        None \<Rightarrow> Some (None, p4)
      | Some _ \<Rightarrow> (case df_operand (dtok_field f) t of
            Inl msg \<Rightarrow> Some (None, df_pfail msg p4)
          | Inr v \<Rightarrow> Some (Some (DN_CMP (dtok_field f) cmp v), p4)))"
  using assms unfolding df_parse_primitive_def Let_def
  by (simp add: df_advance_ok del: df_skip_simps(4) split: prod.split)

lemma df_skips:
  assumes "df_ok p"
  shows "\<exists>ts. df_rest p = ts @ df_rest (df_skip p)"
    and "\<exists>ts. df_rest p = ts @ df_rest (df_skip (df_skip p))"
    and "\<exists>ts. df_rest p = ts @ df_rest (df_skip (df_skip (df_skip p)))"
proof -
  obtain t1 t2 t3 where 1: "df_rest p = t1 @ df_rest (df_skip p)"
    and 2: "df_rest (df_skip p) = t2 @ df_rest (df_skip (df_skip p))"
    and 3: "df_rest (df_skip (df_skip p)) = t3 @ df_rest (df_skip (df_skip (df_skip p)))"
    using df_skip_suffix assms by (meson df_ok_skip)
  show "\<exists>ts. df_rest p = ts @ df_rest (df_skip p)" using 1 by blast
  show "\<exists>ts. df_rest p = ts @ df_rest (df_skip (df_skip p))" using 1 2 by (metis append.assoc)
  show "\<exists>ts. df_rest p = ts @ df_rest (df_skip (df_skip (df_skip p)))" using 1 2 3 by (metis append.assoc)
qed

lemma df_rest_Cons:
  "df_ok p \<Longrightarrow> dtok_type (hd (df_rest p)) \<noteq> DTOK_END \<Longrightarrow> df_rest p = hd (df_rest p) # df_rest (df_skip p)"
  using df_rest_nonempty [of p] by (cases "df_rest p") auto

lemma value_of_not_end: "value_of ty t v \<Longrightarrow> dtok_type t \<noteq> DTOK_END"
  by (auto elim: value_of.cases)

definition df_reads :: "df_parser \<Rightarrow> (df_node_t option \<times> df_parser) option \<Rightarrow> bool" where
  "df_reads p r \<longleftrightarrow> (\<exists>n p' ts. r = Some (n, p') \<and> df_ok p' \<and> df_rest p = ts @ df_rest p' \<and> (df_bad p \<longrightarrow> df_bad p')
     \<and> (\<not> df_bad p' \<longrightarrow> (\<exists>m. n = Some m \<and> df_primitive ts m \<and> df_room p = df_room p' + df_node_count m)))"

lemma df_reads_fail:
  "df_ok p' \<Longrightarrow> df_bad p' \<Longrightarrow> \<exists>ts. df_rest p = ts @ df_rest p' \<Longrightarrow> df_reads p (Some (n, p'))"
  unfolding df_reads_def by blast

lemma df_comparison:
  assumes "df_ok p" "dtok_type (hd (df_rest p)) \<noteq> DTOK_END" "dtok_type (hd (df_rest (df_skip p))) \<noteq> DTOK_END"
    and "dtok_type (hd (df_rest (df_skip (df_skip p)))) \<noteq> DTOK_END"
  shows "df_rest p = [hd (df_rest p), hd (df_rest (df_skip p)), hd (df_rest (df_skip (df_skip p)))]
    @ df_rest (df_skip (df_skip (df_skip p)))"
proof -
  have ok: "df_ok (df_skip p)" "df_ok (df_skip (df_skip p))" using assms(1) by simp_all
  show ?thesis
    using df_rest_Cons [OF assms(1,2)] df_rest_Cons [OF ok(1) assms(3)] df_rest_Cons [OF ok(2) assms(4)] by simp
qed

lemma df_primitive_reads:
  assumes "df_ok p"
  shows "df_reads p (df_parse_primitive p)"
proof -
  define p1 where "p1 = df_skip p"
  define p2 where "p2 = df_skip p1"
  define p3 where "p3 = df_skip p2"
  define f where "f = hd (df_rest p)"
  define r where "r = hd (df_rest p1)"
  define t where "t = hd (df_rest p2)"
  have ok: "df_ok p1" "df_ok p2" "df_ok p3" using assms by (simp_all add: p1_def p2_def p3_def)
  note skips = df_skips [OF assms, folded p1_def p2_def p3_def]
  define cmp where "cmp = (if dtok_type r = DTOK_EQ then CMP_EQ else CMP_NE)"
  obtain n p4 where mk: "df_mk_node (DN_CMP (dtok_field f) cmp (V_PORT 0)) p3 = (n, p4)" by (meson surj_pair)
  note run = df_parse_primitive_ok [OF assms, unfolded Let_def, folded p1_def, folded p2_def, folded p3_def f_def,
      folded r_def t_def, folded cmp_def, unfolded mk prod.case]
  consider (field) "dtok_type f \<noteq> DTOK_FIELD" | (op) "dtok_type f = DTOK_FIELD" "dtok_type r \<noteq> DTOK_EQ" "dtok_type r \<noteq> DTOK_NE"
    | (cmp) "dtok_type f = DTOK_FIELD" "dtok_type r = DTOK_EQ \<or> dtok_type r = DTOK_NE" by blast
  then show ?thesis
  proof cases
    case cmp
    show ?thesis
    proof (cases "df_bad p3 \<or> df_room p3 = 0")
      case True
      then have "n = None" "df_ok p4" "df_bad p4" "df_rest p4 = df_rest p3"
        using df_mk_node_outcome(2) [OF ok(3) True, of "DN_CMP (dtok_field f) cmp (V_PORT 0)"] mk by auto
      with cmp skips(3) show ?thesis unfolding run by (auto intro: df_reads_fail)
    next
      case False
      then have p4: "n = Some (DN_CMP (dtok_field f) (if dtok_type r = DTOK_EQ then CMP_EQ else CMP_NE) (V_PORT 0))"
          "df_ok p4" "\<not> df_bad p4" "df_rest p4 = df_rest p3" "df_room p4 = df_room p3 - 1" "0 < df_room p3" "\<not> df_bad p3"
        using df_mk_node_outcome(1) [OF ok(3), of "DN_CMP (dtok_field f) cmp (V_PORT 0)"] mk cmp_def by auto
      show ?thesis
      proof (cases "df_operand (dtok_field f) t")
        case (Inl msg)
        with cmp p4 skips(3) show ?thesis unfolding run by (auto intro: df_reads_fail)
      next
        case (Inr v)
        then have v: "value_of (field_type (dtok_field f)) t v" by (simp add: df_operand_iff)
        have "df_rest p = [f, r, t] @ df_rest p4"
          using df_comparison [OF assms, folded p1_def, folded p2_def, folded p3_def f_def, folded r_def t_def]
            cmp value_of_not_end [OF v] p4(4) by auto
        moreover have "df_primitive [f, r, t] (DN_CMP (dtok_field f) (if dtok_type r = DTOK_EQ then CMP_EQ else CMP_NE) v)"
          using cmp v by (auto intro: df_primitive.intros)
        moreover have "df_room p = df_room p4 + 1" "df_bad p \<longrightarrow> df_bad p4"
          using p4 by (simp_all add: p1_def p2_def p3_def)
        ultimately show ?thesis
          using p4 cmp Inr cmp_def unfolding run df_reads_def by auto
      qed
    qed
  qed (use skips ok in \<open>simp_all add: run df_reads_fail\<close>)
qed

lemma df_primitive_accepts:
  assumes "df_ok p" "\<not> df_bad p" "df_primitive ts m" "df_rest p = ts @ us" "df_node_count m \<le> df_room p"
  shows "\<exists>p'. df_parse_primitive p = Some (Some m, p') \<and> df_ok p' \<and> \<not> df_bad p' \<and> df_rest p' = us
      \<and> df_room p = df_room p' + df_node_count m"
proof -
  obtain f r t v where ts: "ts = [f, r, t]" "dtok_type f = DTOK_FIELD" "dtok_type r = DTOK_EQ \<or> dtok_type r = DTOK_NE"
    "value_of (field_type (dtok_field f)) t v" "m = DN_CMP (dtok_field f) (if dtok_type r = DTOK_EQ then CMP_EQ else CMP_NE) v"
    using assms(3) by (cases rule: df_primitive.cases) auto
  then have op: "df_operand (dtok_field f) t = Inr v" "dtok_type t \<noteq> DTOK_END" "dtok_type r \<noteq> DTOK_END"
    by (auto simp: df_operand_iff dest: value_of_not_end)
  let ?p3 = "df_skip (df_skip (df_skip p))"
  have "0 < df_room ?p3" "df_ok ?p3" "\<not> df_bad ?p3" using assms ts by auto
  from df_mk_node_outcome(1) [OF this(2,3,1)] obtain p4 where
    "df_mk_node (DN_CMP (dtok_field f) (if dtok_type r = DTOK_EQ then CMP_EQ else CMP_NE) (V_PORT 0)) ?p3 =
      (Some (DN_CMP (dtok_field f) (if dtok_type r = DTOK_EQ then CMP_EQ else CMP_NE) (V_PORT 0)), p4)"
    "df_ok p4" "\<not> df_bad p4" "df_rest p4 = df_rest ?p3" "df_room p4 = df_room ?p3 - 1" by blast
  with assms ts op show ?thesis
    unfolding df_parse_primitive_ok [OF assms(1)] Let_def by auto
qed

subsection \<open>The parser implements the grammar\<close>

interpretation df: recursive_descent df_syntax df_parse_not df_parse_and df_parse_expr df_parse_and_loop
  df_parse_expr_loop df_parse_primitive df_peek df_advance df_mk_node "df_pfail (''expected ')'' @ [CHR 0x27])"
  "\<lambda>n. n = None" df_ok df_rest "\<lambda>p. failed (dp_ctx p)" df_room df_node_count
proof
  fix p :: df_parser assume p: "df_ok p"
  show "\<exists>ts t. df_rest p = ts @ [t] \<and> is_end df_syntax t \<and> (\<forall>u \<in> set ts. \<not> is_end df_syntax u)"
    using p by (simp add: df_ok_def df_syntax_def)
  show "df_peek p = Some (hd (df_rest p))" by (rule df_peek_ok [OF p])
  show "\<exists>p'. df_advance p = Some (hd (df_rest p), p') \<and> df_ok p' \<and> df_bad p' = df_bad p \<and> df_room p' = df_room p
      \<and> df_rest p' = (if is_end df_syntax (hd (df_rest p)) then df_rest p else tl (df_rest p))"
    using p by (simp add: df_advance_ok df_syntax_def)
  show "\<exists>p'. df_mk_node m p = (Some m, p') \<and> df_ok p' \<and> \<not> df_bad p' \<and> df_rest p' = df_rest p \<and> df_room p' = df_room p - 1"
    if "\<not> df_bad p" "0 < df_room p" for m
    using df_mk_node_outcome(1) [OF p that] .
  show "\<exists>p'. df_mk_node m p = (None, p') \<and> df_ok p' \<and> df_bad p' \<and> df_rest p' = df_rest p"
    if "df_bad p \<or> df_room p = 0" for m
    using df_mk_node_outcome(2) [OF p that] .
  show "\<exists>n p' ts. df_parse_primitive p = Some (n, p') \<and> df_ok p' \<and> df_rest p = ts @ df_rest p' \<and> (df_bad p \<longrightarrow> df_bad p')"
    using df_primitive_reads [OF p] unfolding df_reads_def by blast
  show "\<exists>ts m. n = Some m \<and> primitive df_syntax ts m \<and> df_rest p = ts @ df_rest p' \<and> df_room p = df_room p' + df_node_count m"
    if "df_parse_primitive p = Some (n, p')" "\<not> df_bad p'" for n p'
    using df_primitive_reads [OF p] that unfolding df_reads_def by (auto simp: df_syntax_def)
  show "\<exists>p'. df_parse_primitive p = Some (Some m, p') \<and> df_ok p' \<and> \<not> df_bad p' \<and> df_rest p' = us
      \<and> df_room p = df_room p' + df_node_count m"
    if "\<not> df_bad p" "primitive df_syntax ts m" "df_rest p = ts @ us" "us \<noteq> []" "df_node_count m \<le> df_room p" for ts us m
    using df_primitive_accepts [OF p that(1) _ that(3,5)] that(2) by (simp add: df_syntax_def)
qed (unfold df_syntax_select df_parse_not.simps df_parse_and.simps df_parse_and_loop.simps df_parse_expr.simps
    df_parse_expr_loop.simps, auto elim!: df_primitive.cases)

end
