(* ===== verification/Dispfilter.thy ===== *)
theory Dispfilter
  imports Dispfilter_Parser
begin

text \<open>
  The evaluator and the public interface of \<open>src/src/c/dispfilter.c\<close>. \<open>None\<close> stands for following a
  \<open>NULL\<close> child, for reading a union member other than the one stored, and for reading beyond an array;
  none of them happens for a compiled filter. The reference \<open>df_holds\<close> compares with the set of values
  a field has in a packet.
\<close>

subsection \<open>Operations\<close>

record dispfilter_fields_t =
  fld_eth_src :: buf
  fld_eth_dst :: buf
  has_ip :: u8
  fld_ip_src :: buf
  fld_ip_dst :: buf
  has_ipv6 :: u8
  fld_ipv6_src :: buf
  fld_ipv6_dst :: buf
  has_tcp :: u8
  fld_tcp_src_port :: u16
  fld_tcp_dst_port :: u16
  has_udp :: u8
  fld_udp_src_port :: u16
  fld_udp_dst_port :: u16

definition bytes_eq :: "buf \<Rightarrow> buf \<Rightarrow> nat \<Rightarrow> bool option" where
  "bytes_eq a b n = (if n \<le> length a \<and> n \<le> length b then Some (take n a = take n b) else None)"

definition value_mac :: "df_value_t \<Rightarrow> buf option" where
  "value_mac v = (case v of V_MAC m \<Rightarrow> Some m | _ \<Rightarrow> None)"

definition value_ipv4 :: "df_value_t \<Rightarrow> buf option" where
  "value_ipv4 v = (case v of V_IPV4 a \<Rightarrow> Some a | _ \<Rightarrow> None)"

definition value_ipv6 :: "df_value_t \<Rightarrow> buf option" where
  "value_ipv6 v = (case v of V_IPV6 a \<Rightarrow> Some a | _ \<Rightarrow> None)"

definition value_port :: "df_value_t \<Rightarrow> u16 option" where
  "value_port v = (case v of V_PORT p \<Rightarrow> Some p | _ \<Rightarrow> None)"

text \<open>C's \<open>&&\<close> and \<open>||\<close> with a right operand that may be undefined.\<close>

definition and_then :: "bool \<Rightarrow> bool option \<Rightarrow> bool option" where
  "and_then a b = (if a then b else Some False)"

definition or_else :: "bool option \<Rightarrow> bool option \<Rightarrow> bool option" where
  "or_else a b = do { a \<leftarrow> a; if a then Some True else b }"

definition eval_cmp :: "df_field_t \<Rightarrow> df_cmp_t \<Rightarrow> df_value_t \<Rightarrow> dispfilter_fields_t \<Rightarrow> bool option" where
  "eval_cmp field cmp v f = do {
     eq \<leftarrow> (case field of
         FIELD_ETH_SRC \<Rightarrow> do { m \<leftarrow> value_mac v; bytes_eq (fld_eth_src f) m 6 }
       | FIELD_ETH_DST \<Rightarrow> do { m \<leftarrow> value_mac v; bytes_eq (fld_eth_dst f) m 6 }
       | FIELD_ETH_ADDR \<Rightarrow> do { m \<leftarrow> value_mac v; or_else (bytes_eq (fld_eth_src f) m 6) (bytes_eq (fld_eth_dst f) m 6) }
       | FIELD_IP_SRC \<Rightarrow> and_then (has_ip f \<noteq> 0) (do { a \<leftarrow> value_ipv4 v; bytes_eq (fld_ip_src f) a 4 })
       | FIELD_IP_DST \<Rightarrow> and_then (has_ip f \<noteq> 0) (do { a \<leftarrow> value_ipv4 v; bytes_eq (fld_ip_dst f) a 4 })
       | FIELD_IP_ADDR \<Rightarrow> and_then (has_ip f \<noteq> 0)
           (do { a \<leftarrow> value_ipv4 v; or_else (bytes_eq (fld_ip_src f) a 4) (bytes_eq (fld_ip_dst f) a 4) })
       | FIELD_IPV6_SRC \<Rightarrow> and_then (has_ipv6 f \<noteq> 0) (do { a \<leftarrow> value_ipv6 v; bytes_eq (fld_ipv6_src f) a 16 })
       | FIELD_IPV6_DST \<Rightarrow> and_then (has_ipv6 f \<noteq> 0) (do { a \<leftarrow> value_ipv6 v; bytes_eq (fld_ipv6_dst f) a 16 })
       | FIELD_IPV6_ADDR \<Rightarrow> and_then (has_ipv6 f \<noteq> 0)
           (do { a \<leftarrow> value_ipv6 v; or_else (bytes_eq (fld_ipv6_src f) a 16) (bytes_eq (fld_ipv6_dst f) a 16) })
       | FIELD_TCP_SRCPORT \<Rightarrow> and_then (has_tcp f \<noteq> 0) (do { p \<leftarrow> value_port v; Some (fld_tcp_src_port f = p) })
       | FIELD_TCP_DSTPORT \<Rightarrow> and_then (has_tcp f \<noteq> 0) (do { p \<leftarrow> value_port v; Some (fld_tcp_dst_port f = p) })
       | FIELD_TCP_PORT \<Rightarrow> and_then (has_tcp f \<noteq> 0)
           (do { p \<leftarrow> value_port v; Some (fld_tcp_src_port f = p \<or> fld_tcp_dst_port f = p) })
       | FIELD_UDP_SRCPORT \<Rightarrow> and_then (has_udp f \<noteq> 0) (do { p \<leftarrow> value_port v; Some (fld_udp_src_port f = p) })
       | FIELD_UDP_DSTPORT \<Rightarrow> and_then (has_udp f \<noteq> 0) (do { p \<leftarrow> value_port v; Some (fld_udp_dst_port f = p) })
       | FIELD_UDP_PORT \<Rightarrow> and_then (has_udp f \<noteq> 0)
           (do { p \<leftarrow> value_port v; Some (fld_udp_src_port f = p \<or> fld_udp_dst_port f = p) }));
     Some (if cmp = CMP_EQ then eq else \<not> eq)
   }"

fun eval_node :: "df_node_t \<Rightarrow> dispfilter_fields_t \<Rightarrow> bool option" where
  "eval_node (DN_AND l r) f = do {
     a \<leftarrow> (case l of None \<Rightarrow> None | Some n \<Rightarrow> eval_node n f);
     if a then (case r of None \<Rightarrow> None | Some n \<Rightarrow> eval_node n f) else Some False }"
| "eval_node (DN_OR l r) f = do {
     a \<leftarrow> (case l of None \<Rightarrow> None | Some n \<Rightarrow> eval_node n f);
     if a then Some True else (case r of None \<Rightarrow> None | Some n \<Rightarrow> eval_node n f) }"
| "eval_node (DN_NOT l) f = do {
     a \<leftarrow> (case l of None \<Rightarrow> None | Some n \<Rightarrow> eval_node n f);
     Some (\<not> a) }"
| "eval_node (DN_CMP field cmp v) f = eval_cmp field cmp v f"

record dispfilter_t =
  node_total :: nat
  root :: "df_node_t option"

abbreviation DF_FUEL :: nat where "DF_FUEL \<equiv> 1027"

text \<open>\<open>filter_mem\<close> and \<open>nodes_mem\<close> say whether the two \<open>malloc\<close> calls succeed.\<close>

definition out_of_memory :: "string option \<Rightarrow> int \<Rightarrow> string option" where
  "out_of_memory eb el =
     (if eb \<noteq> None \<and> el > 0 then Some (snprintf (nat el) ''out of memory compiling filter'') else eb)"

definition dispfilter_compile ::
  "bool \<Rightarrow> bool \<Rightarrow> string option \<Rightarrow> string option \<Rightarrow> int \<Rightarrow> (dispfilter_t option \<times> string option) option" where
  "dispfilter_compile filter_mem nodes_mem expr eb el =
     (if \<not> filter_mem then Some (None, out_of_memory eb el)
      else if \<not> nodes_mem then Some (None, out_of_memory eb el)
      else if expr = None \<or> expr = Some [] then Some (Some \<lparr>node_total = 0, root = None\<rparr>, eb)
      else do {
        ctx \<leftarrow> df_lex (init_ctx eb el) (the expr);
        if failed ctx then Some (None, err ctx)
        else do {
          (r, p) \<leftarrow> df_parse_expr DF_FUEL \<lparr>dp_ctx = ctx, dp_count = 0\<rparr>;
          ctx \<leftarrow> (if failed (dp_ctx p) then Some (dp_ctx p)
            else do {
              t \<leftarrow> df_peek p;
              Some (if dtok_type t \<noteq> DTOK_END
                    then cf_fail ''unexpected trailing tokens in filter expression'' (dp_ctx p)
                    else dp_ctx p)
            });
          if failed ctx then Some (None, err ctx)
          else Some (Some \<lparr>node_total = dp_count p, root = r\<rparr>, err ctx)
        }
      })"

definition dispfilter_matches :: "dispfilter_t option \<Rightarrow> dispfilter_fields_t \<Rightarrow> int option" where
  "dispfilter_matches filt flds =
     (case filt of
        None \<Rightarrow> Some 1
      | Some f \<Rightarrow>
          (case root f of
             None \<Rightarrow> Some 1
           | Some n \<Rightarrow> do { b \<leftarrow> eval_node n flds; Some (if b then 1 else 0) }))"

subsection \<open>Reference: the values of a field in a packet\<close>

text \<open>A field is absent, has one value, or (\<open>eth.addr\<close>, \<open>ip.addr\<close>, \<open>tcp.port\<close>, ...) two.\<close>

fun field_values :: "dispfilter_fields_t \<Rightarrow> df_field_t \<Rightarrow> df_value_t set" where
  "field_values f FIELD_ETH_SRC = {V_MAC (fld_eth_src f)}"
| "field_values f FIELD_ETH_DST = {V_MAC (fld_eth_dst f)}"
| "field_values f FIELD_ETH_ADDR = {V_MAC (fld_eth_src f), V_MAC (fld_eth_dst f)}"
| "field_values f FIELD_IP_SRC = (if has_ip f \<noteq> 0 then {V_IPV4 (fld_ip_src f)} else {})"
| "field_values f FIELD_IP_DST = (if has_ip f \<noteq> 0 then {V_IPV4 (fld_ip_dst f)} else {})"
| "field_values f FIELD_IP_ADDR = (if has_ip f \<noteq> 0 then {V_IPV4 (fld_ip_src f), V_IPV4 (fld_ip_dst f)} else {})"
| "field_values f FIELD_IPV6_SRC = (if has_ipv6 f \<noteq> 0 then {V_IPV6 (fld_ipv6_src f)} else {})"
| "field_values f FIELD_IPV6_DST = (if has_ipv6 f \<noteq> 0 then {V_IPV6 (fld_ipv6_dst f)} else {})"
| "field_values f FIELD_IPV6_ADDR = (if has_ipv6 f \<noteq> 0 then {V_IPV6 (fld_ipv6_src f), V_IPV6 (fld_ipv6_dst f)} else {})"
| "field_values f FIELD_TCP_SRCPORT = (if has_tcp f \<noteq> 0 then {V_PORT (fld_tcp_src_port f)} else {})"
| "field_values f FIELD_TCP_DSTPORT = (if has_tcp f \<noteq> 0 then {V_PORT (fld_tcp_dst_port f)} else {})"
| "field_values f FIELD_TCP_PORT = (if has_tcp f \<noteq> 0 then {V_PORT (fld_tcp_src_port f), V_PORT (fld_tcp_dst_port f)} else {})"
| "field_values f FIELD_UDP_SRCPORT = (if has_udp f \<noteq> 0 then {V_PORT (fld_udp_src_port f)} else {})"
| "field_values f FIELD_UDP_DSTPORT = (if has_udp f \<noteq> 0 then {V_PORT (fld_udp_dst_port f)} else {})"
| "field_values f FIELD_UDP_PORT = (if has_udp f \<noteq> 0 then {V_PORT (fld_udp_src_port f), V_PORT (fld_udp_dst_port f)} else {})"

fun df_holds :: "dispfilter_fields_t \<Rightarrow> df_node_t \<Rightarrow> bool" where
  "df_holds f (DN_AND (Some l) (Some r)) \<longleftrightarrow> df_holds f l \<and> df_holds f r"
| "df_holds f (DN_OR (Some l) (Some r)) \<longleftrightarrow> df_holds f l \<or> df_holds f r"
| "df_holds f (DN_NOT (Some n)) \<longleftrightarrow> \<not> df_holds f n"
| "df_holds f (DN_CMP field CMP_EQ v) \<longleftrightarrow> v \<in> field_values f field"
| "df_holds f (DN_CMP field CMP_NE v) \<longleftrightarrow> v \<notin> field_values f field"
| "df_holds f _ \<longleftrightarrow> False"

text \<open>The sizes of the arrays, and trees whose values fit their fields.\<close>

definition fields_wf :: "dispfilter_fields_t \<Rightarrow> bool" where
  "fields_wf f \<longleftrightarrow> length (fld_eth_src f) = 6 \<and> length (fld_eth_dst f) = 6 \<and> length (fld_ip_src f) = 4
     \<and> length (fld_ip_dst f) = 4 \<and> length (fld_ipv6_src f) = 16 \<and> length (fld_ipv6_dst f) = 16"

fun value_wf :: "df_type \<Rightarrow> df_value_t \<Rightarrow> bool" where
  "value_wf T_MAC (V_MAC m) \<longleftrightarrow> length m = 6"
| "value_wf T_IPV4 (V_IPV4 a) \<longleftrightarrow> length a = 4"
| "value_wf T_IPV6 (V_IPV6 a) \<longleftrightarrow> length a = 16"
| "value_wf T_PORT (V_PORT _) \<longleftrightarrow> True"
| "value_wf _ _ \<longleftrightarrow> False"

fun df_node_wf :: "df_node_t \<Rightarrow> bool" where
  "df_node_wf (DN_AND l r) \<longleftrightarrow> (case l of None \<Rightarrow> False | Some n \<Rightarrow> df_node_wf n) \<and> (case r of None \<Rightarrow> False | Some n \<Rightarrow> df_node_wf n)"
| "df_node_wf (DN_OR l r) \<longleftrightarrow> (case l of None \<Rightarrow> False | Some n \<Rightarrow> df_node_wf n) \<and> (case r of None \<Rightarrow> False | Some n \<Rightarrow> df_node_wf n)"
| "df_node_wf (DN_NOT l) \<longleftrightarrow> (case l of None \<Rightarrow> False | Some n \<Rightarrow> df_node_wf n)"
| "df_node_wf (DN_CMP field _ v) \<longleftrightarrow> value_wf (field_type field) v"

subsection \<open>The evaluator\<close>

lemma bytes_eq_whole: "length a = n \<Longrightarrow> length b = n \<Longrightarrow> bytes_eq a b n = Some (a = b)"
  by (simp add: bytes_eq_def)

lemma eval_cmp_holds:
  assumes "fields_wf f" "value_wf (field_type field) v"
  shows "eval_cmp field cmp v f = Some (df_holds f (DN_CMP field cmp v))"
  using assms
  by (cases cmp; cases field; cases v)
    (auto simp: eval_cmp_def fields_wf_def value_mac_def value_ipv4_def value_ipv6_def value_port_def
      and_then_def or_else_def bytes_eq_whole)

lemma eval_node_holds:
  "fields_wf f \<Longrightarrow> df_node_wf n \<Longrightarrow> eval_node n f = Some (df_holds f n)"
  by (induction n) (auto simp: eval_cmp_holds split: option.splits)

subsection \<open>Sentences and their trees\<close>

definition df_token_wf :: "df_token_t \<Rightarrow> bool" where
  "df_token_wf t \<longleftrightarrow> dtok_type t \<noteq> DTOK_END \<and> length (dtok_ipv4 t) = 4 \<and> length (dtok_ipv6 t) = 16
     \<and> length (dtok_mac t) = 6"

lemma df_tok_text_wf: "df_tok_text w t \<Longrightarrow> df_token_wf t"
  by (induction rule: df_tok_text.induct)
    (auto simp: df_token_wf_def df_tok_def df_zero_tok_def df_word_tok_def df_number_tok_def df_ipv4_tok_def
      df_ipv6_tok_def df_mac_tok_def quad_text_def ipv6_text_length mac_text_length dest: df_keyword_shape)

lemma df_spells_wf: "spells df_tok_text s ts \<Longrightarrow> \<forall>t \<in> set ts. df_token_wf t"
  using spells_all [of df_tok_text s ts df_token_wf] df_tok_text_wf by blast

lemma df_primitive_wf: "df_primitive ts n \<Longrightarrow> \<forall>t \<in> set ts. df_token_wf t \<Longrightarrow> df_node_wf n"
  by (auto elim!: df_primitive.cases value_of.cases simp: df_token_wf_def)

lemma df_sentence_wf:
  "not_expr df_syntax ts n \<Longrightarrow> (\<forall>t \<in> set ts. df_token_wf t) \<longrightarrow> df_node_wf n"
  "and_expr df_syntax ts n \<Longrightarrow> (\<forall>t \<in> set ts. df_token_wf t) \<longrightarrow> df_node_wf n"
  "or_expr df_syntax ts n \<Longrightarrow> (\<forall>t \<in> set ts. df_token_wf t) \<longrightarrow> df_node_wf n"
  by (induction rule: not_expr_and_expr_or_expr.inducts)
    (auto simp: df_syntax_select dest: df_primitive_wf)

lemma df_sentence_nonempty:
  "not_expr df_syntax ts n \<Longrightarrow> ts \<noteq> []" "and_expr df_syntax ts n \<Longrightarrow> ts \<noteq> []" "or_expr df_syntax ts n \<Longrightarrow> ts \<noteq> []"
  by (induction rule: not_expr_and_expr_or_expr.inducts)
    (auto simp: df_syntax_select elim: df_primitive.cases)

subsection \<open>Compiling a token list\<close>

lemma df_compile_tokens:
  assumes lex: "df_lex (init_ctx eb el) s = Some c" "\<not> failed c" "toks c = ts @ [df_tok DTOK_END]" "pos c = 0"
    and s: "s \<noteq> []" and wf: "\<forall>t \<in> set ts. df_token_wf t" and len: "length ts < 256"
  obtains (reject) e where "dispfilter_compile True True (Some s) eb el = Some (None, e)"
      "\<And>n. \<not> (or_expr df_syntax ts n \<and> df_node_count n \<le> 256)"
  | (accept) n k e where "dispfilter_compile True True (Some s) eb el = Some (Some \<lparr>node_total = k, root = Some n\<rparr>, e)"
      "or_expr df_syntax ts n" "df_node_wf n" "df_node_count n \<le> 256"
      "\<And>m. or_expr df_syntax ts m \<Longrightarrow> df_node_count m \<le> 256 \<Longrightarrow> m = n"
proof -
  define p0 where "p0 = \<lparr>dp_ctx = c, dp_count = 0\<rparr>"
  have ok: "df_ok p0" "\<not> failed (dp_ctx p0)" "df_rest p0 = ts @ [df_tok DTOK_END]" "df_room p0 = 256"
    using lex wf by (auto simp: df_ok_def df_rest_def df_room_def p0_def df_tok_def df_token_wf_def)
  obtain r p' where p': "df_parse_expr DF_FUEL p0 = Some (r, p')" "df_ok p'"
    and iff: "\<And>m. \<not> df_bad p' \<and> is_end df_syntax (hd (df_rest p')) \<and> r = Some m
      \<longleftrightarrow> or_expr df_syntax ts m \<and> df_node_count m \<le> 256"
    and some: "\<not> df_bad p' \<Longrightarrow> \<exists>m. r = Some m"
    by (rule df.parse_iff [OF ok(1-3), of DF_FUEL]) (use ok len in auto)
  have run: "dispfilter_compile True True (Some s) eb el =
      (if df_bad p' \<or> \<not> is_end df_syntax (hd (df_rest p'))
       then Some (None, err (cf_fail ''unexpected trailing tokens in filter expression'' (dp_ctx p')))
       else Some (Some \<lparr>node_total = dp_count p', root = r\<rparr>, err (dp_ctx p')))"
    using s lex p' unfolding dispfilter_compile_def
    by (simp add: p0_def [symmetric] df_peek_ok df_syntax_select cf_fail_first)
  show thesis
  proof (cases "df_bad p' \<or> \<not> is_end df_syntax (hd (df_rest p'))")
    case True
    have "\<not> (or_expr df_syntax ts n \<and> df_node_count n \<le> 256)" for n using iff [of n] True by blast
    with run True show thesis by (intro reject) simp_all
  next
    case False
    then obtain m where m: "r = Some m" "or_expr df_syntax ts m" "df_node_count m \<le> 256" using some iff by blast
    have "df_node_wf m" using df_sentence_wf(3) [OF m(2)] wf by blast
    moreover have "m' = m" if "or_expr df_syntax ts m'" "df_node_count m' \<le> 256" for m'
      using iff [of m'] that m(1) by simp
    moreover have "dispfilter_compile True True (Some s) eb el
        = Some (Some \<lparr>node_total = dp_count p', root = Some m\<rparr>, err (dp_ctx p'))"
      using run False m(1) by simp
    ultimately show thesis using m(2,3) by (intro accept)
  qed
qed

lemma df_compile_outcome:
  assumes "s \<noteq> []"
  obtains (overflow) ts where "dispfilter_compile True True (Some s) eb el = None"
      "spells df_tok_text s ts" "length ts = 256"
  | (reject) e where "dispfilter_compile True True (Some s) eb el = Some (None, e)"
  | (accept) ts n k e where
      "dispfilter_compile True True (Some s) eb el = Some (Some \<lparr>node_total = k, root = Some n\<rparr>, e)"
      "spells df_tok_text s ts" "or_expr df_syntax ts n" "df_node_wf n" "df_node_count n \<le> 256"
proof (cases "df_lex (init_ctx eb el) s")
  case None
  then obtain ts where "spells df_tok_text s ts" "length ts = 256"
    using df_lexer.undefined_only_when_full [OF None] by (auto simp: init_ctx_def)
  with None assms show thesis by (intro overflow) (simp_all add: dispfilter_compile_def)
next
  case (Some c)
  show thesis
  proof (cases "failed c")
    case True
    with Some assms show thesis by (intro reject) (simp add: dispfilter_compile_def)
  next
    case False
    obtain ts where ts: "toks c = ts @ [df_tok DTOK_END]" "pos c = 0" "spells df_tok_text s ts" "length ts < 256"
      by (rule df_lexer.from_start [OF Some False])
    show thesis
      by (rule df_compile_tokens [OF Some False ts(1,2) assms df_spells_wf [OF ts(3)] ts(4)])
        ((erule reject), (erule accept [OF _ ts(3)], assumption+))
  qed
qed

text \<open>A single comparison, its three words separated by blanks.\<close>

lemma df_compile_comparison:
  assumes "list_all2 df_tok_text [w1, w2, w3] [t1, t2, t3]" "df_primitive [t1, t2, t3] n"
  obtains filt e where "dispfilter_compile True True (Some (spaced [w1, w2, w3])) eb el = Some (Some filt, e)"
    "\<forall>f. fields_wf f \<longrightarrow> dispfilter_matches (Some filt) f = Some (if df_holds f n then 1 else 0)"
proof -
  have len: "length [t1, t2, t3] < 256" by simp
  obtain c where c: "df_lex (init_ctx eb el) (spaced [w1, w2, w3]) = Some c" "\<not> failed c"
    "toks c = [t1, t2, t3] @ [df_tok DTOK_END]" "pos c = 0"
    by (rule df_lexer.spaced_from_start [OF assms(1) len])
  have s: "spaced [w1, w2, w3] \<noteq> []" by (simp add: spaced_def)
  have wf: "\<forall>t \<in> set [t1, t2, t3]. df_token_wf t" using assms(1) by (auto dest: df_tok_text_wf)
  have n: "or_expr df_syntax [t1, t2, t3] n"
    by (intro or_one and_one prim) (simp add: df_syntax_select assms(2))
  have "df_node_count n \<le> 256" using assms(2) by (auto elim!: df_primitive.cases)
  show thesis
  proof (rule df_compile_tokens [OF c s wf len])
    show thesis if "\<And>n. \<not> (or_expr df_syntax [t1, t2, t3] n \<and> df_node_count n \<le> 256)"
      using that [of n] n \<open>df_node_count n \<le> 256\<close> by simp
    fix n' k e
    assume c: "dispfilter_compile True True (Some (spaced [w1, w2, w3])) eb el
        = Some (Some \<lparr>node_total = k, root = Some n'\<rparr>, e)" and wf: "df_node_wf n'"
      and unique: "\<And>m. or_expr df_syntax [t1, t2, t3] m \<Longrightarrow> df_node_count m \<le> 256 \<Longrightarrow> m = n'"
    have "n = n'" using unique n \<open>df_node_count n \<le> 256\<close> by blast
    with wf show thesis by (intro that [OF c]) (simp add: dispfilter_matches_def eval_node_holds)
  qed
qed

text \<open>The tokens of \<open>ip.addr == w\<close> and its like, for a printed address \<open>w\<close>.\<close>

lemma df_field_text:
  "df_tok_text ''eth.addr'' (df_word_tok (DTOK_FIELD, FIELD_ETH_ADDR))"
  "df_tok_text ''ip.addr'' (df_word_tok (DTOK_FIELD, FIELD_IP_ADDR))"
  "df_tok_text ''ipv6.addr'' (df_word_tok (DTOK_FIELD, FIELD_IPV6_ADDR))"
  by (rule df_tok_text.keyword, simp add: DF_KEYWORDS_def)+

lemma quad_text_ip_addr_to_str:
  assumes "length a = 4" "ip_addr_to_str a = Some w"
  shows "quad_text w a"
proof -
  obtain a0 a1 a2 a3 where a: "a = [a0, a1, a2, a3]"
    using assms(1) by (auto simp: length_Suc_conv numeral_eq_Suc)
  then show ?thesis
    using assms(2) octet_text_fmt_u unfolding ip_addr_to_str_eq option.inject a quad_text_def by blast
qed

lemma df_cmp_primitive:
  "dtok_type t = DTOK_EQ \<Longrightarrow> value_of (field_type fld) v x \<Longrightarrow>
    df_primitive [df_word_tok (DTOK_FIELD, fld), t, v] (DN_CMP fld CMP_EQ x)"
  "dtok_type t = DTOK_NE \<Longrightarrow> value_of (field_type fld) v x \<Longrightarrow>
    df_primitive [df_word_tok (DTOK_FIELD, fld), t, v] (DN_CMP fld CMP_NE x)"
  using df_primitive.eq [of "df_word_tok (DTOK_FIELD, fld)" t v x]
    df_primitive.ne [of "df_word_tok (DTOK_FIELD, fld)" t v x]
  by (simp_all add: df_word_tok_def)

lemma literal_values:
  "value_of T_MAC (df_mac_tok m) (V_MAC m)" "value_of T_IPV4 (df_ipv4_tok a) (V_IPV4 a)"
  "value_of T_IPV6 (df_ipv6_tok b) (V_IPV6 b)"
  by (simp_all add: value_of.simps df_mac_tok_def df_ipv4_tok_def df_ipv6_tok_def)

subsection \<open>Properties\<close>

text \<open>
  C5: Whenever \<open>dispfilter_compile\<close> succeeds on a non-empty expression, the text spells a sentence of the
  grammar in \<open>dispfilter.h\<close>, and \<open>dispfilter_matches\<close> on the compiled filter returns, for the fields of
  any packet, 1 or 0 as the sentence holds of them: a comparison with \<open>==\<close> holds if the field has that
  value in the packet, one with \<open>!=\<close> if it has not. No \<open>NULL\<close> child or foreign union member is read.
\<close>

theorem dispfilter_matches_correct:
  assumes "dispfilter_compile fm nm (Some s) eb el = Some (Some filt, e)" "s \<noteq> []"
  shows "\<exists>ts n. spells df_tok_text s ts \<and> or_expr df_syntax ts n \<and> (\<forall>f. fields_wf f \<longrightarrow>
    dispfilter_matches (Some filt) f = Some (if df_holds f n then 1 else 0))"
proof -
  have "fm" "nm" using assms(1) by (auto simp: dispfilter_compile_def split: if_splits)
  with assms(1) have c: "dispfilter_compile True True (Some s) eb el = Some (Some filt, e)" by simp
  show ?thesis
  proof (rule df_compile_outcome [OF assms(2), of eb el])
    fix ts n k e'
    assume "dispfilter_compile True True (Some s) eb el = Some (Some \<lparr>node_total = k, root = Some n\<rparr>, e')"
      and n: "spells df_tok_text s ts" "or_expr df_syntax ts n" "df_node_wf n"
    with c have "filt = \<lparr>node_total = k, root = Some n\<rparr>" by simp
    then have "\<forall>f. fields_wf f \<longrightarrow> dispfilter_matches (Some filt) f = Some (if df_holds f n then 1 else 0)"
      using eval_node_holds n(3) by (simp add: dispfilter_matches_def)
    with n show ?thesis by blast
  qed (use c in auto)
qed

theorem dispfilter_matches_correct_witness:
  "\<exists>filt. dispfilter_compile True True (Some ''ip.src==10.0.0.1'') None 0 = Some (Some filt, None)
    \<and> (\<exists>ts n. spells df_tok_text ''ip.src==10.0.0.1'' ts \<and> or_expr df_syntax ts n \<and> (\<forall>f. fields_wf f \<longrightarrow>
      dispfilter_matches (Some filt) f = Some (if df_holds f n then 1 else 0)))"
proof -
  have "(case dispfilter_compile True True (Some ''ip.src==10.0.0.1'') None 0 of
      Some (Some _, None) \<Rightarrow> True | _ \<Rightarrow> False)"
    by code_simp
  then obtain filt where "dispfilter_compile True True (Some ''ip.src==10.0.0.1'') None 0 = Some (Some filt, None)"
    by (auto split: option.splits)
  from this dispfilter_matches_correct [OF this list.distinct(2)] show ?thesis by blast
qed

text \<open>
  C13: On a blank-separated spelling of fewer than 256 tokens, \<open>dispfilter_compile\<close> decides the grammar:
  it always returns, and it returns a filter with syntax tree \<open>n\<close> exactly if the tokens are a sentence with
  that tree and the tree fits the arena of 256 nodes; every other token list gives \<open>NULL\<close>.
\<close>

theorem dispfilter_compile_decides:
  assumes "list_all2 df_tok_text ws ts" "length ts < 256" "ws \<noteq> []"
  shows "\<exists>r e. dispfilter_compile True True (Some (spaced ws)) eb el = Some (r, e)
    \<and> (\<forall>n. (\<exists>filt. r = Some filt \<and> root filt = Some n) \<longleftrightarrow> or_expr df_syntax ts n \<and> df_node_count n \<le> 256)
    \<and> (r = None \<longleftrightarrow> (\<forall>n. or_expr df_syntax ts n \<longrightarrow> 256 < df_node_count n))"
proof -
  obtain c where c: "df_lex (init_ctx eb el) (spaced ws) = Some c" "\<not> failed c" "toks c = ts @ [df_tok DTOK_END]" "pos c = 0"
    by (rule df_lexer.spaced_from_start [OF assms(1,2)])
  have s: "spaced ws \<noteq> []" using assms(3) by (cases ws) (auto simp: spaced_def)
  have wf: "\<forall>t \<in> set ts. df_token_wf t"
    using assms(1) by (induction rule: list_all2_induct) (auto dest: df_tok_text_wf)
  show ?thesis
  proof (rule df_compile_tokens [OF c s wf assms(2)])
    fix e
    assume "dispfilter_compile True True (Some (spaced ws)) eb el = Some (None, e)"
      "\<And>n. \<not> (or_expr df_syntax ts n \<and> df_node_count n \<le> 256)"
    then show ?thesis by (auto simp: not_le)
  next
    fix n k e
    assume c: "dispfilter_compile True True (Some (spaced ws)) eb el = Some (Some \<lparr>node_total = k, root = Some n\<rparr>, e)"
      and n: "or_expr df_syntax ts n" "df_node_count n \<le> 256"
      and unique: "\<And>m. or_expr df_syntax ts m \<Longrightarrow> df_node_count m \<le> 256 \<Longrightarrow> m = n"
    have "n = m \<longleftrightarrow> or_expr df_syntax ts m \<and> df_node_count m \<le> 256" for m using n unique by blast
    with c n show ?thesis by (auto simp: not_le)
  qed
qed

theorem dispfilter_compile_decides_witness:
  "\<exists>filt e. dispfilter_compile True True (Some ''not ( eth.src == aa:bb:cc:dd:ee:ff ) '') None 0 = Some (Some filt, e)
    \<and> root filt = Some (DN_NOT (Some (DN_CMP FIELD_ETH_SRC CMP_EQ (V_MAC [0xAA, 0xBB, 0xCC, 0xDD, 0xEE, 0xFF]))))"
proof -
  let ?ws = "[''not'', ''('', ''eth.src'', ''=='', ''aa:bb:cc:dd:ee:ff'', '')'']"
  let ?ts = "[df_tok DTOK_NOT, df_tok DTOK_LPAREN, df_word_tok (DTOK_FIELD, FIELD_ETH_SRC), df_tok DTOK_EQ,
    df_mac_tok [0xAA, 0xBB, 0xCC, 0xDD, 0xEE, 0xFF], df_tok DTOK_RPAREN]"
  have "df_tok_text ''not'' (df_tok DTOK_NOT)"
    using df_tok_text.keyword [of "''not''" "(DTOK_NOT, FIELD_ETH_SRC)"]
    by (simp add: DF_KEYWORDS_def df_word_tok_def df_tok_def df_zero_tok_def)
  moreover have "df_tok_text ''eth.src'' (df_word_tok (DTOK_FIELD, FIELD_ETH_SRC))"
    by (rule df_tok_text.keyword) (simp add: DF_KEYWORDS_def)
  moreover have "parse_mac_word ''aa:bb:cc:dd:ee:ff'' = Some [0xAA, 0xBB, 0xCC, 0xDD, 0xEE, 0xFF]" by code_simp
  then have "df_tok_text ''aa:bb:cc:dd:ee:ff'' (df_mac_tok [0xAA, 0xBB, 0xCC, 0xDD, 0xEE, 0xFF])"
    by (intro df_tok_text.mac) (simp only: parse_mac_word_iff)
  ultimately have words: "list_all2 df_tok_text ?ws ?ts"
    by (simp add: df_tok_text.lparen df_tok_text.rparen df_tok_text.eq_eq)
  have length_words: "length ?ts < 256" by simp
  let ?n = "DN_CMP FIELD_ETH_SRC CMP_EQ (V_MAC [0xAA, 0xBB, 0xCC, 0xDD, 0xEE, 0xFF])"
  have "df_primitive [df_word_tok (DTOK_FIELD, FIELD_ETH_SRC), df_tok DTOK_EQ,
      df_mac_tok [0xAA, 0xBB, 0xCC, 0xDD, 0xEE, 0xFF]] ?n"
    using df_primitive.eq [of "df_word_tok (DTOK_FIELD, FIELD_ETH_SRC)" "df_tok DTOK_EQ"
        "df_mac_tok [0xAA, 0xBB, 0xCC, 0xDD, 0xEE, 0xFF]"]
    by (simp add: df_word_tok_def df_tok_def df_mac_tok_def value_of.simps)
  then have "or_expr df_syntax [df_word_tok (DTOK_FIELD, FIELD_ETH_SRC), df_tok DTOK_EQ,
      df_mac_tok [0xAA, 0xBB, 0xCC, 0xDD, 0xEE, 0xFF]] ?n"
    by (intro or_one and_one prim) (simp add: df_syntax_select)
  then have "not_expr df_syntax (df_tok DTOK_LPAREN # [df_word_tok (DTOK_FIELD, FIELD_ETH_SRC), df_tok DTOK_EQ,
      df_mac_tok [0xAA, 0xBB, 0xCC, 0xDD, 0xEE, 0xFF]] @ [df_tok DTOK_RPAREN]) ?n"
    by (intro paren) (simp_all add: df_syntax_select df_tok_def)
  then have "or_expr df_syntax ?ts (DN_NOT (Some ?n))"
    using neg [of df_syntax "df_tok DTOK_NOT"] by (intro or_one and_one) (simp add: df_syntax_select df_tok_def)
  then have sentence: "or_expr df_syntax ?ts (DN_NOT (Some ?n)) \<and> df_node_count (DN_NOT (Some ?n)) \<le> 256" by simp
  have "spaced ?ws = ''not ( eth.src == aa:bb:cc:dd:ee:ff ) ''" by (simp add: spaced_def)
  then obtain r e where r: "dispfilter_compile True True (Some ''not ( eth.src == aa:bb:cc:dd:ee:ff ) '') None 0 = Some (r, e)"
    "\<forall>n. (\<exists>filt. r = Some filt \<and> root filt = Some n) \<longleftrightarrow> or_expr df_syntax ?ts n \<and> df_node_count n \<le> 256"
    using dispfilter_compile_decides [OF words length_words list.distinct(2), of None 0] by force
  from r(2) sentence obtain filt where filt: "r = Some filt \<and> root filt = Some (DN_NOT (Some ?n))"
    by (elim allE [of _ "DN_NOT (Some ?n)"] iffE) (drule mp, assumption, erule exE)
  show ?thesis
    by (rule exI [of _ filt], rule exI [of _ e]) (use r(1) filt in simp)
qed

text \<open>
  C26: An address the analyzer prints can be pasted into a display filter: the text written by
  \<open>eth_mac_to_str\<close>, \<open>ip_addr_to_str\<close> or \<open>ipv6_addr_to_str\<close> compiles after \<open>eth.addr ==\<close>, \<open>ip.addr ==\<close> or
  \<open>ipv6.addr ==\<close>, and the filter matches exactly the packets with that address at either end.
\<close>

theorem printed_address_filters:
  assumes "length m = 6" "length a = 4" "length b = 16"
    and "eth_mac_to_str m = Some mac" "ip_addr_to_str a = Some ip" "ipv6_addr_to_str b = Some ipv6"
  shows "(\<exists>filt e. dispfilter_compile True True (Some (spaced [''eth.addr'', ''=='', mac])) eb el = Some (Some filt, e)
      \<and> (\<forall>f. fields_wf f \<longrightarrow> dispfilter_matches (Some filt) f
          = Some (if fld_eth_src f = m \<or> fld_eth_dst f = m then 1 else 0)))
    \<and> (\<exists>filt e. dispfilter_compile True True (Some (spaced [''ip.addr'', ''=='', ip])) eb el = Some (Some filt, e)
      \<and> (\<forall>f. fields_wf f \<longrightarrow> dispfilter_matches (Some filt) f
          = Some (if has_ip f \<noteq> 0 \<and> (fld_ip_src f = a \<or> fld_ip_dst f = a) then 1 else 0)))
    \<and> (\<exists>filt e. dispfilter_compile True True (Some (spaced [''ipv6.addr'', ''=='', ipv6])) eb el = Some (Some filt, e)
      \<and> (\<forall>f. fields_wf f \<longrightarrow> dispfilter_matches (Some filt) f
          = Some (if has_ipv6 f \<noteq> 0 \<and> (fld_ipv6_src f = b \<or> fld_ipv6_dst f = b) then 1 else 0)))"
proof -
  have words: "list_all2 df_tok_text [''eth.addr'', ''=='', mac]
      [df_word_tok (DTOK_FIELD, FIELD_ETH_ADDR), df_tok DTOK_EQ, df_mac_tok m]"
    "list_all2 df_tok_text [''ip.addr'', ''=='', ip]
      [df_word_tok (DTOK_FIELD, FIELD_IP_ADDR), df_tok DTOK_EQ, df_ipv4_tok a]"
    "list_all2 df_tok_text [''ipv6.addr'', ''=='', ipv6]
      [df_word_tok (DTOK_FIELD, FIELD_IPV6_ADDR), df_tok DTOK_EQ, df_ipv6_tok b]"
    by (simp_all add: df_field_text df_tok_text.eq_eq df_tok_text.mac df_tok_text.ipv4 df_tok_text.ipv6
        mac_text_mac_to_str [OF assms(1,4)] quad_text_ip_addr_to_str [OF assms(2,5)] ipv6_text_addr_to_str [OF assms(3,6)])
  have trees: "df_primitive [df_word_tok (DTOK_FIELD, FIELD_ETH_ADDR), df_tok DTOK_EQ, df_mac_tok m]
      (DN_CMP FIELD_ETH_ADDR CMP_EQ (V_MAC m))"
    "df_primitive [df_word_tok (DTOK_FIELD, FIELD_IP_ADDR), df_tok DTOK_EQ, df_ipv4_tok a]
      (DN_CMP FIELD_IP_ADDR CMP_EQ (V_IPV4 a))"
    "df_primitive [df_word_tok (DTOK_FIELD, FIELD_IPV6_ADDR), df_tok DTOK_EQ, df_ipv6_tok b]
      (DN_CMP FIELD_IPV6_ADDR CMP_EQ (V_IPV6 b))"
    by (intro df_cmp_primitive; simp add: literal_values df_tok_def)+
  show ?thesis
    by (intro conjI; rule df_compile_comparison [OF words(1) trees(1), of eb el]
        df_compile_comparison [OF words(2) trees(2), of eb el] df_compile_comparison [OF words(3) trees(3), of eb el];
        force)
qed

theorem printed_address_filters_witness:
  "\<exists>filt e. dispfilter_compile True True (Some ''ip.addr == 10.0.0.1 '') None 0 = Some (Some filt, e)
    \<and> (\<forall>f. fields_wf f \<longrightarrow> dispfilter_matches (Some filt) f
        = Some (if has_ip f \<noteq> 0 \<and> (fld_ip_src f = [10, 0, 0, 1] \<or> fld_ip_dst f = [10, 0, 0, 1]) then 1 else 0))"
proof -
  have "eth_mac_to_str [0, 0, 0, 0, 0, 0] = Some ''00:00:00:00:00:00''" by code_simp
  moreover have "ip_addr_to_str [10, 0, 0, 1] = Some ''10.0.0.1''" by code_simp
  moreover have "ipv6_addr_to_str (replicate 16 0) = Some ''0:0:0:0:0:0:0:0''" by code_simp
  moreover have "spaced [''ip.addr'', ''=='', ''10.0.0.1''] = ''ip.addr == 10.0.0.1 ''" by (simp add: spaced_def)
  ultimately show ?thesis
    using printed_address_filters [of "[0, 0, 0, 0, 0, 0]" "[10, 0, 0, 1]" "replicate 16 0"
        "''00:00:00:00:00:00''" "''10.0.0.1''" "''0:0:0:0:0:0:0:0''" None 0] by simp
qed



text \<open>
  C15: \<open>dispfilter_compile\<close> returns on every input and under every outcome of its two allocations; the one
  exception is an expression of exactly 256 tokens. No expression and the empty one give a filter that
  matches every packet, as does having no filter at all.
\<close>

theorem dispfilter_compile_outcome:
  "((\<exists>ts. dispfilter_compile fm nm expr eb el = None \<and> expr \<noteq> None \<and> spells df_tok_text (the expr) ts \<and> length ts = 256)
    \<or> (\<exists>e. dispfilter_compile fm nm expr eb el = Some (None, e) \<and> (fm \<and> nm \<longrightarrow> expr \<noteq> None \<and> expr \<noteq> Some []))
    \<or> (\<exists>filt e. dispfilter_compile fm nm expr eb el = Some (Some filt, e) \<and> fm \<and> nm
       \<and> (root filt = None \<longleftrightarrow> expr = None \<or> expr = Some [])
       \<and> (root filt = None \<longrightarrow> dispfilter_matches (Some filt) f = Some 1)))
   \<and> dispfilter_matches None f = Some 1"
proof -
  consider "\<not> (fm \<and> nm)" | "fm" "nm" "expr = None \<or> expr = Some []" | s where "fm" "nm" "expr = Some s" "s \<noteq> []"
    by (cases expr) auto
  then show ?thesis
  proof cases
    case 3
    show ?thesis by (rule df_compile_outcome [OF 3(4), of eb el]) (use 3 in \<open>auto simp: dispfilter_matches_def\<close>)
  qed (auto simp: dispfilter_compile_def dispfilter_matches_def)
qed

theorem dispfilter_compile_outcome_witness:
  "\<exists>filt e. dispfilter_compile True True (Some []) None 0 = Some (Some filt, e) \<and> (\<forall>f. dispfilter_matches (Some filt) f = Some 1)"
proof -
  have "dispfilter_compile True True (Some []) None 0 = Some (Some \<lparr>node_total = 0, root = None\<rparr>, None)"
    by (simp add: dispfilter_compile_def)
  with dispfilter_compile_outcome [of True True "Some []" None 0] show ?thesis by auto
qed

text \<open>
  C16: Compiled filters are well typed and do not go wrong. In the tree \<open>dispfilter_compile\<close> returns every
  inner node has its children and every comparison stores the member of the union that belongs to its
  field, with the size the evaluator reads; the tree fits the node array. On every packet whose fields
  have the declared sizes the evaluator therefore follows no null pointer, reads no other member of the
  union and nothing beyond an array.
\<close>

theorem dispfilter_compile_typed:
  assumes "dispfilter_compile fm nm expr eb el = Some (Some filt, e)" "root filt = Some n"
  shows "df_node_wf n \<and> df_node_count n \<le> DF_MAX_NODES \<and> (\<forall>f. fields_wf f \<longrightarrow> eval_node n f \<noteq> None)"
proof -
  consider "\<not> fm" | "fm" "\<not> nm" | "fm" "nm" "expr = None \<or> expr = Some []" | s where "fm" "nm" "expr = Some s" "s \<noteq> []"
    by (cases expr) auto
  then have "df_node_wf n \<and> df_node_count n \<le> 256"
  proof cases
    case 4
    show ?thesis by (rule df_compile_outcome [OF 4(4), of eb el]) (use 4 assms in auto)
  qed (use assms in \<open>auto simp: dispfilter_compile_def\<close>)
  then show ?thesis using eval_node_holds by simp
qed

theorem dispfilter_compile_typed_witness:
  "\<exists>filt n. dispfilter_compile True True (Some ''ip.src==10.0.0.1'') None 0 = Some (Some filt, None)
    \<and> root filt = Some n \<and> df_node_wf n \<and> df_node_count n \<le> DF_MAX_NODES \<and> (\<forall>f. fields_wf f \<longrightarrow> eval_node n f \<noteq> None)"
proof -
  have c: "dispfilter_compile True True (Some ''ip.src==10.0.0.1'') None 0
      = Some (Some \<lparr>node_total = 1, root = Some (DN_CMP FIELD_IP_SRC CMP_EQ (V_IPV4 [10, 0, 0, 1]))\<rparr>, None)"
    by code_simp
  from dispfilter_compile_typed [OF c] c show ?thesis by auto
qed

text \<open>
  The exception is real: an expression of 256 tokens, however it is spelled with blanks, makes
  \<open>df_lex\<close> store its end token one entry beyond the token array.
\<close>

theorem dispfilter_token_overflow:
  assumes "list_all2 df_tok_text ws ts" "length ts = 256"
  shows "dispfilter_compile True True (Some (spaced ws)) eb el = None"
proof -
  have "spaced ws \<noteq> []" using assms by (cases ws) (auto simp: spaced_def)
  then show ?thesis by (simp add: dispfilter_compile_def df_lexer.spaced_overflow [OF assms])
qed

theorem dispfilter_token_overflow_witness:
  "dispfilter_compile True True (Some (spaced (replicate 256 ''!''))) None 0 = None"
proof -
  have "list_all2 df_tok_text (replicate k ''!'') (replicate k (df_tok DTOK_NOT))" for k
    by (induction k) (simp_all add: df_tok_text.bang)
  from dispfilter_token_overflow [OF this length_replicate] show ?thesis .
qed

end
