(* ===== verification/Packets.thy ===== *)
theory Packets
  imports Eth_Parser Arp_Parser Ip_Parser Ipv6_Parser Tcp_Udp_Parser Icmp_Parser
begin

text \<open>
  The packet classes of \<open>src/src/cpp\<close> (\<open>packet.cpp\<close>, \<open>arp_packet.cpp\<close>, \<open>icmp_packet.cpp\<close>,
  \<open>ipv6_packet.cpp\<close>, \<open>tcp_packet.cpp\<close>, \<open>udp_packet.cpp\<close>). An object is a record of the members of the base
  class together with its dynamic class, on which the virtual functions dispatch. A function that
  writes to the output stream returns the text it appends; \<open>None\<close> is a read outside an address array.
\<close>

subsection \<open>Stream output\<close>

text \<open>\<open>os << std::setw(n) << std::setfill('0') << v\<close>\<close>

definition out_setw0 :: "nat \<Rightarrow> nat \<Rightarrow> string" where
  "out_setw0 n v = (let s = fmt_u v in replicate (n - length s) CHR ''0'' @ s)"

abbreviation out_u :: "'a :: len word \<Rightarrow> string" where
  "out_u w \<equiv> fmt_u (unat w)"

subsection \<open>Objects\<close>

datatype packet_class =
    Plain_Class
  | Arp_Class arp_header_t
  | Tcp_Class tcp_header_t
  | Udp_Class udp_header_t
  | Icmp_Class icmp_header_t
  | Ipv6_Class ipv6_header_t "tcp_header_t option" "udp_header_t option" "icmp_header_t option"

record packet =
  ts_seconds :: u32
  ts_microseconds :: u32
  capture_length :: u32
  pkt_eth :: eth_header_t
  pkt_ip :: "ip_header_t option"
  pkt_class :: packet_class

definition Packet :: "u32 \<Rightarrow> u32 \<Rightarrow> u32 \<Rightarrow> eth_header_t \<Rightarrow> ip_header_t option \<Rightarrow> packet" where
  "Packet sec usec len eth ip = \<lparr>ts_seconds = sec, ts_microseconds = usec, capture_length = len,
     pkt_eth = eth, pkt_ip = ip, pkt_class = Plain_Class\<rparr>"

definition ArpPacket :: "u32 \<Rightarrow> u32 \<Rightarrow> u32 \<Rightarrow> eth_header_t \<Rightarrow> arp_header_t \<Rightarrow> packet" where
  "ArpPacket sec usec len eth arp = (Packet sec usec len eth None)\<lparr>pkt_class := Arp_Class arp\<rparr>"

definition TCPPacket :: "u32 \<Rightarrow> u32 \<Rightarrow> u32 \<Rightarrow> eth_header_t \<Rightarrow> ip_header_t \<Rightarrow> tcp_header_t \<Rightarrow> packet" where
  "TCPPacket sec usec len eth ip tcp = (Packet sec usec len eth (Some ip))\<lparr>pkt_class := Tcp_Class tcp\<rparr>"

definition UDPPacket :: "u32 \<Rightarrow> u32 \<Rightarrow> u32 \<Rightarrow> eth_header_t \<Rightarrow> ip_header_t \<Rightarrow> udp_header_t \<Rightarrow> packet" where
  "UDPPacket sec usec len eth ip udp = (Packet sec usec len eth (Some ip))\<lparr>pkt_class := Udp_Class udp\<rparr>"

definition IcmpPacket :: "u32 \<Rightarrow> u32 \<Rightarrow> u32 \<Rightarrow> eth_header_t \<Rightarrow> ip_header_t \<Rightarrow> icmp_header_t \<Rightarrow> packet" where
  "IcmpPacket sec usec len eth ip icmp = (Packet sec usec len eth (Some ip))\<lparr>pkt_class := Icmp_Class icmp\<rparr>"

definition Ipv6Packet :: "u32 \<Rightarrow> u32 \<Rightarrow> u32 \<Rightarrow> eth_header_t \<Rightarrow> ipv6_header_t \<Rightarrow> tcp_header_t option \<Rightarrow>
    udp_header_t option \<Rightarrow> icmp_header_t option \<Rightarrow> packet" where
  "Ipv6Packet sec usec len eth ipv6 tcp udp icmp =
     (Packet sec usec len eth None)\<lparr>pkt_class := Ipv6_Class ipv6 tcp udp icmp\<rparr>"

subsection \<open>Names\<close>

definition ipv6_protocol_name :: "tcp_header_t option \<Rightarrow> udp_header_t option \<Rightarrow> icmp_header_t option \<Rightarrow> string" where
  "ipv6_protocol_name tcp udp icmp =
     (if tcp \<noteq> None then ''TCP'' else if udp \<noteq> None then ''UDP'' else if icmp \<noteq> None then ''ICMPv6'' else ''IPv6'')"

definition protocol_name :: "packet \<Rightarrow> string" where
  "protocol_name pkt =
     (case pkt_class pkt of
        Plain_Class \<Rightarrow> if pkt_ip pkt \<noteq> None then ''IP'' else ''ETH''
      | Arp_Class _ \<Rightarrow> ''ARP''
      | Tcp_Class _ \<Rightarrow> ''TCP''
      | Udp_Class _ \<Rightarrow> ''UDP''
      | Icmp_Class _ \<Rightarrow> ''ICMP''
      | Ipv6_Class _ tcp udp icmp \<Rightarrow> ipv6_protocol_name tcp udp icmp)"

definition icmp_type_name :: "u8 \<Rightarrow> bool \<Rightarrow> string option" where
  "icmp_type_name ty is_icmpv6 =
     (if is_icmpv6 then
        (if ty = ICMPV6_TYPE_DEST_UNREACHABLE then Some ''dest-unreachable''
         else if ty = ICMPV6_TYPE_PACKET_TOO_BIG then Some ''packet-too-big''
         else if ty = ICMPV6_TYPE_TIME_EXCEEDED then Some ''time-exceeded''
         else None)
      else if ty = ICMPV4_TYPE_DEST_UNREACHABLE then Some ''dest-unreachable''
      else if ty = ICMPV4_TYPE_TIME_EXCEEDED then Some ''time-exceeded''
      else None)"

definition next_header_name :: "u8 \<Rightarrow> string option" where
  "next_header_name nh =
     (if nh = 6 then Some ''TCP'' else if nh = 17 then Some ''UDP''
      else if nh = IP_PROTO_ICMPV6 then Some ''ICMPv6'' else None)"

subsection \<open>Summaries\<close>

definition Packet_print :: "packet \<Rightarrow> string option" where
  "Packet_print pkt = do {
     let eth = pkt_eth pkt;
     src_mac_str \<leftarrow> eth_mac_to_str (src_mac eth);
     dst_mac_str \<leftarrow> eth_mac_to_str (dst_mac eth);
     let os = out_u (ts_seconds pkt) @ ''.'' @ out_setw0 6 (unat (ts_microseconds pkt))
       @ '' len='' @ out_u (capture_length pkt) @ '' '' @ src_mac_str @ '' > '' @ dst_mac_str;
     let os = os @ (if has_vlan eth \<noteq> 0 then '' vlan='' @ out_u (ETH_VLAN_ID (vlan_tci eth)) else []);
     let os = os @ '' ['' @ protocol_name pkt @ '']'';
     case pkt_ip pkt of
       None \<Rightarrow> Some os
     | Some hdr \<Rightarrow> do {
         src_ip \<leftarrow> ip_addr_to_str (ip_src_addr hdr);
         dst_ip \<leftarrow> ip_addr_to_str (ip_dst_addr hdr);
         Some (os @ '' '' @ src_ip @ '' > '' @ dst_ip @ '' ttl='' @ out_u (ip_ttl hdr)
           @ (if ip_checksum_valid hdr = 0 then '' ip_csum=BAD'' else []))
       }
   }"

definition ArpPacket_print :: "arp_header_t \<Rightarrow> string option" where
  "ArpPacket_print arp = do {
     sender \<leftarrow> ip_addr_to_str (sender_ip arp);
     target \<leftarrow> ip_addr_to_str (target_ip arp);
     if opcode arp = ARP_OP_REQUEST then Some ('' who-has '' @ target @ '' tell '' @ sender)
     else if opcode arp = ARP_OP_REPLY then do {
       mac \<leftarrow> eth_mac_to_str (sender_mac arp);
       Some ('' '' @ sender @ '' is-at '' @ mac)
     } else Some ('' op='' @ out_u (opcode arp))
   }"

definition print_flags :: "u8 \<Rightarrow> string" where
  "print_flags flags =
     (if flags AND TCP_FLAG_SYN \<noteq> 0 then ''SYN'' else []) @
     (if flags AND TCP_FLAG_FIN \<noteq> 0 then ''FIN'' else []) @
     (if flags AND TCP_FLAG_PSH \<noteq> 0 then ''PSH'' else []) @
     (if flags AND TCP_FLAG_RST \<noteq> 0 then ''RST'' else []) @
     (if flags AND TCP_FLAG_URG \<noteq> 0 then ''URG'' else []) @
     (if flags AND TCP_FLAG_ACK \<noteq> 0 then ''ACK'' else [])"

definition print_tcp_summary :: "tcp_header_t \<Rightarrow> string" where
  "print_tcp_summary tcp =
     '' '' @ out_u (tcp_src_port tcp) @ '' > '' @ out_u (tcp_dst_port tcp) @ '' seq='' @ out_u (seq_num tcp)
     @ '' ack='' @ out_u (ack_num tcp) @ '' flags=['' @ print_flags (tcp_flags tcp) @ '']''
     @ (if tcp_checksum_valid tcp = 0 then '' tcp_csum=BAD'' else [])"

definition print_udp_summary :: "udp_header_t \<Rightarrow> bool \<Rightarrow> string" where
  "print_udp_summary udp checksum_mandatory =
     (let report_bad = (if checksum_mandatory then udp_checksum_valid udp = 0
        else checksum_present udp \<noteq> 0 \<and> udp_checksum_valid udp = 0) in
      '' '' @ out_u (udp_src_port udp) @ '' > '' @ out_u (udp_dst_port udp) @ '' len='' @ out_u (udp_length udp)
      @ (if report_bad then '' udp_csum=BAD'' else []))"

definition print_icmp_summary :: "icmp_header_t \<Rightarrow> bool \<Rightarrow> string" where
  "print_icmp_summary icmp is_icmpv6 =
     (if is_echo icmp \<noteq> 0 then
        (let is_request = (if is_icmpv6 then icmp_type icmp = ICMPV6_TYPE_ECHO_REQUEST
           else icmp_type icmp = ICMPV4_TYPE_ECHO_REQUEST) in
         '' '' @ (if is_request then ''echo-request'' else ''echo-reply'') @ '' id='' @ out_u (echo_id icmp)
         @ '' seq='' @ out_u (echo_seq icmp))
      else
        (case icmp_type_name (icmp_type icmp) is_icmpv6 of
           Some name \<Rightarrow> '' '' @ name @ '' code='' @ out_u (icmp_code icmp)
         | None \<Rightarrow> '' type='' @ out_u (icmp_type icmp) @ '' code='' @ out_u (icmp_code icmp)))
     @ (if icmp_checksum_valid icmp = 0 then '' icmp_csum=BAD'' else [])"

definition Ipv6Packet_print ::
  "ipv6_header_t \<Rightarrow> tcp_header_t option \<Rightarrow> udp_header_t option \<Rightarrow> icmp_header_t option \<Rightarrow> string option" where
  "Ipv6Packet_print ipv6 tcp udp icmp = do {
     src \<leftarrow> ipv6_addr_to_str (ipv6_src_addr ipv6);
     dst \<leftarrow> ipv6_addr_to_str (ipv6_dst_addr ipv6);
     let os = '' '' @ src @ '' > '' @ dst @ '' hop='' @ out_u (hop_limit ipv6);
     case tcp of Some h \<Rightarrow> Some (os @ print_tcp_summary h) | None \<Rightarrow>
     (case udp of Some h \<Rightarrow> Some (os @ print_udp_summary h True) | None \<Rightarrow>
     (case icmp of Some h \<Rightarrow> Some (os @ print_icmp_summary h True) | None \<Rightarrow>
     (case next_header_name (next_header ipv6) of
        Some name \<Rightarrow> Some (os @ '' next='' @ name)
      | None \<Rightarrow> Some (os @ '' next='' @ out_u (next_header ipv6)))))
   }"

text \<open>The virtual \<open>print\<close>: every override calls \<open>Packet::print\<close> first.\<close>

definition print_summary :: "packet \<Rightarrow> string option" where
  "print_summary pkt = do {
     base \<leftarrow> Packet_print pkt;
     rest \<leftarrow> (case pkt_class pkt of
         Plain_Class \<Rightarrow> Some []
       | Arp_Class arp \<Rightarrow> ArpPacket_print arp
       | Tcp_Class tcp \<Rightarrow> Some (print_tcp_summary tcp)
       | Udp_Class udp \<Rightarrow> Some (print_udp_summary udp False)
       | Icmp_Class icmp \<Rightarrow> Some (print_icmp_summary icmp False)
       | Ipv6_Class ipv6 tcp udp icmp \<Rightarrow> Ipv6Packet_print ipv6 tcp udp icmp);
     Some (base @ rest)
   }"

subsection \<open>Printing a well-formed object never reads outside its headers\<close>

fun class_wf :: "packet_class \<Rightarrow> bool" where
  "class_wf (Arp_Class arp) \<longleftrightarrow> arp_wf arp"
| "class_wf (Ipv6_Class ipv6 _ _ _) \<longleftrightarrow> length (ipv6_src_addr ipv6) = 16 \<and> length (ipv6_dst_addr ipv6) = 16"
| "class_wf _ \<longleftrightarrow> True"

definition packet_wf :: "packet \<Rightarrow> bool" where
  "packet_wf pkt \<longleftrightarrow> length (src_mac (pkt_eth pkt)) = 6 \<and> length (dst_mac (pkt_eth pkt)) = 6
     \<and> (case pkt_ip pkt of None \<Rightarrow> True | Some ip \<Rightarrow> length (ip_src_addr ip) = 4 \<and> length (ip_dst_addr ip) = 4)
     \<and> class_wf (pkt_class pkt)"

lemma to_str_defined:
  "length m = 6 \<Longrightarrow> \<exists>s. eth_mac_to_str m = Some s" "length a = 4 \<Longrightarrow> \<exists>s. ip_addr_to_str a = Some s"
  "length b = 16 \<Longrightarrow> \<exists>s. ipv6_addr_to_str b = Some s"
  by (auto simp: eth_mac_to_str_def ip_addr_to_str_def ipv6_addr_to_str_eq mem_simps)

lemma Packet_print_defined: "packet_wf pkt \<Longrightarrow> \<exists>s. Packet_print pkt = Some s"
  using to_str_defined(1) [of "src_mac (pkt_eth pkt)"] to_str_defined(1) [of "dst_mac (pkt_eth pkt)"]
    to_str_defined(2) [of "ip_src_addr (the (pkt_ip pkt))"] to_str_defined(2) [of "ip_dst_addr (the (pkt_ip pkt))"]
  by (auto simp: packet_wf_def Packet_print_def Let_def split: option.splits)

lemma ArpPacket_print_defined: "arp_wf arp \<Longrightarrow> \<exists>s. ArpPacket_print arp = Some s"
  using to_str_defined(1) [of "sender_mac arp"] to_str_defined(2) [of "sender_ip arp"] to_str_defined(2) [of "target_ip arp"]
  by (auto simp: arp_wf_def ArpPacket_print_def)

lemma Ipv6Packet_print_defined:
  "length (ipv6_src_addr ipv6) = 16 \<Longrightarrow> length (ipv6_dst_addr ipv6) = 16 \<Longrightarrow>
    \<exists>s. Ipv6Packet_print ipv6 tcp udp icmp = Some s"
  using to_str_defined(3) [of "ipv6_src_addr ipv6"] to_str_defined(3) [of "ipv6_dst_addr ipv6"]
  by (auto simp: Ipv6Packet_print_def Let_def split: option.splits)

lemma print_summary_defined:
  assumes "packet_wf pkt"
  shows "\<exists>s. print_summary pkt = Some s"
proof -
  have "\<exists>r. (case pkt_class pkt of Plain_Class \<Rightarrow> Some [] | Arp_Class arp \<Rightarrow> ArpPacket_print arp
      | Tcp_Class tcp \<Rightarrow> Some (print_tcp_summary tcp) | Udp_Class udp \<Rightarrow> Some (print_udp_summary udp False)
      | Icmp_Class icmp \<Rightarrow> Some (print_icmp_summary icmp False)
      | Ipv6_Class ipv6 tcp udp icmp \<Rightarrow> Ipv6Packet_print ipv6 tcp udp icmp) = Some r"
    using assms
    by (cases "pkt_class pkt") (simp_all add: packet_wf_def ArpPacket_print_defined Ipv6Packet_print_defined)
  with Packet_print_defined [OF assms] show ?thesis by (auto simp: print_summary_def)
qed

end
