(* ===== verification/Hex_Dump.thy ===== *)
theory Hex_Dump
  imports C_Text
begin

text \<open>
  \<open>hex_dump\<close> of \<open>src/src/cpp/packet_printer.cpp\<close>. The line buffer is its text up to the terminating NUL
  and the running position \<open>pos\<close>; \<open>None\<close> is a read outside the data, a write outside the line buffer, or
  a loop that never ends. The result is the text written to the stream.
\<close>

subsection \<open>Operations\<close>

definition fmt_04x :: "nat \<Rightarrow> string" where
  "fmt_04x n = (let s = fmt_x n in replicate (4 - length s) CHR ''0'' @ s)"

abbreviation LINE_SIZE :: nat where "LINE_SIZE \<equiv> 80"

text \<open>
  \<open>pos += snprintf(line + pos, sizeof(line) - pos, ...)\<close>: the position advances by the length of the
  whole output, also when it is cut. Past the end of the buffer the size would wrap to a huge number.
\<close>

definition line_printf :: "string \<times> nat \<Rightarrow> string \<Rightarrow> (string \<times> nat) option" where
  "line_printf lp s = (case lp of (line, pos) \<Rightarrow>
     if pos < LINE_SIZE then Some (take pos line @ snprintf (LINE_SIZE - pos) s, pos + length s)
     else if pos = LINE_SIZE then Some (line, pos + length s)
     else None)"

fun hex_cells :: "buf \<Rightarrow> u32 \<Rightarrow> u32 \<Rightarrow> nat list \<Rightarrow> string \<times> nat \<Rightarrow> (string \<times> nat) option" where
  "hex_cells data offset chunk [] lp = Some lp"
| "hex_cells data offset chunk (i # idx) lp = do {
     lp \<leftarrow> (if of_nat i < chunk then do {
              b \<leftarrow> rd data (unat (offset + of_nat i));
              line_printf lp (fmt_02x b)
            } else line_printf lp ''  '');
     lp \<leftarrow> (if i mod 2 = 1 then line_printf lp '' '' else Some lp);
     hex_cells data offset chunk idx lp
   }"

definition is_print :: "u8 \<Rightarrow> bool" where
  "is_print b \<longleftrightarrow> 32 \<le> b \<and> b \<le> 126"

definition ascii_char :: "u8 \<Rightarrow> char" where
  "ascii_char b = (if is_print b then char_of (unat b) else CHR ''.'')"

fun ascii_cells :: "buf \<Rightarrow> u32 \<Rightarrow> nat list \<Rightarrow> string option" where
  "ascii_cells data offset [] = Some []"
| "ascii_cells data offset (i # idx) = do {
     b \<leftarrow> rd data (unat (offset + of_nat i));
     rest \<leftarrow> ascii_cells data offset idx;
     Some (ascii_char b # rest)
   }"

partial_function (option) hex_dump_loop :: "buf \<Rightarrow> u32 \<Rightarrow> u32 \<Rightarrow> string option" where
  "hex_dump_loop data len offset =
     (if offset < len then do {
        let chunk = (if len - offset < 16 then len - offset else 16);
        lp \<leftarrow> line_printf ([], 0) (''  0x'' @ fmt_04x (unat offset) @ '':  '');
        lp \<leftarrow> hex_cells data offset chunk [0..<16] lp;
        ascii \<leftarrow> ascii_cells data offset [0..<unat chunk];
        rest \<leftarrow> hex_dump_loop data len (offset + 16);
        Some (fst lp @ '' '' @ ascii @ ''\<newline>'' @ rest)
      } else Some [])"

definition hex_dump :: "buf \<Rightarrow> u32 \<Rightarrow> string option" where
  "hex_dump data len = hex_dump_loop data len 0"

subsection \<open>Reference\<close>

definition dump_cell :: "buf \<Rightarrow> nat \<Rightarrow> string" where
  "dump_cell bs i = (if i < length bs then fmt_02x (bs ! i) else ''  '') @ (if odd i then '' '' else [])"

definition dump_line :: "nat \<Rightarrow> buf \<Rightarrow> string" where
  "dump_line off bs = ''  0x'' @ fmt_04x off @ '':  '' @ concat (map (dump_cell bs) [0..<16]) @ '' ''
     @ map ascii_char bs @ ''\<newline>''"

fun dump_text :: "nat \<Rightarrow> buf \<Rightarrow> string" where
  "dump_text off bs = (if bs = [] then [] else dump_line off (take 16 bs) @ dump_text (off + 16) (drop 16 bs))"

declare dump_text.simps [simp del]

abbreviation dump_cells :: "buf \<Rightarrow> string" where
  "dump_cells bs \<equiv> concat (map (dump_cell bs) [0..<16])"

subsection \<open>One line\<close>

text \<open>As long as the text fits, the buffer holds exactly what was printed.\<close>

lemma line_printf_fits:
  "pos = length line \<Longrightarrow> pos + length s < LINE_SIZE \<Longrightarrow> line_printf (line, pos) s = Some (line @ s, pos + length s)"
  by (simp add: line_printf_def snprintf_def)

lemma length_dump_cell: "length (dump_cell bs i) = (if odd i then 3 else 2)"
  by (simp add: dump_cell_def)

lemma hex_cells_spec:
  assumes "\<And>i. i \<in> set idx \<Longrightarrow> i < 16"
    and "unat offset + 16 \<le> 2 ^ 32" "unat offset + unat chunk \<le> length data" "unat chunk \<le> 16"
    and "length line + length (concat (map (dump_cell (take (unat chunk) (drop (unat offset) data))) idx)) < LINE_SIZE"
  shows "hex_cells data offset chunk idx (line, length line) =
    (let s = line @ concat (map (dump_cell (take (unat chunk) (drop (unat offset) data))) idx) in Some (s, length s))"
  using assms(1,5)
proof (induction idx arbitrary: line)
  case (Cons i idx)
  let ?bs = "take (unat chunk) (drop (unat offset) data)"
  have i: "i < 16" using Cons.prems(1) by simp
  have u: "unat (offset + of_nat i) = unat offset + i" if "i < unat chunk"
    using assms(2) i by (simp add: unat_word_ariths unat_of_nat)
  have lt: "(of_nat i :: u32) < chunk \<longleftrightarrow> i < unat chunk" using i by (simp add: word_less_nat_alt unat_of_nat)
  have len: "length ?bs = unat chunk" using assms(3) by simp
  have cell: "(do { lp \<leftarrow> (if of_nat i < chunk then do { b \<leftarrow> rd data (unat (offset + of_nat i));
              line_printf (line, length line) (fmt_02x b) } else line_printf (line, length line) ''  '');
      (if i mod 2 = 1 then line_printf lp '' '' else Some lp) })
    = Some (line @ dump_cell ?bs i, length (line @ dump_cell ?bs i))"
    using Cons.prems(2) assms(3) len u
    by (auto simp: lt dump_cell_def mem_simps line_printf_fits odd_iff_mod_2_eq_one)
  have "hex_cells data offset chunk (i # idx) (line, length line)
      = hex_cells data offset chunk idx (line @ dump_cell ?bs i, length (line @ dump_cell ?bs i))"
    using cell by (simp del: length_append flip: bind_assoc)
  with Cons.IH [of "line @ dump_cell ?bs i"] Cons.prems show ?case by (simp add: Let_def)
qed simp


lemma length_dump_cells: "length (dump_cells bs) = 40"
  by (simp add: length_concat length_dump_cell upt_rec comp_def)

lemma length_fmt_04x: "n < 2 ^ 32 \<Longrightarrow> length (fmt_04x n) \<le> 8"
  using length_fmt_x [of n 8] by (simp add: fmt_04x_def Let_def)

lemma ascii_cells_spec:
  assumes "\<And>i. i \<in> set idx \<Longrightarrow> unat offset + i < length data \<and> unat offset + i < 2 ^ 32"
  shows "ascii_cells data offset idx = Some (map (\<lambda>i. ascii_char (data ! (unat offset + i))) idx)"
  using assms
proof (induction idx)
  case (Cons i idx)
  have "unat offset + i < 2 ^ 32" using Cons.prems [of i] by simp
  then have "unat (offset + of_nat i) = unat offset + i" by (simp add: unat_word_ariths unat_of_nat)
  with Cons show ?case by (simp add: mem_simps)
qed simp

lemma map_nth_upt:
  "off + n \<le> length xs \<Longrightarrow> map (\<lambda>i. f (xs ! (off + i))) [0..<n] = map f (take n (drop off xs))"
  by (intro nth_equalityI) simp_all

lemma hex_dump_loop_step:
  assumes "offset < len" "buf_ok data len" "unat offset + 16 \<le> 2 ^ 32"
  shows "hex_dump_loop data len offset = do {
    rest \<leftarrow> hex_dump_loop data len (offset + 16);
    Some (dump_line (unat offset) (take 16 (drop (unat offset) (take (unat len) data))) @ rest) }"
proof -
  define chunk where "chunk = (if len - offset < 16 then len - offset else 16)"
  define head where "head = ''  0x'' @ fmt_04x (unat offset) @ '':  ''"
  have lt: "unat offset < unat len" "unat len \<le> length data"
    using assms by (simp_all add: word_less_nat_alt buf_ok_def)
  have chunk: "unat chunk = min 16 (unat len - unat offset)"
    using lt by (auto simp: chunk_def word_less_nat_alt unat_sub word_le_nat_alt)
  let ?bs = "take (unat chunk) (drop (unat offset) data)"
  have bs: "take 16 (drop (unat offset) (take (unat len) data)) = ?bs"
    by (simp only: chunk drop_take take_take)
  have head: "length head \<le> 15" using length_fmt_04x [of "unat offset"] unat_u32_bound [of offset] by (simp add: head_def)
  then have "line_printf ([], 0) head = Some (head, length head)"
    using line_printf_fits [of 0 "[]" head] by simp
  moreover have "hex_cells data offset chunk [0..<16] (head, length head)
      = Some (head @ dump_cells ?bs, length (head @ dump_cells ?bs))"
    using hex_cells_spec [of "[0..<16]" offset chunk data head] assms(3) lt chunk head length_dump_cells [of ?bs]
    by (simp add: Let_def del: upt_Suc)
  moreover have "ascii_cells data offset [0..<unat chunk] = Some (map ascii_char ?bs)"
    using lt chunk assms(3) by (subst ascii_cells_spec) (auto simp: map_nth_upt)
  ultimately show ?thesis
    using assms(1) unfolding bs
    by (subst hex_dump_loop.simps) (simp add: Let_def chunk_def [symmetric] head_def dump_line_def del: upt_Suc)
qed


subsection \<open>The loop\<close>

lemma hex_dump_loop_returns:
  assumes "buf_ok data len" "unat len \<le> 0xFFFFFFF0" "16 dvd unat offset"
  shows "hex_dump_loop data len offset = Some (dump_text (unat offset) (drop (unat offset) (take (unat len) data)))"
  using assms(3)
proof (induction "unat len - unat offset" arbitrary: offset rule: less_induct)
  case less
  have len: "length (take (unat len) data) = unat len" using assms(1) by (simp add: buf_ok_def)
  show ?case
  proof (cases "offset < len")
    case True
    then have lt: "unat offset < unat len" by (simp add: word_less_nat_alt)
    with assms(2) less.prems have le: "unat offset + 16 \<le> 0xFFFFFFF0" by (auto elim!: dvdE)
    then have next_off: "unat (offset + 16) = unat offset + 16" by (simp add: unat_word_ariths)
    have "hex_dump_loop data len (offset + 16)
        = Some (dump_text (unat offset + 16) (drop (unat offset + 16) (take (unat len) data)))"
      using less.hyps [of "offset + 16"] lt less.prems unfolding next_off by simp
    moreover have "drop (unat offset) (take (unat len) data) \<noteq> []" using lt len by simp
    ultimately show ?thesis
      using le by (subst dump_text.simps, subst hex_dump_loop_step [OF True assms(1)]) (simp_all add: add.commute)
  next
    case False
    then have "drop (unat offset) (take (unat len) data) = []" by (simp add: word_less_nat_alt)
    then show ?thesis using False by (subst hex_dump_loop.simps, subst dump_text.simps) simp
  qed
qed

text \<open>Beyond that, the offset wraps to 0 before it reaches the length.\<close>

lemma aligned_next:
  fixes offset :: u32
  assumes "16 dvd unat offset"
  shows "16 dvd unat (offset + 16)" "unat offset \<le> 0xFFFFFFF0"
proof -
  have "16 dvd (unat offset + 16) mod 4294967296" using assms by (intro dvd_mod) auto
  then show "16 dvd unat (offset + 16)" by (simp add: unat_word_ariths)
  show "unat offset \<le> 0xFFFFFFF0" using unat_u32_bound [of offset] assms by (auto elim!: dvdE)
qed

lemma hex_dump_loop_bounded:
  "hex_dump_loop data len offset = Some y \<Longrightarrow> \<not> (0xFFFFFFF0 < unat len \<and> 16 dvd unat offset)"
proof (erule hex_dump_loop.raw_induct [rotated], rule notI)
  fix loop data len offset y
  assume IH: "\<And>data len offset y. loop data len offset = Some y \<Longrightarrow> \<not> (0xFFFFFFF0 < unat len \<and> 16 dvd unat offset)"
    and body: "(if offset < len then do {
        let chunk = (if len - offset < 16 then len - offset else 16);
        lp \<leftarrow> line_printf ([], 0) (''  0x'' @ fmt_04x (unat offset) @ '':  '');
        lp \<leftarrow> hex_cells data offset chunk [0..<16] lp;
        ascii \<leftarrow> ascii_cells data offset [0..<unat chunk];
        rest \<leftarrow> loop data len (offset + 16);
        Some (fst lp @ '' '' @ ascii @ ''\<newline>'' @ rest)
      } else Some []) = Some y"
    and *: "0xFFFFFFF0 < unat len \<and> 16 dvd unat offset"
  then have "offset < len" using aligned_next(2) [of offset] by (simp add: word_less_nat_alt)
  then show False
    using IH [of data len "offset + 16"] body * aligned_next(1) [of offset]
    by (auto simp: Let_def split: bind_splits if_splits)
qed

lemma hex_dump_loop_diverges: "0xFFFFFFF0 < unat len \<Longrightarrow> 16 dvd unat offset \<Longrightarrow> hex_dump_loop data len offset = None"
  using hex_dump_loop_bounded by (cases "hex_dump_loop data len offset") auto

subsection \<open>The dump determines the bytes\<close>

lemma fmt_02x_inject: "fmt_02x a = fmt_02x b \<longleftrightarrow> a = b"
proof
  have hex: "m = n" if "hex_digit m = hex_digit n" "m < 16" "n < 16" for m n
    using arg_cong [OF that(1), of "of_char :: char \<Rightarrow> nat"] that(2,3) by (auto simp: hex_digit_def split: if_splits)
  assume "fmt_02x a = fmt_02x b"
  then have "unat a div 16 = unat b div 16" "unat a mod 16 = unat b mod 16"
    using hex unat_u8_bound [of a] unat_u8_bound [of b] by (auto simp: fmt_02x_def div_less_iff_less_mult)
  then have "unat a = unat b" by (metis div_mult_mod_eq)
  then show "a = b" by (simp add: word_unat_eq_iff)
qed simp

lemma of_char_Char_blank: "of_char CHR '' '' = (32 :: nat)"
  by simp

lemma fmt_02x_not_blank: "fmt_02x a \<noteq> ''  ''"
proof -
  have "of_char (hex_digit n) \<noteq> (32 :: nat)" if "n < 16" for n
    using that by (auto simp: hex_digit_def)
  then have "hex_digit n \<noteq> CHR '' ''" if "n < 16" for n using that by (metis of_char_Char_blank)
  then show ?thesis using unat_u8_bound [of a] by (simp add: fmt_02x_def div_less_iff_less_mult)
qed

lemma dump_cell_inject:
  "dump_cell a i = dump_cell b i \<longleftrightarrow> (i < length a \<longleftrightarrow> i < length b) \<and> (i < length a \<longrightarrow> a ! i = b ! i)"
  using fmt_02x_not_blank [of "a ! i"] fmt_02x_not_blank [of "b ! i"] by (auto simp: dump_cell_def fmt_02x_inject)

lemma concat_map_inject:
  "concat (map f xs) = concat (map g xs) \<Longrightarrow> (\<And>x. length (f x) = length (g x)) \<Longrightarrow> x \<in> set xs \<Longrightarrow> f x = g x"
  by (induction xs) (auto simp: append_eq_append_conv)

lemma dump_cells_inject:
  assumes "dump_cells a = dump_cells b" "length a \<le> 16" "length b \<le> 16"
  shows "a = b"
proof -
  have cell: "dump_cell a i = dump_cell b i" if "i < 16" for i
    by (rule concat_map_inject [OF assms(1)]) (use that in \<open>simp_all add: length_dump_cell\<close>)
  have "length a = length b"
  proof (rule ccontr)
    assume "length a \<noteq> length b"
    then consider "length a < length b" | "length b < length a" by linarith
    then show False
      using cell [of "length a"] cell [of "length b"] assms(2,3) by cases (auto simp: dump_cell_inject)
  qed
  then show ?thesis using cell assms(2) by (intro nth_equalityI) (auto simp: dump_cell_inject)
qed

lemma dump_text_inject: "dump_text off a = dump_text off b \<Longrightarrow> a = b"
proof (induction off a arbitrary: b rule: dump_text.induct)
  case (1 off a)
  have ne: "dump_text off c = [] \<longleftrightarrow> c = []" for c by (subst dump_text.simps) (simp add: dump_line_def)
  show ?case
  proof (cases "a = [] \<or> b = []")
    case True
    then show ?thesis using "1.prems" ne by metis
  next
    case False
    then have eq: "dump_line off (take 16 a) @ dump_text (off + 16) (drop 16 a)
        = dump_line off (take 16 b) @ dump_text (off + 16) (drop 16 b)"
      using "1.prems" by (simp add: dump_text.simps [of off])
    then have "dump_cells (take 16 a) = dump_cells (take 16 b)"
      by (simp add: dump_line_def append_eq_append_conv length_dump_cells del: upt_Suc)
    then have take: "take 16 a = take 16 b" by (rule dump_cells_inject) simp_all
    with eq have "drop 16 a = drop 16 b" using "1.IH" False by simp
    with take show ?thesis by (metis append_take_drop_id)
  qed
qed

subsection \<open>Properties\<close>

text \<open>
  C31: For a packet of at most \<open>0xFFFFFFF0\<close> bytes, \<open>hex_dump\<close> terminates, reads only the packet, never
  overruns its 80-byte line buffer, and writes the packet in rows of 16 bytes; for a longer one the
  32-bit offset wraps around and the loop never ends.
\<close>

theorem hex_dump_outcome:
  assumes "buf_ok data len"
  shows "hex_dump data len =
    (if unat len \<le> 0xFFFFFFF0 then Some (dump_text 0 (take (unat len) data)) else None)"
  using hex_dump_loop_returns [OF assms, of 0] hex_dump_loop_diverges [of len 0 data] by (simp add: hex_dump_def)

theorem hex_dump_outcome_witness:
  "hex_dump [0x48, 0x69, 0x0A] 3 = Some (''  0x0000:  4869 0a                                  Hi.\<newline>'')"
proof -
  have "buf_ok [0x48, 0x69, 0x0A] 3" by (simp add: buf_ok_def)
  moreover have "dump_text 0 [0x48, 0x69, 0x0A :: u8] = ''  0x0000:  4869 0a                                  Hi.\<newline>''"
    by code_simp
  ultimately show ?thesis using hex_dump_outcome [of "[0x48, 0x69, 0x0A]" 3] by simp
qed

text \<open>
  C30: The dump is lossless: two packets with the same dump have the same bytes.
\<close>

theorem hex_dump_lossless:
  assumes "buf_ok a m" "buf_ok b n" "hex_dump a m = Some s" "hex_dump b n = Some s"
  shows "take (unat m) a = take (unat n) b"
  using assms hex_dump_loop_returns [of a m 0] hex_dump_loop_returns [of b n 0]
    hex_dump_loop_diverges [of m 0 a] hex_dump_loop_diverges [of n 0 b]
    dump_text_inject [of 0 "take (unat m) a" "take (unat n) b"]
  by (cases "unat m \<le> 0xFFFFFFF0"; cases "unat n \<le> 0xFFFFFFF0") (simp_all add: hex_dump_def)

theorem hex_dump_lossless_witness:
  "\<exists>s. hex_dump [0x48, 0x69, 0x0A] 2 = Some s \<and> hex_dump [0x48, 0x69] 2 = Some s
    \<and> take 2 [0x48, 0x69, 0x0A :: u8] = take 2 [0x48, 0x69]"
proof -
  have ok: "buf_ok [0x48, 0x69, 0x0A] 2" "buf_ok [0x48, 0x69] 2" by (simp_all add: buf_ok_def)
  then have "hex_dump [0x48, 0x69, 0x0A] 2 = Some (dump_text 0 [0x48, 0x69])"
    "hex_dump [0x48, 0x69] 2 = Some (dump_text 0 [0x48, 0x69])"
    using hex_dump_loop_returns [of "[0x48, 0x69, 0x0A]" 2 0] hex_dump_loop_returns [of "[0x48, 0x69]" 2 0]
    by (simp_all add: hex_dump_def)
  with hex_dump_lossless [OF ok this] show ?thesis by simp
qed

end
