(* ===== verification/Packet_Printer.thy ===== *)
theory Packet_Printer
  imports Packets Hex_Dump Dispfilter Protocol_Stack
begin

text \<open>
  \<open>print_packet\<close> and \<open>packet_printer_callback\<close> of \<open>src/src/cpp/packet_printer.cpp\<close>. The result is the text
  written to the stream; \<open>None\<close> is undefined behaviour. The header structs the function declares without
  initialiser are arguments (\<open>locals\<close>), so that a result that depended on their contents would show.
  \<open>packet\<close> is the non-null frame the capture loop hands over.
\<close>

subsection \<open>Operations\<close>

record locals =
  l_eth :: eth_header_t
  l_arp :: arp_header_t
  l_ipv6 :: ipv6_header_t
  l_ip :: ip_header_t
  l_tcp :: tcp_header_t
  l_udp :: udp_header_t
  l_icmp :: icmp_header_t

text \<open>The arguments of \<open>print_packet\<close> that its lambdas capture.\<close>

record frame =
  fr_packet :: buf
  fr_length :: u32
  fr_sec :: u32
  fr_usec :: u32
  fr_number :: "64 word"
  fr_filter :: "dispfilter_t option"

definition zero_fields :: dispfilter_fields_t where
  "zero_fields = \<lparr>fld_eth_src = replicate 6 0, fld_eth_dst = replicate 6 0, has_ip = 0, fld_ip_src = replicate 4 0,
     fld_ip_dst = replicate 4 0, has_ipv6 = 0, fld_ipv6_src = replicate 16 0, fld_ipv6_dst = replicate 16 0,
     has_tcp = 0, fld_tcp_src_port = 0, fld_tcp_dst_port = 0, has_udp = 0, fld_udp_src_port = 0,
     fld_udp_dst_port = 0\<rparr>"

definition passes_filter :: "frame \<Rightarrow> dispfilter_fields_t \<Rightarrow> bool option" where
  "passes_filter fr flds =
     (if fr_filter fr = None then Some True
      else do { r \<leftarrow> dispfilter_matches (fr_filter fr) flds; Some (r \<noteq> 0) })"

definition finish_raw :: "frame \<Rightarrow> dispfilter_fields_t \<Rightarrow> string \<Rightarrow> string option" where
  "finish_raw fr flds message = do {
     pass \<leftarrow> passes_filter fr flds;
     if \<not> pass then Some []
     else do {
       dump \<leftarrow> hex_dump (fr_packet fr) (fr_length fr);
       Some (''[#'' @ out_u (fr_number fr) @ ''] '' @ message @ ''\<newline>'' @ dump)
     }
   }"

definition finish :: "frame \<Rightarrow> dispfilter_fields_t \<Rightarrow> packet \<Rightarrow> string option \<Rightarrow> string option" where
  "finish fr flds pkt suffix = do {
     pass \<leftarrow> passes_filter fr flds;
     if \<not> pass then Some []
     else do {
       summary \<leftarrow> print_summary pkt;
       dump \<leftarrow> hex_dump (fr_packet fr) (fr_length fr);
       Some (''[#'' @ out_u (fr_number fr) @ ''] '' @ summary
         @ (case suffix of None \<Rightarrow> [] | Some s \<Rightarrow> s) @ ''\<newline>'' @ dump)
     }
   }"

text \<open>The case of \<open>ETH_TYPE_ARP\<close>.\<close>

definition print_arp ::
  "locals \<Rightarrow> frame \<Rightarrow> dispfilter_fields_t \<Rightarrow> eth_header_t \<Rightarrow> buf option \<Rightarrow> u32 \<Rightarrow> string option" where
  "print_arp loc fr flds eth payload payload_len = do {
     (rc, arp) \<leftarrow> arp_parse payload payload_len (Some (l_arp loc));
     if rc = 0 then finish fr flds (ArpPacket (fr_sec fr) (fr_usec fr) (fr_length fr) eth (the arp)) None
     else finish fr flds (Packet (fr_sec fr) (fr_usec fr) (fr_length fr) eth None) (Some '' ARP (truncated)'')
   }"

text \<open>The case of \<open>ETH_TYPE_IPV6\<close>.\<close>

definition print_ipv6 ::
  "locals \<Rightarrow> frame \<Rightarrow> dispfilter_fields_t \<Rightarrow> eth_header_t \<Rightarrow> buf option \<Rightarrow> u32 \<Rightarrow> string option" where
  "print_ipv6 loc fr flds eth payload payload_len = do {
     (rc, hdr, pl, len) \<leftarrow> ipv6_parse payload payload_len (Some (l_ipv6 loc)) (Some None) (Some 0);
     let mk = Ipv6Packet (fr_sec fr) (fr_usec fr) (fr_length fr) eth;
     if rc = 0 then do {
       let ipv6 = the hdr;
       let pl = the pl;
       let len = the len;
       let flds = flds\<lparr>has_ipv6 := 1, fld_ipv6_src := ipv6_src_addr ipv6, fld_ipv6_dst := ipv6_dst_addr ipv6\<rparr>;
       if next_header ipv6 = 6 then do {
         (rc, tcp) \<leftarrow> without_payload tcp_parse pl len (Some (l_tcp loc));
         if rc = 0 then do {
           v \<leftarrow> tcp_verify_checksum_ipv6 pl len (Some (ipv6_src_addr ipv6)) (Some (ipv6_dst_addr ipv6));
           let tcp = (the tcp)\<lparr>tcp_checksum_valid := word_of_int v\<rparr>;
           finish fr (flds\<lparr>has_tcp := 1, fld_tcp_src_port := tcp_src_port tcp, fld_tcp_dst_port := tcp_dst_port tcp\<rparr>)
             (mk ipv6 (Some tcp) None None) None
         } else finish fr flds (mk ipv6 None None None) (Some '' TCP (truncated)'')
       } else if next_header ipv6 = 17 then do {
         (rc, udp) \<leftarrow> without_payload udp_parse pl len (Some (l_udp loc));
         if rc = 0 then do {
           v \<leftarrow> udp_verify_checksum_ipv6 pl len (Some (ipv6_src_addr ipv6)) (Some (ipv6_dst_addr ipv6));
           let udp = (the udp)\<lparr>udp_checksum_valid := word_of_int v\<rparr>;
           finish fr (flds\<lparr>has_udp := 1, fld_udp_src_port := udp_src_port udp, fld_udp_dst_port := udp_dst_port udp\<rparr>)
             (mk ipv6 None (Some udp) None) None
         } else finish fr flds (mk ipv6 None None None) (Some '' UDP (truncated)'')
       } else if next_header ipv6 = IP_PROTO_ICMPV6 then do {
         (rc, icmp) \<leftarrow> icmp_parse pl len ICMP_FAMILY_V6 (Some (l_icmp loc));
         if rc = 0 then do {
           v \<leftarrow> icmpv6_verify_checksum pl len (Some (ipv6_src_addr ipv6)) (Some (ipv6_dst_addr ipv6));
           let icmp = (the icmp)\<lparr>icmp_checksum_valid := word_of_int v\<rparr>;
           finish fr flds (mk ipv6 None None (Some icmp)) None
         } else finish fr flds (mk ipv6 None None None) (Some '' ICMPv6 (truncated)'')
       } else finish fr flds (mk ipv6 None None None) None
     } else finish fr flds (Packet (fr_sec fr) (fr_usec fr) (fr_length fr) eth None) (Some '' IPv6 (truncated)'')
   }"

text \<open>The rest of the function: \<open>ETH_TYPE_IPV4\<close>.\<close>

definition print_ipv4 ::
  "locals \<Rightarrow> frame \<Rightarrow> dispfilter_fields_t \<Rightarrow> eth_header_t \<Rightarrow> buf option \<Rightarrow> u32 \<Rightarrow> string option" where
  "print_ipv4 loc fr flds eth payload payload_len = do {
     (rc, hdr, pl, len) \<leftarrow> ip_parse payload payload_len (Some (l_ip loc)) (Some None) (Some 0);
     if rc \<noteq> 0 then finish_raw fr flds ''(truncated IPv4 header)''
     else do {
       let ip = the hdr;
       let pl = the pl;
       let len = the len;
       let flds = flds\<lparr>has_ip := 1, fld_ip_src := ip_src_addr ip, fld_ip_dst := ip_dst_addr ip\<rparr>;
       let plain = Packet (fr_sec fr) (fr_usec fr) (fr_length fr) eth (Some ip);
       if ip_protocol ip = 6 then do {
         (rc, tcp) \<leftarrow> without_payload tcp_parse pl len (Some (l_tcp loc));
         if rc = 0 then do {
           v \<leftarrow> tcp_verify_checksum pl len (Some (ip_src_addr ip)) (Some (ip_dst_addr ip));
           let tcp = (the tcp)\<lparr>tcp_checksum_valid := word_of_int v\<rparr>;
           finish fr (flds\<lparr>has_tcp := 1, fld_tcp_src_port := tcp_src_port tcp, fld_tcp_dst_port := tcp_dst_port tcp\<rparr>)
             (TCPPacket (fr_sec fr) (fr_usec fr) (fr_length fr) eth ip tcp) None
         } else finish fr flds plain (Some '' TCP (truncated)'')
       } else if ip_protocol ip = 17 then do {
         (rc, udp) \<leftarrow> without_payload udp_parse pl len (Some (l_udp loc));
         if rc = 0 then do {
           v \<leftarrow> udp_verify_checksum pl len (Some (ip_src_addr ip)) (Some (ip_dst_addr ip));
           let udp = (the udp)\<lparr>udp_checksum_valid := word_of_int v\<rparr>;
           finish fr (flds\<lparr>has_udp := 1, fld_udp_src_port := udp_src_port udp, fld_udp_dst_port := udp_dst_port udp\<rparr>)
             (UDPPacket (fr_sec fr) (fr_usec fr) (fr_length fr) eth ip udp) None
         } else finish fr flds plain (Some '' UDP (truncated)'')
       } else if ip_protocol ip = 1 then do {
         (rc, icmp) \<leftarrow> icmp_parse pl len ICMP_FAMILY_V4 (Some (l_icmp loc));
         if rc = 0 then do {
           v \<leftarrow> icmpv4_verify_checksum pl len;
           let icmp = (the icmp)\<lparr>icmp_checksum_valid := word_of_int v\<rparr>;
           finish fr flds (IcmpPacket (fr_sec fr) (fr_usec fr) (fr_length fr) eth ip icmp) None
         } else finish fr flds plain (Some '' ICMP (truncated)'')
       } else finish fr flds plain (Some (snprintf 32 ('' proto='' @ out_u (ip_protocol ip))))
     }
   }"

definition print_packet :: "locals \<Rightarrow> frame \<Rightarrow> string option" where
  "print_packet loc fr = do {
     let flds = zero_fields;
     (rc, hdr, payload, payload_len) \<leftarrow> eth_parse (Some (fr_packet fr)) (fr_length fr) (Some (l_eth loc)) (Some None) (Some 0);
     if rc \<noteq> 0 then finish_raw fr flds ''(truncated Ethernet frame)''
     else do {
       let eth = the hdr;
       let payload = the payload;
       let payload_len = the payload_len;
       let flds = flds\<lparr>fld_eth_src := src_mac eth, fld_eth_dst := dst_mac eth\<rparr>;
       if ether_type eth = ETH_TYPE_ARP then print_arp loc fr flds eth payload payload_len
       else if ether_type eth = ETH_TYPE_IPV6 then print_ipv6 loc fr flds eth payload payload_len
       else if ether_type eth \<noteq> ETH_TYPE_IPV4 then
         finish fr flds (Packet (fr_sec fr) (fr_usec fr) (fr_length fr) eth None) None
       else print_ipv4 loc fr flds eth payload payload_len
     }
   }"

record PacketPrinterContext =
  ctx_os :: string
  ctx_count :: "64 word"
  ctx_filter :: "dispfilter_t option"

definition packet_printer_callback ::
  "locals \<Rightarrow> buf \<Rightarrow> u32 \<Rightarrow> u32 \<Rightarrow> u32 \<Rightarrow> PacketPrinterContext \<Rightarrow> PacketPrinterContext option" where
  "packet_printer_callback loc packet len sec usec ctx = do {
     let ctx = ctx\<lparr>ctx_count := ctx_count ctx + 1\<rparr>;
     s \<leftarrow> print_packet loc \<lparr>fr_packet = packet, fr_length = len, fr_sec = sec, fr_usec = usec,
       fr_number = ctx_count ctx, fr_filter = ctx_filter ctx\<rparr>;
     Some (ctx\<lparr>ctx_os := ctx_os ctx @ s\<rparr>)
   }"


subsection \<open>Reference: what a frame decodes to\<close>

text \<open>The text after the packet number: a fixed message, or the summary of an object and a suffix.\<close>

datatype decoded = Undecoded string | Decoded packet string

abbreviation verdict :: "bool \<Rightarrow> u8" where
  "verdict ok \<equiv> (if ok then 1 else 0)"

definition decode_ipv6 :: "frame \<Rightarrow> dispfilter_fields_t \<Rightarrow> eth_header_t \<Rightarrow> buf \<Rightarrow> u32 \<Rightarrow> dispfilter_fields_t \<times> decoded" where
  "decode_ipv6 fr flds eth d m =
     (if \<not> ipv6_accepts d m then
        (flds, Decoded (Packet (fr_sec fr) (fr_usec fr) (fr_length fr) eth None) '' IPv6 (truncated)'')
      else
        let h = ipv6_fields d; p = drop 40 d; k = m - 40;
          src = ipv6_src_addr h; dst = ipv6_dst_addr h;
          mk = Ipv6Packet (fr_sec fr) (fr_usec fr) (fr_length fr) eth h;
          flds = flds\<lparr>has_ipv6 := 1, fld_ipv6_src := src, fld_ipv6_dst := dst\<rparr> in
        if next_header h = 6 then
          if tcp_accepts p k then
            let t = (tcp_fields p)\<lparr>tcp_checksum_valid := verdict (ipv6_segment_ok p k src dst 6)\<rparr> in
            (flds\<lparr>has_tcp := 1, fld_tcp_src_port := tcp_src_port t, fld_tcp_dst_port := tcp_dst_port t\<rparr>,
             Decoded (mk (Some t) None None) [])
          else (flds, Decoded (mk None None None) '' TCP (truncated)'')
        else if next_header h = 17 then
          if 8 \<le> unat k then
            let u = (udp_fields p)\<lparr>udp_checksum_valid := verdict (ipv6_segment_ok p k src dst 17)\<rparr> in
            (flds\<lparr>has_udp := 1, fld_udp_src_port := udp_src_port u, fld_udp_dst_port := udp_dst_port u\<rparr>,
             Decoded (mk None (Some u) None) [])
          else (flds, Decoded (mk None None None) '' UDP (truncated)'')
        else if next_header h = 58 then
          if 8 \<le> unat k then
            (flds, Decoded (mk None None (Some ((icmp_fields ICMP_FAMILY_V6 p)
               \<lparr>icmp_checksum_valid := verdict (ipv6_segment_ok p k src dst 58)\<rparr>))) [])
          else (flds, Decoded (mk None None None) '' ICMPv6 (truncated)'')
        else (flds, Decoded (mk None None None) []))"

definition decode_ipv4 :: "frame \<Rightarrow> dispfilter_fields_t \<Rightarrow> eth_header_t \<Rightarrow> buf \<Rightarrow> u32 \<Rightarrow> dispfilter_fields_t \<times> decoded" where
  "decode_ipv4 fr flds eth d m =
     (if \<not> ip_accepts d m then (flds, Undecoded ''(truncated IPv4 header)'')
      else
        let h = ip_fields d; p = drop (ip_hlen d) d;
          k = ip_payload_len m (ucast (d ! 0 AND 0x0F) * 4) (be16 (d ! 2) (d ! 3));
          src = ip_src_addr h; dst = ip_dst_addr h;
          plain = Packet (fr_sec fr) (fr_usec fr) (fr_length fr) eth (Some h);
          flds = flds\<lparr>has_ip := 1, fld_ip_src := src, fld_ip_dst := dst\<rparr> in
        if ip_protocol h = 6 then
          if tcp_accepts p k then
            let t = (tcp_fields p)\<lparr>tcp_checksum_valid := verdict (ipv4_segment_ok p k src dst 6)\<rparr> in
            (flds\<lparr>has_tcp := 1, fld_tcp_src_port := tcp_src_port t, fld_tcp_dst_port := tcp_dst_port t\<rparr>,
             Decoded (TCPPacket (fr_sec fr) (fr_usec fr) (fr_length fr) eth h t) [])
          else (flds, Decoded plain '' TCP (truncated)'')
        else if ip_protocol h = 17 then
          if 8 \<le> unat k then
            let u = (udp_fields p)\<lparr>udp_checksum_valid :=
              verdict (udp_checksum (udp_fields p) = 0 \<or> ipv4_segment_ok p k src dst 17)\<rparr> in
            (flds\<lparr>has_udp := 1, fld_udp_src_port := udp_src_port u, fld_udp_dst_port := udp_dst_port u\<rparr>,
             Decoded (UDPPacket (fr_sec fr) (fr_usec fr) (fr_length fr) eth h u) [])
          else (flds, Decoded plain '' UDP (truncated)'')
        else if ip_protocol h = 1 then
          if 8 \<le> unat k then
            (flds, Decoded (IcmpPacket (fr_sec fr) (fr_usec fr) (fr_length fr) eth h ((icmp_fields ICMP_FAMILY_V4 p)
               \<lparr>icmp_checksum_valid := verdict (ones_sum (take (unat k) p) = 0xFFFF)\<rparr>)) [])
          else (flds, Decoded plain '' ICMP (truncated)'')
        else (flds, Decoded plain ('' proto='' @ out_u (ip_protocol h))))"

definition decode_arp :: "frame \<Rightarrow> dispfilter_fields_t \<Rightarrow> eth_header_t \<Rightarrow> buf \<Rightarrow> u32 \<Rightarrow> dispfilter_fields_t \<times> decoded" where
  "decode_arp fr flds eth d m =
     (flds, if 28 \<le> unat m \<and> arp_wf (arp_fields d)
       then Decoded (ArpPacket (fr_sec fr) (fr_usec fr) (fr_length fr) eth (arp_fields d)) []
       else Decoded (Packet (fr_sec fr) (fr_usec fr) (fr_length fr) eth None) '' ARP (truncated)'')"

definition eth_view :: "buf \<Rightarrow> u32 \<Rightarrow> (eth_header_t \<times> buf \<times> u32) option" where
  "eth_view d len =
     (if unat len < 14 then None
      else if be16 (d ! 12) (d ! 13) \<noteq> ETH_TYPE_VLAN then
        Some (\<lparr>dst_mac = take 6 d, src_mac = take 6 (drop 6 d), ether_type = be16 (d ! 12) (d ! 13),
               has_vlan = 0, vlan_tci = 0\<rparr>, drop 14 d, len - 14)
      else if unat len < 18 then None
      else
        Some (\<lparr>dst_mac = take 6 d, src_mac = take 6 (drop 6 d), ether_type = be16 (d ! 16) (d ! 17),
               has_vlan = 1, vlan_tci = be16 (d ! 14) (d ! 15)\<rparr>, drop 18 d, len - 18))"

definition decode :: "frame \<Rightarrow> dispfilter_fields_t \<times> decoded" where
  "decode fr =
     (case eth_view (fr_packet fr) (fr_length fr) of
        None \<Rightarrow> (zero_fields, Undecoded ''(truncated Ethernet frame)'')
      | Some (eth, d, m) \<Rightarrow>
          let flds = zero_fields\<lparr>fld_eth_src := src_mac eth, fld_eth_dst := dst_mac eth\<rparr> in
          if ether_type eth = ETH_TYPE_ARP then decode_arp fr flds eth d m
          else if ether_type eth = ETH_TYPE_IPV6 then decode_ipv6 fr flds eth d m
          else if ether_type eth = ETH_TYPE_IPV4 then decode_ipv4 fr flds eth d m
          else (flds, Decoded (Packet (fr_sec fr) (fr_usec fr) (fr_length fr) eth None) []))"

text \<open>The meaning of the filter and the text of a decoded frame.\<close>

definition filter_wf :: "dispfilter_t option \<Rightarrow> bool" where
  "filter_wf filt \<longleftrightarrow> (case filt of None \<Rightarrow> True | Some f \<Rightarrow> (case root f of None \<Rightarrow> True | Some n \<Rightarrow> df_node_wf n))"

definition filter_holds :: "dispfilter_t option \<Rightarrow> dispfilter_fields_t \<Rightarrow> bool" where
  "filter_holds filt flds \<longleftrightarrow> (case filt of None \<Rightarrow> True | Some f \<Rightarrow> (case root f of None \<Rightarrow> True | Some n \<Rightarrow> df_holds flds n))"

definition summary_text :: "decoded \<Rightarrow> string" where
  "summary_text dec = (case dec of Undecoded message \<Rightarrow> message | Decoded pkt suffix \<Rightarrow> the (print_summary pkt) @ suffix)"

definition rendered :: "frame \<Rightarrow> dispfilter_fields_t \<times> decoded \<Rightarrow> string" where
  "rendered fr r = (if filter_holds (fr_filter fr) (fst r)
     then ''[#'' @ out_u (fr_number fr) @ ''] '' @ summary_text (snd r) @ ''\<newline>''
       @ dump_text 0 (take (unat (fr_length fr)) (fr_packet fr))
     else [])"

subsection \<open>The printer implements the reference\<close>

definition frame_ok :: "frame \<Rightarrow> bool" where
  "frame_ok fr \<longleftrightarrow> buf_ok (fr_packet fr) (fr_length fr) \<and> unat (fr_length fr) \<le> 65536 \<and> filter_wf (fr_filter fr)"

lemma passes_filter_eq:
  "filter_wf (fr_filter fr) \<Longrightarrow> fields_wf flds \<Longrightarrow> passes_filter fr flds = Some (filter_holds (fr_filter fr) flds)"
  by (auto simp: passes_filter_def filter_wf_def filter_holds_def dispfilter_matches_def eval_node_holds
      split: option.splits)

lemma frame_dump:
  "frame_ok fr \<Longrightarrow> hex_dump (fr_packet fr) (fr_length fr) = Some (dump_text 0 (take (unat (fr_length fr)) (fr_packet fr)))"
  using hex_dump_loop_returns [of "fr_packet fr" "fr_length fr" 0] by (simp add: frame_ok_def hex_dump_def)

lemma finish_raw_eq:
  "frame_ok fr \<Longrightarrow> fields_wf flds \<Longrightarrow> finish_raw fr flds message = Some (rendered fr (flds, Undecoded message))"
  by (simp add: finish_raw_def passes_filter_eq frame_ok_def [of fr] frame_dump rendered_def summary_text_def)

lemma finish_eq:
  "frame_ok fr \<Longrightarrow> fields_wf flds \<Longrightarrow> packet_wf pkt \<Longrightarrow>
    finish fr flds pkt suffix = Some (rendered fr (flds, Decoded pkt (case suffix of None \<Rightarrow> [] | Some s \<Rightarrow> s)))"
  using print_summary_defined [of pkt]
  by (auto simp: finish_def passes_filter_eq frame_ok_def [of fr] frame_dump rendered_def summary_text_def)


text \<open>The wrapper with which the printer calls the transport parsers.\<close>

lemma transport_parse_eq:
  assumes "buf_ok p k"
  shows "without_payload tcp_parse (Some p) k (Some t)
      = Some (if tcp_accepts p k then (0, Some (tcp_fields p)) else (-1, Some t))"
    and "without_payload udp_parse (Some p) k (Some u)
      = Some (if 8 \<le> unat k then (0, Some (udp_fields p)) else (-1, Some u))"
  by (simp_all add: without_payload_def tcp_parse_eq [OF assms] udp_parse_eq [OF assms])

abbreviation mac_wf :: "eth_header_t \<Rightarrow> bool" where
  "mac_wf eth \<equiv> length (src_mac eth) = 6 \<and> length (dst_mac eth) = 6"

lemma packet_wf_simps:
  "packet_wf (Packet a b c eth ip) \<longleftrightarrow> mac_wf eth \<and>
    (case ip of None \<Rightarrow> True | Some ip \<Rightarrow> length (ip_src_addr ip) = 4 \<and> length (ip_dst_addr ip) = 4)"
  "packet_wf (ArpPacket a b c eth arp) \<longleftrightarrow> mac_wf eth \<and> arp_wf arp"
  "packet_wf (TCPPacket a b c eth h t) \<longleftrightarrow> mac_wf eth \<and> length (ip_src_addr h) = 4 \<and> length (ip_dst_addr h) = 4"
  "packet_wf (UDPPacket a b c eth h u) \<longleftrightarrow> mac_wf eth \<and> length (ip_src_addr h) = 4 \<and> length (ip_dst_addr h) = 4"
  "packet_wf (IcmpPacket a b c eth h i) \<longleftrightarrow> mac_wf eth \<and> length (ip_src_addr h) = 4 \<and> length (ip_dst_addr h) = 4"
  "packet_wf (Ipv6Packet a b c eth h6 ot ou oi) \<longleftrightarrow> mac_wf eth
    \<and> length (ipv6_src_addr h6) = 16 \<and> length (ipv6_dst_addr h6) = 16"
  by (simp_all add: packet_wf_def Packet_def ArpPacket_def TCPPacket_def UDPPacket_def IcmpPacket_def Ipv6Packet_def)

lemma print_arp_eq:
  assumes "frame_ok fr" "fields_wf flds" "mac_wf eth" "buf_ok d m"
  shows "print_arp loc fr flds eth (Some d) m = Some (rendered fr (decode_arp fr flds eth d m))"
  using assms by (simp add: print_arp_def arp_parse_eq decode_arp_def finish_eq packet_wf_simps)

lemma print_ipv6_eq:
  assumes fr: "frame_ok fr" "fields_wf flds" "mac_wf eth" and d: "buf_ok d m" "unat m \<le> 65536"
  shows "print_ipv6 loc fr flds eth (Some d) m = Some (rendered fr (decode_ipv6 fr flds eth d m))"
proof (cases "ipv6_accepts d m")
  case True
  have pay: "buf_ok (drop 40 d) (m - 40)" "unat (m - 40) \<le> 65536"
    using ipv6_payload_inside [OF True] d by (auto simp: buf_ok_def)
  have len: "40 \<le> length d" using True d(1) by (simp add: ipv6_accepts_def buf_ok_def)
  have addr: "length (ipv6_src_addr (ipv6_fields d)) = 16" "length (ipv6_dst_addr (ipv6_fields d)) = 16"
    using len by (simp_all add: ipv6_fields_def)
  note parse = ipv6_parse_eq [OF d(1)] transport_parse_eq [OF pay(1)] icmp_parse_eq [OF pay(1)]
  note verify = verify_checksum_ipv6_eq [OF pay] icmpv6_verify_checksum_eq [OF pay]
  have wf: "fields_wf (flds\<lparr>has_ipv6 := 1, fld_ipv6_src := ipv6_src_addr (ipv6_fields d),
      fld_ipv6_dst := ipv6_dst_addr (ipv6_fields d)\<rparr>)"
    using fr(2) addr by (simp add: fields_wf_def)
  have long: "tcp_accepts (drop 40 d) (m - 40) \<Longrightarrow> 20 \<le> unat (m - 40)" by (simp add: tcp_accepts_def)
  show ?thesis
    using True fr addr wf long
    by (simp add: print_ipv6_def decode_ipv6_def parse verify Let_def finish_eq packet_wf_simps fields_wf_def)
next
  case False
  then show ?thesis
    using fr d by (simp add: print_ipv6_def decode_ipv6_def ipv6_parse_eq Let_def finish_eq packet_wf_simps)
qed

lemma print_ipv4_eq:
  assumes fr: "frame_ok fr" "fields_wf flds" "mac_wf eth" and d: "buf_ok d m" "unat m \<le> 65536"
  shows "print_ipv4 loc fr flds eth (Some d) m = Some (rendered fr (decode_ipv4 fr flds eth d m))"
proof (cases "ip_accepts d m")
  case True
  define k where "k = ip_payload_len m (ucast (d ! 0 AND 0x0F) * 4) (be16 (d ! 2) (d ! 3))"
  define p where "p = drop (ip_hlen d) d"
  have pay: "buf_ok p k" "unat k \<le> 65536"
    using ip_payload_inside [OF True] d by (auto simp: buf_ok_def k_def p_def)
  have len: "20 \<le> length d" using True d(1) by (simp add: ip_accepts_def buf_ok_def)
  have addr: "length (ip_src_addr (ip_fields d)) = 4" "length (ip_dst_addr (ip_fields d)) = 4"
    using len by (simp_all add: ip_fields_def)
  note parse = ip_parse_eq [OF d(1)] transport_parse_eq [OF pay(1)] icmp_parse_eq [OF pay(1)]
  note verify = tcp_verify_checksum_eq [OF pay] udp_verify_checksum_eq [OF pay] icmpv4_verify_checksum_eq [OF pay]
  have long: "tcp_accepts p k \<Longrightarrow> 20 \<le> unat k" by (simp add: tcp_accepts_def)
  have suffix: "snprintf 32 ('' proto='' @ out_u b) = '' proto='' @ out_u b" for b :: u8
    using fmt_u_u8 [of b] by (intro snprintf_fits) simp
  show ?thesis
    using True fr addr long
    by (simp add: print_ipv4_def decode_ipv4_def parse verify Let_def finish_eq packet_wf_simps fields_wf_def suffix [simplified]
        flip: k_def p_def)
next
  case False
  then show ?thesis
    using fr d by (simp add: print_ipv4_def decode_ipv4_def ip_parse_eq Let_def finish_raw_eq)
qed

lemma eth_parse_view:
  assumes "buf_ok d len"
  shows "(case eth_view d len of
      None \<Rightarrow> \<exists>h'. eth_parse (Some d) len (Some h) (Some None) (Some 0) = Some (-1, Some h', Some None, Some 0)
    | Some (eth, d', m) \<Rightarrow>
        eth_parse (Some d) len (Some h) (Some None) (Some 0) = Some (0, Some eth, Some (Some d'), Some m)
        \<and> mac_wf eth \<and> buf_ok d' m \<and> unat m \<le> unat len)"
  using assms by (auto simp: eth_parse_eq [OF assms] eth_view_def buf_ok_def unat_sub word_le_nat_alt)

lemma print_packet_rendered:
  assumes "frame_ok fr"
  shows "print_packet loc fr = Some (rendered fr (decode fr))"
proof -
  let ?d = "fr_packet fr" and ?len = "fr_length fr"
  have ok: "buf_ok ?d ?len" "unat ?len \<le> 65536" using assms by (simp_all add: frame_ok_def)
  have zero: "fields_wf zero_fields" by (simp add: zero_fields_def fields_wf_def)
  note view = eth_parse_view [OF ok(1), of "l_eth loc"]
  show ?thesis
  proof (cases "eth_view ?d ?len")
    case None
    with view zero assms show ?thesis by (auto simp: print_packet_def decode_def finish_raw_eq)
  next
    case (Some v)
    obtain eth d m where v: "v = (eth, d, m)" by (cases v)
    have eth: "eth_parse (Some ?d) ?len (Some (l_eth loc)) (Some None) (Some 0) = Some (0, Some eth, Some (Some d), Some m)"
      and wf: "mac_wf eth" "buf_ok d m" "unat m \<le> 65536" using view Some v ok by auto
    have flds: "fields_wf (zero_fields\<lparr>fld_eth_src := src_mac eth, fld_eth_dst := dst_mac eth\<rparr>)"
      using zero wf by (simp add: fields_wf_def)
    show ?thesis
      using assms flds wf Some v
      by (simp add: print_packet_def decode_def eth Let_def print_arp_eq print_ipv6_eq print_ipv4_eq finish_eq packet_wf_simps)
  qed
qed


lemma compiled_filter_wf:
  assumes "dispfilter_compile fm nm expr eb el = Some (filt, e)"
  shows "filter_wf filt"
proof (cases "expr = None \<or> expr = Some [] \<or> \<not> fm \<or> \<not> nm")
  case True
  with assms show ?thesis by (auto simp: dispfilter_compile_def filter_wf_def split: if_splits)
next
  case False
  then obtain s where s: "fm" "nm" "expr = Some s" "s \<noteq> []" by auto
  show ?thesis
    by (rule df_compile_outcome [OF s(4), of eb el]) (use assms s in \<open>auto simp: filter_wf_def\<close>)
qed

subsection \<open>A run of the callback\<close>

fun callback_run :: "locals \<Rightarrow> (buf \<times> u32 \<times> u32 \<times> u32) list \<Rightarrow> PacketPrinterContext \<Rightarrow> PacketPrinterContext option" where
  "callback_run loc [] ctx = Some ctx"
| "callback_run loc ((packet, len, sec, usec) # fs) ctx = do {
     ctx \<leftarrow> packet_printer_callback loc packet len sec usec ctx;
     callback_run loc fs ctx }"

fun numbered :: "nat \<Rightarrow> dispfilter_t option \<Rightarrow> (buf \<times> u32 \<times> u32 \<times> u32) list \<Rightarrow> string" where
  "numbered n filt [] = []"
| "numbered n filt ((packet, len, sec, usec) # fs) =
     (let fr = \<lparr>fr_packet = packet, fr_length = len, fr_sec = sec, fr_usec = usec, fr_number = of_nat n,
        fr_filter = filt\<rparr> in rendered fr (decode fr)) @ numbered (Suc n) filt fs"

lemma callback_run_numbered:
  assumes "\<forall>(packet, len, sec, usec) \<in> set fs. buf_ok packet len \<and> unat len \<le> 65536"
    and "filter_wf (ctx_filter ctx)" "ctx_count ctx = of_nat n"
  shows "callback_run loc fs ctx = Some (ctx\<lparr>ctx_count := of_nat (n + length fs),
    ctx_os := ctx_os ctx @ numbered (Suc n) (ctx_filter ctx) fs\<rparr>)"
  using assms
proof (induction fs arbitrary: ctx n)
  case (Cons f fs)
  obtain packet len sec usec where f: "f = (packet, len, sec, usec)" by (cases f)
  let ?fr = "\<lparr>fr_packet = packet, fr_length = len, fr_sec = sec, fr_usec = usec, fr_number = of_nat (Suc n),
    fr_filter = ctx_filter ctx\<rparr>"
  let ?ctx = "ctx\<lparr>ctx_count := of_nat (Suc n), ctx_os := ctx_os ctx @ rendered ?fr (decode ?fr)\<rparr>"
  have "frame_ok ?fr" using Cons.prems f by (auto simp: frame_ok_def)
  then have "packet_printer_callback loc packet len sec usec ctx = Some ?ctx"
    using Cons.prems(3) print_packet_rendered [of ?fr loc] by (simp add: packet_printer_callback_def Let_def add.commute)
  with Cons.IH [of ?ctx "Suc n"] Cons.prems show ?case by (simp add: f Let_def)
qed simp

subsection \<open>Properties\<close>

text \<open>
  C7: On every frame of at most 65536 captured bytes, whatever they are and whatever the uninitialised
  header structs hold, \<open>print_packet\<close> has no undefined behaviour and writes exactly the rendering of what the
  frame decodes to: the packet number, the summary with the verified checksums, and the hex dump if the
  display filter holds of the decoded fields, and nothing at all if it does not.
\<close>

theorem print_packet_correct:
  assumes "buf_ok (fr_packet fr) (fr_length fr)" "unat (fr_length fr) \<le> 65536"
    and "fr_filter fr = None \<or> (\<exists>fm nm expr eb el e. dispfilter_compile fm nm expr eb el = Some (fr_filter fr, e))"
  shows "print_packet loc fr = Some (if filter_holds (fr_filter fr) (fst (decode fr))
    then ''[#'' @ out_u (fr_number fr) @ ''] '' @ summary_text (snd (decode fr)) @ ''\<newline>''
      @ dump_text 0 (take (unat (fr_length fr)) (fr_packet fr))
    else [])"
proof -
  have "filter_wf (fr_filter fr)" using assms(3) compiled_filter_wf by (auto simp: filter_wf_def)
  with assms(1,2) have "frame_ok fr" by (simp add: frame_ok_def)
  from print_packet_rendered [OF this, of loc] show ?thesis by (simp add: rendered_def)
qed

definition sample_locals :: locals where
  "sample_locals = \<lparr>l_eth = \<lparr>dst_mac = [], src_mac = [], ether_type = 7, has_vlan = 1, vlan_tci = 9\<rparr>,
     l_arp = arp_fields (replicate 28 0), l_ipv6 = ipv6_fields (replicate 40 0), l_ip = ip_fields (replicate 20 0),
     l_tcp = tcp_fields (replicate 20 0), l_udp = udp_fields (replicate 8 0),
     l_icmp = icmp_fields ICMP_FAMILY_V4 (replicate 8 0)\<rparr>"

definition sample_arp :: buf where
  "sample_arp = replicate 6 0xFF @ [2, 0, 0, 0, 0, 1] @ [8, 6] @ [0, 1, 8, 0, 6, 4, 0, 1]
     @ [2, 0, 0, 0, 0, 1] @ [10, 0, 0, 1] @ replicate 6 0 @ [10, 0, 0, 2]"

theorem print_packet_correct_witness:
  "print_packet sample_locals \<lparr>fr_packet = sample_arp, fr_length = 42, fr_sec = 5, fr_usec = 17, fr_number = 3, fr_filter = None\<rparr>
    = Some (''[#3] 5.000017 len=42 02:00:00:00:00:01 > ff:ff:ff:ff:ff:ff [ARP] who-has 10.0.0.2 tell 10.0.0.1\<newline>''
      @ dump_text 0 sample_arp)"
proof -
  let ?fr = "\<lparr>fr_packet = sample_arp, fr_length = 42, fr_sec = 5, fr_usec = 17, fr_number = 3, fr_filter = None\<rparr>"
  have "buf_ok sample_arp 42" by (simp add: buf_ok_def sample_arp_def)
  moreover have "summary_text (snd (decode ?fr))
      = ''5.000017 len=42 02:00:00:00:00:01 > ff:ff:ff:ff:ff:ff [ARP] who-has 10.0.0.2 tell 10.0.0.1''" by code_simp
  moreover have "out_u (3 :: 64 word) = ''3''" by code_simp
  moreover have "take 42 sample_arp = sample_arp" by (simp add: sample_arp_def)
  ultimately show ?thesis
    using print_packet_correct [of ?fr sample_locals] by (simp add: filter_holds_def)
qed

text \<open>
  The printer callback numbers the packets of a capture 1, 2, 3, ... in the order in which they
  arrive, also when the display filter hides some of them, and never fails on a frame of at most 65536
  bytes.
\<close>

theorem callback_numbers_packets:
  assumes "\<forall>(packet, len, sec, usec) \<in> set fs. buf_ok packet len \<and> unat len \<le> 65536"
    and "filt = None \<or> (\<exists>fm nm expr eb el e. dispfilter_compile fm nm expr eb el = Some (filt, e))"
  shows "callback_run loc fs \<lparr>ctx_os = [], ctx_count = 0, ctx_filter = filt\<rparr>
    = Some \<lparr>ctx_os = numbered 1 filt fs, ctx_count = of_nat (length fs), ctx_filter = filt\<rparr>"
proof -
  have "filter_wf filt" using assms(2) compiled_filter_wf by (auto simp: filter_wf_def)
  with callback_run_numbered [OF assms(1), of "\<lparr>ctx_os = [], ctx_count = 0, ctx_filter = filt\<rparr>" 0]
  show ?thesis by simp
qed


theorem callback_numbers_packets_witness:
  "callback_run sample_locals [([], 0, 1, 2), ([], 0, 3, 4)] \<lparr>ctx_os = [], ctx_count = 0, ctx_filter = None\<rparr>
    = Some \<lparr>ctx_os = ''[#1] (truncated Ethernet frame)\<newline>[#2] (truncated Ethernet frame)\<newline>'', ctx_count = 2, ctx_filter = None\<rparr>"
proof -
  have "numbered 1 None [([], 0, 1, 2), ([], 0, 3, 4)]
      = ''[#1] (truncated Ethernet frame)\<newline>[#2] (truncated Ethernet frame)\<newline>''" by code_simp
  with callback_numbers_packets [of "[([], 0, 1, 2), ([], 0, 3, 4)]" None sample_locals]
  show ?thesis by (simp add: buf_ok_def)
qed

end
