(* ===== verification/Packet_Queue.thy ===== *)
theory Packet_Queue
  imports Prelude
begin

text \<open>
  \<open>src/src/cpp/packet_queue.cpp\<close> and the two threads of \<open>main.cpp\<close> that share the queue: the capture thread,
  which pushes every captured frame and then closes the queue, and the main thread, which pops and
  prints until \<open>pop\<close> returns false. A section of code under the mutex is one step; so is each notification,
  which the code sends after releasing the mutex. A thread whose wait predicate is false sleeps until it
  is notified or wakes up spuriously, and then tests the predicate again.
\<close>

subsection \<open>The queue\<close>

record CapturedFrame =
  cf_data :: buf
  cf_ts_seconds :: u32
  cf_ts_microseconds :: u32

record PacketQueue =
  pq_queue :: "CapturedFrame list"
  pq_max_size :: nat
  pq_closed :: bool

text \<open>The frame \<open>push\<close> builds before it takes the lock.\<close>

definition captured_frame :: "buf \<Rightarrow> u32 \<Rightarrow> u32 \<Rightarrow> u32 \<Rightarrow> CapturedFrame option" where
  "captured_frame data len sec usec = do {
     d \<leftarrow> memcpy_from data 0 (unat len);
     Some \<lparr>cf_data = d, cf_ts_seconds = sec, cf_ts_microseconds = usec\<rparr>
   }"

definition push_ready :: "PacketQueue \<Rightarrow> bool" where
  "push_ready q \<longleftrightarrow> length (pq_queue q) < pq_max_size q \<or> pq_closed q"

text \<open>The rest of \<open>push\<close> under the lock; the second component says whether a notification follows.\<close>

definition push_locked :: "PacketQueue \<Rightarrow> CapturedFrame \<Rightarrow> PacketQueue \<times> bool" where
  "push_locked q frame =
     (if pq_closed q then (q, False) else (q\<lparr>pq_queue := pq_queue q @ [frame]\<rparr>, True))"

definition pop_ready :: "PacketQueue \<Rightarrow> bool" where
  "pop_ready q \<longleftrightarrow> pq_queue q \<noteq> [] \<or> pq_closed q"

definition pop_locked :: "PacketQueue \<Rightarrow> PacketQueue \<times> CapturedFrame option" where
  "pop_locked q =
     (case pq_queue q of [] \<Rightarrow> (q, None) | frame # rest \<Rightarrow> (q\<lparr>pq_queue := rest\<rparr>, Some frame))"

definition close_locked :: "PacketQueue \<Rightarrow> PacketQueue" where
  "close_locked q = q\<lparr>pq_closed := True\<rparr>"

subsection \<open>The two threads\<close>

text \<open>Where the capture thread is: between two calls, in \<open>push\<close>, in \<open>close\<close>, or finished.\<close>

datatype producer =
    P_Run
  | P_Enter CapturedFrame
  | P_Sleep CapturedFrame
  | P_Notify
  | P_Close_Empty
  | P_Close_Full
  | P_Done

datatype consumer =
    C_Enter
  | C_Sleep
  | C_Notify CapturedFrame
  | C_Print CapturedFrame
  | C_Done

text \<open>
  \<open>todo\<close> lists the frames the kernel will still deliver, \<open>seen\<close> those handed to the printer, and \<open>spurious\<close>
  is the number of spurious wakeups still to come.
\<close>

record pipeline =
  pq :: PacketQueue
  prod :: producer
  cons :: consumer
  todo :: "CapturedFrame list"
  seen :: "CapturedFrame list"
  spurious :: nat

fun wake_consumer :: "consumer \<Rightarrow> consumer" where
  "wake_consumer C_Sleep = C_Enter"
| "wake_consumer c = c"

fun wake_producer :: "producer \<Rightarrow> producer" where
  "wake_producer (P_Sleep f) = P_Enter f"
| "wake_producer p = p"

inductive pipe_step :: "pipeline \<Rightarrow> pipeline \<Rightarrow> bool" where
  call_push: "prod s = P_Run \<Longrightarrow> todo s = f # fs \<Longrightarrow> pipe_step s (s\<lparr>prod := P_Enter f, todo := fs\<rparr>)"
| push_wait: "prod s = P_Enter f \<Longrightarrow> \<not> push_ready (pq s) \<Longrightarrow> pipe_step s (s\<lparr>prod := P_Sleep f\<rparr>)"
| push_add: "prod s = P_Enter f \<Longrightarrow> push_ready (pq s) \<Longrightarrow> push_locked (pq s) f = (q, True) \<Longrightarrow>
    pipe_step s (s\<lparr>pq := q, prod := P_Notify\<rparr>)"
| push_drop: "prod s = P_Enter f \<Longrightarrow> push_ready (pq s) \<Longrightarrow> push_locked (pq s) f = (q, False) \<Longrightarrow>
    pipe_step s (s\<lparr>pq := q, prod := P_Run\<rparr>)"
| push_notify: "prod s = P_Notify \<Longrightarrow> pipe_step s (s\<lparr>prod := P_Run, cons := wake_consumer (cons s)\<rparr>)"
| close_set: "prod s = P_Run \<Longrightarrow> todo s = [] \<Longrightarrow>
    pipe_step s (s\<lparr>pq := close_locked (pq s), prod := P_Close_Empty\<rparr>)"
| close_notify_empty: "prod s = P_Close_Empty \<Longrightarrow>
    pipe_step s (s\<lparr>prod := P_Close_Full, cons := wake_consumer (cons s)\<rparr>)"
| close_notify_full: "prod s = P_Close_Full \<Longrightarrow> pipe_step s (s\<lparr>prod := P_Done\<rparr>)"
| pop_wait: "cons s = C_Enter \<Longrightarrow> \<not> pop_ready (pq s) \<Longrightarrow> pipe_step s (s\<lparr>cons := C_Sleep\<rparr>)"
| pop_take: "cons s = C_Enter \<Longrightarrow> pop_ready (pq s) \<Longrightarrow> pop_locked (pq s) = (q, Some f) \<Longrightarrow>
    pipe_step s (s\<lparr>pq := q, cons := C_Notify f\<rparr>)"
| pop_end: "cons s = C_Enter \<Longrightarrow> pop_ready (pq s) \<Longrightarrow> pop_locked (pq s) = (q, None) \<Longrightarrow>
    pipe_step s (s\<lparr>pq := q, cons := C_Done\<rparr>)"
| pop_notify: "cons s = C_Notify f \<Longrightarrow> pipe_step s (s\<lparr>cons := C_Print f, prod := wake_producer (prod s)\<rparr>)"
| print_frame: "cons s = C_Print f \<Longrightarrow> pipe_step s (s\<lparr>cons := C_Enter, seen := seen s @ [f]\<rparr>)"
| spurious_producer: "prod s = P_Sleep f \<Longrightarrow> spurious s = Suc n \<Longrightarrow>
    pipe_step s (s\<lparr>prod := P_Enter f, spurious := n\<rparr>)"
| spurious_consumer: "cons s = C_Sleep \<Longrightarrow> spurious s = Suc n \<Longrightarrow>
    pipe_step s (s\<lparr>cons := C_Enter, spurious := n\<rparr>)"

inductive_cases pipe_stepE: "pipe_step s t"

definition pipe_start :: "nat \<Rightarrow> nat \<Rightarrow> CapturedFrame list \<Rightarrow> pipeline" where
  "pipe_start max_size wakeups input = \<lparr>pq = \<lparr>pq_queue = [], pq_max_size = max_size, pq_closed = False\<rparr>,
     prod = P_Run, cons = C_Enter, todo = input, seen = [], spurious = wakeups\<rparr>"

inductive reachable :: "pipeline \<Rightarrow> pipeline \<Rightarrow> bool" for s where
  start: "reachable s s"
| step: "reachable s t \<Longrightarrow> pipe_step t u \<Longrightarrow> reachable s u"

subsection \<open>Invariant\<close>

fun pushing :: "producer \<Rightarrow> CapturedFrame list" where
  "pushing (P_Enter f) = [f]"
| "pushing (P_Sleep f) = [f]"
| "pushing _ = []"

fun popping :: "consumer \<Rightarrow> CapturedFrame list" where
  "popping (C_Notify f) = [f]"
| "popping (C_Print f) = [f]"
| "popping _ = []"

abbreviation closing :: "producer \<Rightarrow> bool" where
  "closing p \<equiv> p = P_Close_Empty \<or> p = P_Close_Full \<or> p = P_Done"

definition pipe_inv :: "nat \<Rightarrow> CapturedFrame list \<Rightarrow> pipeline \<Rightarrow> bool" where
  "pipe_inv max_size input s \<longleftrightarrow>
     pq_max_size (pq s) = max_size \<and> length (pq_queue (pq s)) \<le> max_size
     \<and> seen s @ popping (cons s) @ pq_queue (pq s) @ pushing (prod s) @ todo s = input
     \<and> (pq_closed (pq s) \<longleftrightarrow> closing (prod s)) \<and> (closing (prod s) \<longrightarrow> todo s = [])
     \<and> (cons s = C_Sleep \<longrightarrow> pq_queue (pq s) = [] \<and> \<not> pq_closed (pq s) \<or> prod s = P_Notify \<or> prod s = P_Close_Empty)
     \<and> (\<forall>f. prod s = P_Sleep f \<longrightarrow> length (pq_queue (pq s)) = max_size \<or> (\<exists>g. cons s = C_Notify g))
     \<and> (cons s = C_Done \<longrightarrow> pq_closed (pq s) \<and> pq_queue (pq s) = [])"

lemma pipe_inv_start: "pipe_inv max_size input (pipe_start max_size k input)"
  by (simp add: pipe_inv_def pipe_start_def)

lemma pipe_inv_step:
  assumes "pipe_inv max_size input s" "pipe_step s t"
  shows "pipe_inv max_size input t"
  using assms(2,1)
  by (cases; cases "cons s"; cases "prod s")
    (auto simp: pipe_inv_def push_ready_def push_locked_def pop_ready_def pop_locked_def close_locked_def
      split: if_splits list.splits)

lemma pipe_inv_reachable:
  "reachable (pipe_start max_size k input) s \<Longrightarrow> pipe_inv max_size input s"
  by (induction rule: reachable.induct) (auto intro: pipe_inv_start pipe_inv_step)

subsection \<open>Progress\<close>

definition finished :: "pipeline \<Rightarrow> bool" where
  "finished s \<longleftrightarrow> prod s = P_Done \<and> cons s = C_Done"

lemma producer_steps:
  assumes "prod s \<noteq> P_Done" "\<And>f. prod s \<noteq> P_Sleep f"
  shows "\<exists>t. pipe_step s t"
proof (cases "prod s")
  case P_Run
  then show ?thesis by (cases "todo s") (blast intro: pipe_step.intros)+
next
  case (P_Enter f)
  then show ?thesis
    by (cases "push_ready (pq s)"; cases "push_locked (pq s) f"; cases "snd (push_locked (pq s) f)")
      (fastforce intro: pipe_step.intros)+
qed (use assms in \<open>blast intro: pipe_step.intros\<close>)+

lemma consumer_steps:
  assumes "cons s \<noteq> C_Done" "cons s \<noteq> C_Sleep"
  shows "\<exists>t. pipe_step s t"
proof (cases "cons s")
  case C_Enter
  then show ?thesis
    by (cases "pop_ready (pq s)"; cases "pop_locked (pq s)"; cases "snd (pop_locked (pq s))")
      (fastforce intro: pipe_step.intros)+
qed (use assms in \<open>blast intro: pipe_step.intros\<close>)+

lemma never_stuck:
  assumes "pipe_inv max_size input s" "0 < max_size" "\<not> finished s"
  shows "\<exists>t. pipe_step s t"
proof (rule ccontr)
  assume stuck: "\<nexists>t. pipe_step s t"
  then have p: "prod s = P_Done \<or> (\<exists>f. prod s = P_Sleep f)" and c: "cons s = C_Done \<or> cons s = C_Sleep"
    using producer_steps consumer_steps by blast+
  from p c show False using assms by (auto simp: pipe_inv_def finished_def)
qed

text \<open>Every step uses up some of a finite potential.\<close>

fun producer_weight :: "producer \<Rightarrow> nat" where
  "producer_weight P_Run = 6"
| "producer_weight (P_Enter _) = 24"
| "producer_weight (P_Sleep _) = 23"
| "producer_weight P_Notify = 10"
| "producer_weight P_Close_Empty = 4"
| "producer_weight P_Close_Full = 2"
| "producer_weight P_Done = 0"

fun consumer_weight :: "consumer \<Rightarrow> nat" where
  "consumer_weight C_Enter = 1"
| "consumer_weight C_Sleep = 0"
| "consumer_weight (C_Notify _) = 7"
| "consumer_weight (C_Print _) = 5"
| "consumer_weight C_Done = 0"

definition potential :: "pipeline \<Rightarrow> nat" where
  "potential s = 20 * length (todo s) + 8 * length (pq_queue (pq s)) + producer_weight (prod s)
     + consumer_weight (cons s) + 2 * spurious s"

lemma wake_weight:
  "consumer_weight (wake_consumer c) \<le> consumer_weight c + 1" "producer_weight (wake_producer p) \<le> producer_weight p + 1"
  by (cases c; simp) (cases p; simp)

lemma pipe_step_decreases: "pipe_step s t \<Longrightarrow> potential t < potential s"
proof (induction rule: pipe_step.induct)
  case (push_notify s)
  then show ?case using wake_weight(1) [of "cons s"] by (simp add: potential_def)
next
  case (close_notify_empty s)
  then show ?case using wake_weight(1) [of "cons s"] by (simp add: potential_def)
next
  case (pop_notify s f)
  then show ?case using wake_weight(2) [of "prod s"] by (simp add: potential_def)
qed (auto simp: potential_def push_locked_def pop_locked_def close_locked_def split: if_splits list.splits)

lemma pipe_run_bounded: "(pipe_step ^^ n) s t \<Longrightarrow> n + potential t \<le> potential s"
  by (induction n arbitrary: t) (auto dest!: pipe_step_decreases, fastforce)

lemma pipe_completes:
  assumes "pipe_inv max_size input s" "0 < max_size"
  shows "\<exists>t. reachable s t \<and> finished t"
  using assms(1)
proof (induction "potential s" arbitrary: s rule: less_induct)
  case less
  show ?case
  proof (cases "finished s")
    case False
    then obtain t where t: "pipe_step s t" using never_stuck less.prems assms(2) by blast
    then obtain u where u: "reachable t u" "finished u"
      using less.hyps [OF pipe_step_decreases [OF t]] pipe_inv_step [OF less.prems t] by blast
    have "reachable s u" using u(1) by induction (auto intro: reachable.intros t)
    with u show ?thesis by blast
  qed (auto intro: reachable.intros)
qed

lemma finished_saw_all: "pipe_inv max_size input s \<Longrightarrow> finished s \<Longrightarrow> seen s = input"
  by (auto simp: pipe_inv_def finished_def)

subsection \<open>Properties\<close>

text \<open>
  C6: In every interleaving of the two threads, whatever wakeups are spurious, the queue never holds
  more than its maximum, and the frames printed so far, the frame being printed, the queue, the frame being
  pushed and the frames still to come are, in this order, exactly the captured frames: none is lost,
  duplicated or reordered.
\<close>

theorem queue_fifo:
  assumes "reachable (pipe_start max_size k input) s"
  shows "length (pq_queue (pq s)) \<le> max_size
    \<and> seen s @ popping (cons s) @ pq_queue (pq s) @ pushing (prod s) @ todo s = input"
  using pipe_inv_reachable [OF assms] by (simp add: pipe_inv_def)

definition sample_frame :: CapturedFrame where
  "sample_frame = \<lparr>cf_data = [1, 2, 3], cf_ts_seconds = 4, cf_ts_microseconds = 5\<rparr>"

theorem queue_fifo_witness:
  "\<exists>s. reachable (pipe_start 1 0 [sample_frame]) s \<and> pq_queue (pq s) = [sample_frame] \<and> length (pq_queue (pq s)) \<le> 1
    \<and> seen s @ popping (cons s) @ pq_queue (pq s) @ pushing (prod s) @ todo s = [sample_frame]"
proof -
  let ?s0 = "pipe_start 1 0 [sample_frame]"
  let ?s1 = "?s0\<lparr>prod := P_Enter sample_frame, todo := []\<rparr>"
  let ?s2 = "?s1\<lparr>pq := (pq ?s1)\<lparr>pq_queue := [sample_frame]\<rparr>, prod := P_Notify\<rparr>"
  have "pipe_step ?s0 ?s1" by (rule call_push) (simp_all add: pipe_start_def)
  moreover have "pipe_step ?s1 ?s2"
    by (rule push_add) (simp_all add: pipe_start_def push_ready_def push_locked_def)
  ultimately have r: "reachable ?s0 ?s2" by (blast intro: reachable.intros)
  with queue_fifo [OF r] show ?thesis by (intro exI [of _ ?s2]) simp
qed

text \<open>
  C3: There is no deadlock and no lost wakeup: as long as the queue has room for one frame, every
  reachable state in which no thread can move is the one where the capture thread has closed the queue
  and finished, \<open>pop\<close> has returned false, and every captured frame has been printed. A run has at most
  \<open>20 n + 7 + 2 k\<close> steps for \<open>n\<close> frames and \<open>k\<close> spurious wakeups, so this state is always reached.
\<close>

theorem queue_delivers_all:
  assumes "0 < max_size"
  shows "(reachable (pipe_start max_size k input) s \<and> (\<nexists>t. pipe_step s t) \<longrightarrow> finished s \<and> seen s = input)
    \<and> (reachable (pipe_start max_size k input) s \<longrightarrow> (\<exists>t. reachable s t \<and> finished t \<and> seen t = input))
    \<and> ((pipe_step ^^ n) (pipe_start max_size k input) s \<longrightarrow> n \<le> 20 * length input + 7 + 2 * k)"
proof (intro conjI impI)
  assume s: "reachable (pipe_start max_size k input) s \<and> (\<nexists>t. pipe_step s t)"
  then have inv: "pipe_inv max_size input s" using pipe_inv_reachable by blast
  with s show "finished s" using never_stuck assms by blast
  with inv show "seen s = input" by (rule finished_saw_all)
next
  assume s: "reachable (pipe_start max_size k input) s"
  then obtain t where t: "reachable s t" "finished t" using pipe_completes [OF pipe_inv_reachable assms] by blast
  have "pipe_inv max_size input t"
    using t(1) pipe_inv_reachable [OF s] by induction (auto intro: pipe_inv_step)
  with t show "\<exists>t. reachable s t \<and> finished t \<and> seen t = input" using finished_saw_all by blast
next
  assume "(pipe_step ^^ n) (pipe_start max_size k input) s"
  from pipe_run_bounded [OF this] show "n \<le> 20 * length input + 7 + 2 * k"
    by (simp add: potential_def pipe_start_def)
qed


theorem queue_delivers_all_witness:
  "\<exists>t. reachable (pipe_start 4096 3 [sample_frame, sample_frame]) t \<and> finished t \<and> seen t = [sample_frame, sample_frame]"
proof -
  have "0 < (4096 :: nat)" by simp
  from queue_delivers_all [OF this, of 3 "[sample_frame, sample_frame]" "pipe_start 4096 3 [sample_frame, sample_frame]"]
  show ?thesis using reachable.start by blast
qed

end
