(* ===== verification/Raw_Ring.thy ===== *)
theory Raw_Ring
  imports Prelude "HOL-Library.Sublist"
begin

text \<open>
  \<open>raw_socket_recv\<close> of \<open>src/src/c/raw_socket.c\<close>: the reader of the TPACKET_V3 ring the kernel shares with the
  process. The kernel, \<open>poll\<close> and the signal handler are the environment: before each turn of the loop
  the kernel may change the ring, and a stop may have been requested. \<open>None\<close> is undefined behaviour or
  a loop that never ends.
\<close>

subsection \<open>The ring\<close>

text \<open>
  A packet header of the ring with the memory from the header to the end of its block, and a block: its
  descriptor and the headers by their byte offset.
\<close>

record tpacket3_hdr =
  tp_next_offset :: u32
  tp_sec :: u32
  tp_nsec :: u32
  tp_snaplen :: u32
  tp_mac :: u16
  hdr_mem :: buf

record tpacket_block =
  block_status :: u32
  num_pkts :: u32
  offset_to_first_pkt :: u32
  block_hdrs :: "u32 \<Rightarrow> tpacket3_hdr option"

type_synonym ring = "tpacket_block list"

abbreviation TP_STATUS_KERNEL :: u32 where "TP_STATUS_KERNEL \<equiv> 0"
abbreviation TP_STATUS_USER :: u32 where "TP_STATUS_USER \<equiv> 1"
abbreviation RAW_SOCKET_STOPPED :: int where "RAW_SOCKET_STOPPED \<equiv> -2"

text \<open>The read cursor of \<open>struct raw_socket_ctx\<close>.\<close>

record cursor =
  block_nr :: u32
  cur_block :: u32
  cur_pkt_idx :: u32
  cur_pkt_offset :: u32
  cur_num_pkts :: u32

definition rs_block_at :: "ring \<Rightarrow> u32 \<Rightarrow> tpacket_block option" where
  "rs_block_at ring index = (if unat index < length ring then Some (ring ! unat index) else None)"

definition is_user :: "tpacket_block \<Rightarrow> bool" where
  "is_user bd \<longleftrightarrow> block_status bd AND TP_STATUS_USER \<noteq> 0"

text \<open>Handing the current block back to the kernel.\<close>

definition release_block :: "cursor \<Rightarrow> ring \<Rightarrow> cursor \<times> ring" where
  "release_block c ring =
     (c\<lparr>cur_block := (cur_block c + 1) mod block_nr c\<rparr>,
      ring[unat (cur_block c) := (ring ! unat (cur_block c))\<lparr>block_status := TP_STATUS_KERNEL\<rparr>])"

subsection \<open>One turn of the loop\<close>

datatype turn =
    Wait
  | Again cursor ring
  | Frame int cursor ring buf "u32 option" "u32 option"

text \<open>The frame at the cursor: copied, the cursor advanced, the block released when it is drained.\<close>

definition take_frame :: "cursor \<Rightarrow> ring \<Rightarrow> tpacket_block \<Rightarrow> buf \<Rightarrow> u32 \<Rightarrow> u32 option \<Rightarrow> u32 option \<Rightarrow> turn option" where
  "take_frame c ring bd buf buf_len osec ousec = do {
     hdr \<leftarrow> block_hdrs bd (cur_pkt_offset c);
     frame \<leftarrow> ptr_add (hdr_mem hdr) (unat (tp_mac hdr));
     let frame_len = tp_snaplen hdr;
     let copy_len = (if frame_len < buf_len then frame_len else buf_len);
     bytes \<leftarrow> memcpy_from frame 0 (unat copy_len);
     if length buf < unat copy_len then None
     else do {
       let buf = bytes @ drop (unat copy_len) buf;
       let osec = map_option (\<lambda>_. tp_sec hdr) osec;
       let ousec = map_option (\<lambda>_. tp_nsec hdr div 1000) ousec;
       let c = c\<lparr>cur_pkt_idx := cur_pkt_idx c + 1\<rparr>;
       if cur_pkt_idx c \<ge> cur_num_pkts c then
         let (c, ring) = release_block c ring in
         Some (Frame (sint copy_len) (c\<lparr>cur_pkt_idx := 0\<rparr>) ring buf osec ousec)
       else
         Some (Frame (sint copy_len) (c\<lparr>cur_pkt_offset := cur_pkt_offset c + tp_next_offset hdr\<rparr>) ring buf osec ousec)
     }
   }"

definition recv_turn :: "cursor \<Rightarrow> ring \<Rightarrow> buf \<Rightarrow> u32 \<Rightarrow> u32 option \<Rightarrow> u32 option \<Rightarrow> turn option" where
  "recv_turn c ring buf buf_len osec ousec = do {
     bd \<leftarrow> rs_block_at ring (cur_block c);
     if cur_pkt_idx c = 0 then
       if \<not> is_user bd then Some Wait
       else
         let c = c\<lparr>cur_num_pkts := num_pkts bd, cur_pkt_offset := offset_to_first_pkt bd\<rparr> in
         if cur_num_pkts c = 0 then let (c, ring) = release_block c ring in Some (Again c ring)
         else take_frame c ring bd buf buf_len osec ousec
     else take_frame c ring bd buf buf_len osec ousec
   }"

subsection \<open>The loop\<close>

text \<open>
  What happens around the \<open>k\<close>-th turn: whether a stop has been requested, what the kernel has done to the
  ring, and, if the turn ends in \<open>poll\<close>, its result and whether \<open>errno\<close> is \<open>EINTR\<close>.
\<close>

record event =
  ev_stop :: bool
  ev_kernel :: "ring \<Rightarrow> ring"
  ev_poll :: int
  ev_eintr :: bool

type_synonym recv_result = "int \<times> cursor \<times> ring \<times> buf \<times> u32 option \<times> u32 option \<times> nat"

partial_function (option) recv_loop ::
  "(nat \<Rightarrow> event) \<Rightarrow> nat \<Rightarrow> cursor \<Rightarrow> ring \<Rightarrow> buf \<Rightarrow> u32 \<Rightarrow> u32 option \<Rightarrow> u32 option \<Rightarrow> recv_result option" where
  "recv_loop env k c ring buf buf_len osec ousec =
     (let ring = ev_kernel (env k) ring in
      if ev_stop (env k) then Some (RAW_SOCKET_STOPPED, c, ring, buf, osec, ousec, Suc k)
      else do {
        t \<leftarrow> recv_turn c ring buf buf_len osec ousec;
        case t of
          Wait \<Rightarrow>
            if ev_poll (env k) < 0 \<and> \<not> ev_eintr (env k) then Some (-1, c, ring, buf, osec, ousec, Suc k)
            else recv_loop env (Suc k) c ring buf buf_len osec ousec
        | Again c ring \<Rightarrow> recv_loop env (Suc k) c ring buf buf_len osec ousec
        | Frame n c ring buf osec ousec \<Rightarrow> Some (n, c, ring, buf, osec, ousec, Suc k)
      })"

definition raw_socket_recv ::
  "(nat \<Rightarrow> event) \<Rightarrow> nat \<Rightarrow> cursor option \<Rightarrow> ring \<Rightarrow> buf option \<Rightarrow> u32 \<Rightarrow> u32 option \<Rightarrow> u32 option \<Rightarrow>
    (int \<times> cursor option \<times> ring \<times> buf option \<times> u32 option \<times> u32 option \<times> nat) option" where
  "raw_socket_recv env k ctx ring buf buf_len osec ousec =
     (case (ctx, buf) of
        (Some c, Some b) \<Rightarrow> do {
          (n, c, ring, b, osec, ousec, k) \<leftarrow> recv_loop env k c ring b buf_len osec ousec;
          Some (n, Some c, ring, Some b, osec, ousec, k)
        }
      | _ \<Rightarrow> Some (-1, ctx, ring, buf, osec, ousec, k))"


subsection \<open>The packets of the ring\<close>

text \<open>The chain of headers of a block, and the packets the reader still has to deliver.\<close>

fun chain :: "(u32 \<Rightarrow> tpacket3_hdr option) \<Rightarrow> u32 \<Rightarrow> nat \<Rightarrow> tpacket3_hdr list" where
  "chain hdrs off 0 = []"
| "chain hdrs off (Suc n) = (case hdrs off of None \<Rightarrow> [] | Some x \<Rightarrow> x # chain hdrs (off + tp_next_offset x) n)"

definition block_pkts :: "tpacket_block \<Rightarrow> tpacket3_hdr list" where
  "block_pkts bd = chain (block_hdrs bd) (offset_to_first_pkt bd) (unat (num_pkts bd))"

definition ready_blocks :: "cursor \<Rightarrow> ring \<Rightarrow> tpacket_block list" where
  "ready_blocks c ring = takeWhile is_user (rotate (unat (cur_block c)) ring)"

definition pending :: "cursor \<Rightarrow> ring \<Rightarrow> tpacket3_hdr list" where
  "pending c ring = drop (unat (cur_pkt_idx c)) (concat (map block_pkts (ready_blocks c ring)))"

text \<open>A block the kernel has handed over holds as many packets as it says, each inside the block.\<close>

definition hdr_ok :: "tpacket3_hdr \<Rightarrow> bool" where
  "hdr_ok x \<longleftrightarrow> unat (tp_mac x) + unat (tp_snaplen x) \<le> length (hdr_mem x)"

definition block_ok :: "tpacket_block \<Rightarrow> bool" where
  "block_ok bd \<longleftrightarrow> length (block_pkts bd) = unat (num_pkts bd) \<and> (\<forall>x \<in> set (block_pkts bd). hdr_ok x)"

definition ring_ok :: "ring \<Rightarrow> bool" where
  "ring_ok ring \<longleftrightarrow> (\<forall>bd \<in> set ring. is_user bd \<longrightarrow> block_ok bd)"

definition cursor_ok :: "cursor \<Rightarrow> ring \<Rightarrow> bool" where
  "cursor_ok c ring \<longleftrightarrow> ring_ok ring \<and> length ring = unat (block_nr c) \<and> unat (cur_block c) < length ring
     \<and> (cur_pkt_idx c \<noteq> 0 \<longrightarrow>
         (let bd = ring ! unat (cur_block c) in
          is_user bd \<and> cur_num_pkts c = num_pkts bd \<and> cur_pkt_idx c < num_pkts bd
          \<and> chain (block_hdrs bd) (cur_pkt_offset c) (unat (num_pkts bd) - unat (cur_pkt_idx c))
            = drop (unat (cur_pkt_idx c)) (block_pkts bd)))"

subsection \<open>Rotation and release\<close>

lemma rotate_first: "n < length xs \<Longrightarrow> rotate n xs = xs ! n # drop (Suc n) xs @ take n xs"
  by (simp add: rotate_drop_take Cons_nth_drop_Suc)

lemma rotate_release:
  assumes "n < length xs"
  shows "rotate (Suc n mod length xs) (xs[n := y]) = drop (Suc n) xs @ take n xs @ [y]"
proof (cases "Suc n = length xs")
  case True
  then have "xs[n := y] = take n xs @ [y]"
    by (simp add: upd_conv_take_nth_drop)
  with True show ?thesis by simp
next
  case False
  then have "Suc n < length xs" using assms by simp
  then show ?thesis by (simp add: rotate_drop_take take_Suc_conv_app_nth assms)
qed

lemma ready_blocks_first:
  assumes "unat (cur_block c) < length ring"
  shows "ready_blocks c ring = (if is_user (ring ! unat (cur_block c))
    then ring ! unat (cur_block c) # takeWhile is_user (drop (Suc (unat (cur_block c))) ring @ take (unat (cur_block c)) ring)
    else [])"
  using assms by (simp add: ready_blocks_def rotate_first)

lemma takeWhile_append_stop: "\<not> P y \<Longrightarrow> takeWhile P (xs @ [y]) = takeWhile P xs"
  by (induction xs) simp_all

lemma released_not_user: "\<not> is_user (bd\<lparr>block_status := TP_STATUS_KERNEL\<rparr>)"
  by (simp add: is_user_def)

lemma release_block_ready:
  assumes "unat (cur_block c) < length ring" "length ring = unat (block_nr c)"
    and "is_user (ring ! unat (cur_block c))" "release_block c ring = (c', ring')"
  shows "ready_blocks c ring = ring ! unat (cur_block c) # ready_blocks c' ring'"
    and "unat (cur_block c') < length ring'" "length ring' = unat (block_nr c')"
    and "ring_ok ring \<Longrightarrow> ring_ok ring'"
proof -
  let ?n = "unat (cur_block c)" and ?y = "(ring ! unat (cur_block c))\<lparr>block_status := TP_STATUS_KERNEL\<rparr>"
  have r: "ring' = ring[?n := ?y]" "c' = c\<lparr>cur_block := (cur_block c + 1) mod block_nr c\<rparr>"
    using assms(4) by (simp_all add: release_block_def)
  have "Suc ?n \<le> unat (block_nr c)" using assms(1,2) by simp
  then have "unat (cur_block c + 1) = Suc ?n"
    using unat_u32_bound [of "block_nr c"] by (simp add: unat_word_ariths)
  then have cur: "unat (cur_block c') = Suc ?n mod length ring" using assms(2) by (simp add: r unat_mod)
  show "ready_blocks c ring = ring ! ?n # ready_blocks c' ring'"
    using assms(1,3) unfolding ready_blocks_first [OF assms(1)]
    by (simp add: ready_blocks_def cur r(1) rotate_release takeWhile_append_stop released_not_user flip: append_assoc)
  show "unat (cur_block c') < length ring'" unfolding cur using assms(1) by (simp add: r(1) del: mod_less) (rule mod_less_divisor, linarith)
  show "length ring' = unat (block_nr c')" using assms(2) by (simp add: r)
  show "ring_ok ring'" if "ring_ok ring"
    using that assms(1) released_not_user by (auto simp: ring_ok_def r(1) dest!: in_set_conv_nth [THEN iffD1] split: if_splits)
      (metis in_set_conv_nth nth_list_update)
qed


subsection \<open>What a turn does\<close>

text \<open>The reader delivers \<open>x\<close>, which lies inside its block: its bytes cut to the buffer.\<close>

definition delivers :: "tpacket3_hdr \<Rightarrow> u32 \<Rightarrow> buf \<Rightarrow> int \<Rightarrow> buf \<Rightarrow> bool" where
  "delivers x buf_len buf n buf' \<longleftrightarrow> hdr_ok x \<and>
     (let m = min (unat (tp_snaplen x)) (unat buf_len) in
      n = sint (of_nat m :: u32) \<and> buf' = take m (drop (unat (tp_mac x)) (hdr_mem x)) @ drop m buf)"

definition turn_ok :: "cursor \<Rightarrow> ring \<Rightarrow> buf \<Rightarrow> u32 \<Rightarrow> u32 option \<Rightarrow> u32 option \<Rightarrow> turn \<Rightarrow> bool" where
  "turn_ok c ring buf buf_len osec ousec t \<longleftrightarrow>
     (case t of
        Wait \<Rightarrow> pending c ring = []
      | Again c' ring' \<Rightarrow> cursor_ok c' ring' \<and> pending c' ring' = pending c ring
          \<and> (\<exists>bd. ready_blocks c ring = bd # ready_blocks c' ring' \<and> block_pkts bd = [])
      | Frame n c' ring' buf' osec' ousec' \<Rightarrow> cursor_ok c' ring'
          \<and> (\<exists>x. pending c ring = x # pending c' ring' \<and> delivers x buf_len buf n buf' \<and> length buf' = length buf
             \<and> osec' = map_option (\<lambda>_. tp_sec x) osec \<and> ousec' = map_option (\<lambda>_. tp_nsec x div 1000) ousec))"

lemma chain_Cons:
  "chain hdrs off n = x # xs \<Longrightarrow>
    hdrs off = Some x \<and> xs = chain hdrs (off + tp_next_offset x) (n - 1)"
  by (cases n) (auto split: option.splits)

text \<open>The copy into the caller's buffer, and what is left after the last packet of a block.\<close>

lemma copy_delivers:
  assumes "hdr_ok x" "unat buf_len \<le> length buf"
  defines "m \<equiv> if tp_snaplen x < buf_len then tp_snaplen x else buf_len"
  defines "buf' \<equiv> take (unat m) (drop (unat (tp_mac x)) (hdr_mem x)) @ drop (unat m) buf"
  shows "unat (tp_mac x) + unat m \<le> length (hdr_mem x)" "unat m \<le> length buf" "length buf' = length buf"
    "delivers x buf_len buf (sint m) buf'"
proof -
  have m: "unat m = min (unat (tp_snaplen x)) (unat buf_len)" by (simp add: m_def word_less_nat_alt min_def)
  show fits: "unat (tp_mac x) + unat m \<le> length (hdr_mem x)" "unat m \<le> length buf"
    using assms(1,2) m by (auto simp: hdr_ok_def)
  then show "length buf' = length buf" by (simp add: buf'_def)
  show "delivers x buf_len buf (sint m) buf'" using assms(1) by (simp add: delivers_def buf'_def Let_def flip: m)
qed

lemma release_done:
  assumes "ring_ok ring" "length ring = unat (block_nr c)" "unat (cur_block c) < length ring" "is_user (ring ! unat (cur_block c))"
    and rel: "release_block c ring = (c', ring')"
  shows "cursor_ok (c'\<lparr>cur_pkt_idx := 0\<rparr>) ring'"
    "pending (c'\<lparr>cur_pkt_idx := 0\<rparr>) ring' = concat (map block_pkts (tl (ready_blocks c ring)))"
    "ready_blocks c ring = ring ! unat (cur_block c) # ready_blocks c' ring'"
proof -
  note rb = release_block_ready [OF _ _ _ rel]
  show next_block: "ready_blocks c ring = ring ! unat (cur_block c) # ready_blocks c' ring'" using rb(1) assms by simp
  show "cursor_ok (c'\<lparr>cur_pkt_idx := 0\<rparr>) ring'" using rb(2-4) assms by (simp add: cursor_ok_def)
  have "ready_blocks (c'\<lparr>cur_pkt_idx := 0\<rparr>) ring' = ready_blocks c' ring'" by (simp add: ready_blocks_def)
  with next_block show "pending (c'\<lparr>cur_pkt_idx := 0\<rparr>) ring' = concat (map block_pkts (tl (ready_blocks c ring)))"
    by (simp add: pending_def)
qed

lemma take_frame_ok:
  fixes c :: cursor and ring :: ring
  defines "bd \<equiv> ring ! unat (cur_block c)"
  assumes ring: "ring_ok ring" "length ring = unat (block_nr c)" "unat (cur_block c) < length ring" "is_user bd"
    and c: "cur_num_pkts c = num_pkts bd" "cur_pkt_idx c < num_pkts bd"
      "chain (block_hdrs bd) (cur_pkt_offset c) (unat (num_pkts bd) - unat (cur_pkt_idx c))
        = drop (unat (cur_pkt_idx c)) (block_pkts bd)"
    and buf: "unat buf_len \<le> length buf"
  shows "\<exists>t. take_frame c ring bd buf buf_len osec ousec = Some t \<and> turn_ok c ring buf buf_len osec ousec t
    \<and> (\<exists>n c' ring' buf' osec' ousec'. t = Frame n c' ring' buf' osec' ousec')"
proof -
  let ?i = "unat (cur_pkt_idx c)" and ?n = "unat (num_pkts bd)"
  have bd: "length (block_pkts bd) = ?n" "\<forall>x \<in> set (block_pkts bd). hdr_ok x"
    using ring by (auto simp: ring_ok_def block_ok_def bd_def)
  have i: "?i < ?n" using c(2) by (simp add: word_less_nat_alt)
  then have split: "drop ?i (block_pkts bd) = block_pkts bd ! ?i # drop (Suc ?i) (block_pkts bd)"
    by (simp add: Cons_nth_drop_Suc bd(1))
  define x where "x = block_pkts bd ! ?i"
  from chain_Cons [OF c(3) [unfolded split]] i have x: "block_hdrs bd (cur_pkt_offset c) = Some x"
    "drop (Suc ?i) (block_pkts bd) = chain (block_hdrs bd) (cur_pkt_offset c + tp_next_offset x) (?n - Suc ?i)"
    by (simp_all add: x_def)
  have hdr: "hdr_ok x" using bd i by (simp add: x_def)
  define m where "m = (if tp_snaplen x < buf_len then tp_snaplen x else buf_len)"
  define buf' where "buf' = take (unat m) (drop (unat (tp_mac x)) (hdr_mem x)) @ drop (unat m) buf"
  note copy = copy_delivers [OF hdr buf, folded m_def, folded buf'_def]
  have idx: "unat (cur_pkt_idx c + 1) = Suc ?i"
    using i unat_u32_bound [of "num_pkts bd"] by (simp add: unat_word_ariths)
  have last: "cur_pkt_idx c + 1 \<ge> cur_num_pkts c \<longleftrightarrow> Suc ?i = ?n"
    using i idx c(1) by (auto simp: word_le_nat_alt)
  have pend: "pending c ring = x # drop (Suc ?i) (block_pkts bd) @ concat (map block_pkts (tl (ready_blocks c ring)))"
    using ready_blocks_first [OF ring(3)] ring(4) i bd(1) split by (simp add: pending_def x_def flip: bd_def)
  let ?c = "c\<lparr>cur_pkt_idx := cur_pkt_idx c + 1\<rparr>"
  show ?thesis
  proof (cases "Suc ?i = ?n")
    case True
    obtain c' ring' where rel: "release_block ?c ring = (c', ring')" by (cases "release_block ?c ring")
    have "ready_blocks ?c ring = ready_blocks c ring" by (simp add: ready_blocks_def)
    then have "cursor_ok (c'\<lparr>cur_pkt_idx := 0\<rparr>) ring'" "pending c ring = x # pending (c'\<lparr>cur_pkt_idx := 0\<rparr>) ring'"
      using release_done [OF _ _ _ _ rel] ring pend True bd(1) by (simp_all add: bd_def)
    then show ?thesis
      using x(1) copy last True rel
      by (simp add: take_frame_def turn_ok_def mem_simps flip: m_def buf'_def)
  next
    case False
    let ?c' = "?c\<lparr>cur_pkt_offset := cur_pkt_offset c + tp_next_offset x\<rparr>"
    have same: "ready_blocks ?c' ring = ready_blocks c ring" by (simp add: ready_blocks_def)
    have "cur_pkt_idx c + 1 < num_pkts bd" using False i idx by (simp add: word_less_nat_alt)
    then have "cursor_ok ?c' ring"
      using ring c(1) x(2) idx by (simp add: cursor_ok_def flip: bd_def)
    moreover have "pending ?c' ring = drop (Suc ?i) (concat (map block_pkts (ready_blocks c ring)))"
      by (simp add: pending_def same idx)
    then have "pending c ring = x # pending ?c' ring"
      using pend by (simp add: pending_def) (metis drop_Suc list.sel(3) tl_drop)
    ultimately show ?thesis
      using x(1) copy last False
      by (simp add: take_frame_def turn_ok_def mem_simps flip: m_def buf'_def)
  qed
qed


lemma turn_ok_cong:
  "pending c2 ring = pending c ring \<Longrightarrow> ready_blocks c2 ring = ready_blocks c ring \<Longrightarrow>
    turn_ok c2 ring buf buf_len osec ousec t = turn_ok c ring buf buf_len osec ousec t"
  by (simp add: turn_ok_def split: turn.split)

text \<open>A block without packets is handed back.\<close>

lemma empty_block_ok:
  fixes c :: cursor and ring :: ring
  defines "bd \<equiv> ring ! unat (cur_block c)"
  assumes ok: "cursor_ok c ring" and zero: "cur_pkt_idx c = 0" and user: "is_user (ring ! unat (cur_block c))" and "num_pkts bd = 0"
    and rel: "release_block (c\<lparr>cur_num_pkts := num_pkts bd, cur_pkt_offset := offset_to_first_pkt bd\<rparr>) ring = (c', ring')"
  shows "turn_ok c ring buf buf_len osec ousec (Again c' ring')"
proof -
  let ?c = "c\<lparr>cur_num_pkts := num_pkts bd, cur_pkt_offset := offset_to_first_pkt bd\<rparr>"
  have same: "ready_blocks ?c ring = ready_blocks c ring" by (simp add: ready_blocks_def)
  have "cur_pkt_idx c' = 0" using rel zero by (auto simp: release_block_def)
  then have idx: "c'\<lparr>cur_pkt_idx := 0\<rparr> = c'" by simp
  have "cursor_ok c' ring'" "pending c' ring' = concat (map block_pkts (tl (ready_blocks c ring)))"
    "ready_blocks c ring = bd # ready_blocks c' ring'"
    using release_done [OF _ _ _ _ rel, unfolded idx] ok user same by (simp_all add: cursor_ok_def bd_def)
  moreover have "block_pkts bd = []" using assms(5) by (simp add: block_pkts_def)
  ultimately show ?thesis using zero by (simp add: turn_ok_def pending_def)
qed

lemma recv_turn_ok:
  assumes ok: "cursor_ok c ring" and buf: "unat buf_len \<le> length buf"
  shows "\<exists>t. recv_turn c ring buf buf_len osec ousec = Some t \<and> turn_ok c ring buf buf_len osec ousec t"
proof -
  let ?bd = "ring ! unat (cur_block c)"
  have ring: "ring_ok ring" "length ring = unat (block_nr c)" "unat (cur_block c) < length ring"
    using ok by (simp_all add: cursor_ok_def)
  have bd: "rs_block_at ring (cur_block c) = Some ?bd" using ring by (simp add: rs_block_at_def)
  show ?thesis
  proof (cases "cur_pkt_idx c = 0")
    case zero: True
    show ?thesis
    proof (cases "is_user ?bd")
      case False
      then show ?thesis
        using zero bd ready_blocks_first [OF ring(3)] by (simp add: recv_turn_def turn_ok_def pending_def)
    next
      case user: True
      let ?c = "c\<lparr>cur_num_pkts := num_pkts ?bd, cur_pkt_offset := offset_to_first_pkt ?bd\<rparr>"
      have same: "pending ?c ring = pending c ring" "ready_blocks ?c ring = ready_blocks c ring"
        by (simp_all add: pending_def ready_blocks_def)
      show ?thesis
      proof (cases "num_pkts ?bd = 0")
        case True
        then show ?thesis using empty_block_ok [OF ok zero user] zero user bd by (auto simp: recv_turn_def split: prod.split)
      next
        case False
        then have "\<exists>t. take_frame ?c ring ?bd buf buf_len osec ousec = Some t \<and> turn_ok ?c ring buf buf_len osec ousec t"
          using take_frame_ok [of ring ?c buf_len buf osec ousec] ring user zero buf
          by (auto simp: block_pkts_def word_less_nat_alt word_unat_eq_iff)
        then show ?thesis
          using zero user bd False turn_ok_cong [OF same] by (simp add: recv_turn_def)
      qed
    qed
  next
    case False
    then show ?thesis
      using take_frame_ok [of ring c buf_len buf osec ousec] ok buf bd by (auto simp: cursor_ok_def recv_turn_def Let_def)
  qed
qed

subsection \<open>What the kernel may do\<close>

text \<open>
  The TPACKET_V3 protocol: the kernel writes only to blocks it owns, and a block it hands over holds the
  packets its descriptor announces.
\<close>

definition kernel_ok :: "(ring \<Rightarrow> ring) \<Rightarrow> bool" where
  "kernel_ok upd \<longleftrightarrow> (\<forall>ring. ring_ok ring \<longrightarrow> ring_ok (upd ring) \<and> length (upd ring) = length ring
     \<and> (\<forall>i < length ring. is_user (ring ! i) \<longrightarrow> upd ring ! i = ring ! i))"

lemma takeWhile_prefix:
  "length ys = length xs \<Longrightarrow> (\<And>i. i < length xs \<Longrightarrow> P (xs ! i) \<Longrightarrow> ys ! i = xs ! i) \<Longrightarrow>
    prefix (takeWhile P xs) (takeWhile P ys)"
proof (induction xs arbitrary: ys)
  case (Cons x xs)
  then obtain y ys' where ys: "ys = y # ys'" by (cases ys) auto
  show ?case
  proof (cases "P x")
    case True
    then have "y = x" using Cons.prems(2) [of 0] ys by simp
    moreover have "prefix (takeWhile P xs) (takeWhile P ys')"
    proof (rule Cons.IH)
      show "ys' ! i = xs ! i" if "i < length xs" "P (xs ! i)" for i
        using Cons.prems(2) [of "Suc i"] that ys by simp
    qed (use Cons.prems(1) ys in simp)
    ultimately show ?thesis using True ys by simp
  qed simp
qed simp

lemma kernel_extends:
  assumes "kernel_ok upd" "cursor_ok c ring"
  shows "cursor_ok c (upd ring)" "prefix (ready_blocks c ring) (ready_blocks c (upd ring))"
    "prefix (pending c ring) (pending c (upd ring))"
proof -
  have k: "ring_ok (upd ring)" "length (upd ring) = length ring"
    "\<And>i. i < length ring \<Longrightarrow> is_user (ring ! i) \<Longrightarrow> upd ring ! i = ring ! i"
    using assms by (auto simp: kernel_ok_def cursor_ok_def)
  show "cursor_ok c (upd ring)" using assms(2) k by (auto simp: cursor_ok_def Let_def)
  show ready: "prefix (ready_blocks c ring) (ready_blocks c (upd ring))"
    unfolding ready_blocks_def
  proof (rule takeWhile_prefix)
    fix i assume i: "i < length (rotate (unat (cur_block c)) ring)" "is_user (rotate (unat (cur_block c)) ring ! i)"
    then have "(unat (cur_block c) + i) mod length ring < length ring" by (intro mod_less_divisor) auto
    then show "rotate (unat (cur_block c)) (upd ring) ! i = rotate (unat (cur_block c)) ring ! i"
      using i k by (simp add: nth_rotate)
  qed (use k in simp)
  then obtain bs where bs: "ready_blocks c (upd ring) = ready_blocks c ring @ bs" by (elim prefixE)
  have "unat (cur_pkt_idx c) \<le> length (concat (map block_pkts (ready_blocks c ring)))"
  proof (cases "cur_pkt_idx c = 0")
    case False
    with assms(2) show ?thesis
      by (auto simp: cursor_ok_def Let_def ready_blocks_first block_ok_def ring_ok_def word_less_nat_alt)
  qed simp
  then show "prefix (pending c ring) (pending c (upd ring))" by (simp add: pending_def bs)
qed


subsection \<open>The loop\<close>

lemma kernel_turn:
  assumes "kernel_ok upd" "cursor_ok c ring" "unat buf_len \<le> length buf"
  obtains t where "recv_turn c (upd ring) buf buf_len osec ousec = Some t" "turn_ok c (upd ring) buf buf_len osec ousec t"
  using recv_turn_ok [OF kernel_extends(1) [OF assms(1,2)] assms(3)] that by blast

definition recv_ok :: "cursor \<Rightarrow> ring \<Rightarrow> buf \<Rightarrow> u32 \<Rightarrow> u32 option \<Rightarrow> u32 option \<Rightarrow> recv_result \<Rightarrow> bool" where
  "recv_ok c ring buf buf_len osec ousec r \<longleftrightarrow>
     (case r of (n, c', ring', buf', osec', ousec', k') \<Rightarrow> cursor_ok c' ring' \<and> length buf' = length buf
        \<and> ((n = RAW_SOCKET_STOPPED \<or> n = -1) \<and> prefix (pending c ring) (pending c' ring')
             \<and> buf' = buf \<and> osec' = osec \<and> ousec' = ousec
         \<or> (\<exists>x more. pending c ring @ more = x # pending c' ring' \<and> delivers x buf_len buf n buf'
             \<and> osec' = map_option (\<lambda>_. tp_sec x) osec \<and> ousec' = map_option (\<lambda>_. tp_nsec x div 1000) ousec)))"

lemma recv_ok_extend:
  assumes "recv_ok c1 ring1 buf buf_len osec ousec r" "prefix (pending c ring) (pending c1 ring1)"
  shows "recv_ok c ring buf buf_len osec ousec r"
proof -
  obtain zs where "pending c1 ring1 = pending c ring @ zs" using assms(2) by (elim prefixE)
  with assms(1) show ?thesis
    by (auto simp: recv_ok_def split: prod.splits) (metis append.assoc prefix_def)+
qed

lemma recv_loop_ok:
  "recv_loop env k c ring buf buf_len osec ousec = Some r \<Longrightarrow>
    (\<forall>j. kernel_ok (ev_kernel (env j))) \<longrightarrow> cursor_ok c ring \<longrightarrow> unat buf_len \<le> length buf \<longrightarrow>
    recv_ok c ring buf buf_len osec ousec r"
proof (erule recv_loop.raw_induct [rotated], intro impI)
  fix loop :: "(nat \<Rightarrow> event) \<Rightarrow> nat \<Rightarrow> cursor \<Rightarrow> ring \<Rightarrow> buf \<Rightarrow> u32 \<Rightarrow> u32 option \<Rightarrow> u32 option \<Rightarrow> recv_result option"
  fix env k c ring buf buf_len osec ousec r
  assume IH: "\<And>env k c ring buf buf_len osec ousec r. loop env k c ring buf buf_len osec ousec = Some r \<Longrightarrow>
      (\<forall>j. kernel_ok (ev_kernel (env j))) \<longrightarrow> cursor_ok c ring \<longrightarrow> unat buf_len \<le> length buf \<longrightarrow>
      recv_ok c ring buf buf_len osec ousec r"
    and body: "(let ring = ev_kernel (env k) ring in
      if ev_stop (env k) then Some (RAW_SOCKET_STOPPED, c, ring, buf, osec, ousec, Suc k)
      else do {
        t \<leftarrow> recv_turn c ring buf buf_len osec ousec;
        case t of
          Wait \<Rightarrow>
            if ev_poll (env k) < 0 \<and> \<not> ev_eintr (env k) then Some (-1, c, ring, buf, osec, ousec, Suc k)
            else loop env (Suc k) c ring buf buf_len osec ousec
        | Again c ring \<Rightarrow> loop env (Suc k) c ring buf buf_len osec ousec
        | Frame n c ring buf osec ousec \<Rightarrow> Some (n, c, ring, buf, osec, ousec, Suc k)
      }) = Some r"
    and kernel: "\<forall>j. kernel_ok (ev_kernel (env j))" and ok: "cursor_ok c ring" and buf: "unat buf_len \<le> length buf"
  let ?ring = "ev_kernel (env k) ring"
  note ext = kernel_extends [OF kernel [rule_format, of k] ok]
  obtain t where t: "recv_turn c ?ring buf buf_len osec ousec = Some t" "turn_ok c ?ring buf buf_len osec ousec t"
    using kernel_turn [OF kernel [rule_format] ok buf] .
  have "recv_ok c ?ring buf buf_len osec ousec r"
  proof (cases "ev_stop (env k)")
    case True
    with body ext(1) show ?thesis by (auto simp: recv_ok_def Let_def)
  next
    case False
    show ?thesis
    proof (cases t)
      case Wait
      with body t False IH [of env "Suc k" c ?ring buf buf_len osec ousec r] kernel ext(1) buf show ?thesis
        by (auto simp: recv_ok_def Let_def split: if_splits)
    next
      case (Again c' ring')
      with t(2) have "cursor_ok c' ring'" "pending c' ring' = pending c ?ring" by (simp_all add: turn_ok_def)
      with body t False Again IH [of env "Suc k" c' ring' buf buf_len osec ousec r] kernel buf show ?thesis
        by (auto simp: Let_def intro: recv_ok_extend [of c' ring'])
    next
      case (Frame n c' ring' buf' osec' ousec')
      with body t(1) False have "r = (n, c', ring', buf', osec', ousec', Suc k)" by (simp add: Let_def)
      with t(2) Frame show ?thesis by (auto simp: turn_ok_def recv_ok_def)
    qed
  qed
  with ext(3) show "recv_ok c ring buf buf_len osec ousec r" by (rule recv_ok_extend [rotated])
qed

text \<open>A stop request ends the loop at its turn at the latest.\<close>

lemma recv_loop_stops:
  assumes "\<forall>j. kernel_ok (ev_kernel (env j))" "ev_stop (env (k + n))" "cursor_ok c ring" "unat buf_len \<le> length buf"
  shows "\<exists>r. recv_loop env k c ring buf buf_len osec ousec = Some r"
  using assms(2,3)
proof (induction n arbitrary: k c ring)
  case 0
  then show ?case by (subst recv_loop.simps) (simp add: Let_def)
next
  case (Suc n)
  let ?ring = "ev_kernel (env k) ring"
  note ext = kernel_extends [OF assms(1) [rule_format, of k] Suc.prems(2)]
  obtain t where t: "recv_turn c ?ring buf buf_len osec ousec = Some t" "turn_ok c ?ring buf buf_len osec ousec t"
    using kernel_turn [OF assms(1) [rule_format] Suc.prems(2) assms(4)] .
  have next_turn: "\<exists>r. recv_loop env (Suc k) c' ring' buf buf_len osec ousec = Some r" if "cursor_ok c' ring'" for c' ring'
    using Suc.IH [of "Suc k"] Suc.prems(1) that by simp
  show ?case
    using t next_turn ext(1) by (subst recv_loop.simps) (cases t; auto simp: Let_def turn_ok_def)
qed

text \<open>With packets pending, only the empty blocks before them delay their delivery.\<close>

definition lead :: "cursor \<Rightarrow> ring \<Rightarrow> nat" where
  "lead c ring = length (takeWhile (\<lambda>bd. block_pkts bd = []) (ready_blocks c ring))"

lemma lead_bound: "lead c ring \<le> length ring"
  using length_takeWhile_le [of is_user "rotate (unat (cur_block c)) ring"]
    length_takeWhile_le [of "\<lambda>bd. block_pkts bd = []" "ready_blocks c ring"]
  by (simp add: lead_def ready_blocks_def)

lemma lead_extends:
  assumes "pending c ring \<noteq> []" "prefix (ready_blocks c ring) (ready_blocks c ring')"
  shows "lead c ring' = lead c ring"
proof -
  obtain bs where bs: "ready_blocks c ring' = ready_blocks c ring @ bs" using assms(2) by (elim prefixE)
  have "concat (map block_pkts (ready_blocks c ring)) \<noteq> []"
    using assms(1) by (intro notI) (simp only: pending_def drop_Nil)
  then obtain bd where "bd \<in> set (ready_blocks c ring)" "block_pkts bd \<noteq> []" by (auto simp: concat_eq_Nil_conv)
  then show ?thesis unfolding lead_def bs by (subst takeWhile_append1) auto
qed

lemma recv_loop_delivers:
  assumes "\<forall>j. kernel_ok (ev_kernel (env j))" "\<forall>j \<le> lead c ring. \<not> ev_stop (env (k + j))" "cursor_ok c ring"
    and "unat buf_len \<le> length buf" "pending c ring \<noteq> []"
  shows "\<exists>n c' ring' buf' osec' ousec' k'.
    recv_loop env k c ring buf buf_len osec ousec = Some (n, c', ring', buf', osec', ousec', k')
    \<and> k' \<le> Suc (k + lead c ring) \<and> pending c ring = hd (pending c ring) # tl (pending c ring)
    \<and> delivers (hd (pending c ring)) buf_len buf n buf'"
  using assms(2,3,5)
proof (induction "lead c ring" arbitrary: k c ring)
  case (0 c ring k)
  let ?ring = "ev_kernel (env k) ring"
  note ext = kernel_extends [OF assms(1) [rule_format, of k] 0(3)]
  obtain t where t: "recv_turn c ?ring buf buf_len osec ousec = Some t" "turn_ok c ?ring buf buf_len osec ousec t"
    using kernel_turn [OF assms(1) [rule_format] 0(3) assms(4)] .
  have "lead c ?ring = 0" using lead_extends [OF 0(4) ext(2)] 0(1) by simp
  then obtain n c' ring' buf' osec' ousec' where f: "t = Frame n c' ring' buf' osec' ousec'"
    using t(2) ext(3) 0(4) by (cases t) (auto simp: turn_ok_def lead_def)
  then obtain x where "pending c ?ring = x # pending c' ring'" "delivers x buf_len buf n buf'"
    using t(2) by (auto simp: turn_ok_def)
  moreover from this have "hd (pending c ring) = x" using ext(3) 0(4) by (cases "pending c ring") (auto elim: prefixE)
  ultimately show ?case using 0(2,4) t(1) f by (subst recv_loop.simps) (auto simp: Let_def)
next
  case (Suc n c ring k)
  let ?ring = "ev_kernel (env k) ring"
  note ext = kernel_extends [OF assms(1) [rule_format, of k] Suc(4)]
  obtain t where t: "recv_turn c ?ring buf buf_len osec ousec = Some t" "turn_ok c ?ring buf buf_len osec ousec t"
    using kernel_turn [OF assms(1) [rule_format] Suc(4) assms(4)] .
  have lead: "lead c ?ring = Suc n" using lead_extends [OF Suc(5) ext(2)] Suc(2) by simp
  have ne: "pending c ?ring \<noteq> []" using ext(3) Suc(5) by auto
  have hd: "hd (pending c ?ring) = hd (pending c ring)" using ext(3) Suc(5) by (cases "pending c ring") (auto elim: prefixE)
  have go: "\<not> ev_stop (env k)" using Suc(3) by (metis add_0_right zero_le)
  show ?case
  proof (cases t)
    case Wait
    then show ?thesis using t(2) ne by (simp add: turn_ok_def)
  next
    case (Again c' ring')
    then have a: "cursor_ok c' ring'" "pending c' ring' = pending c ?ring" "lead c' ring' = n"
      using t(2) lead by (auto simp: turn_ok_def lead_def)
    have "\<forall>j \<le> lead c' ring'. \<not> ev_stop (env (Suc k + j))"
      using Suc(2,3) a(3) by (metis Suc_le_mono add_Suc add_Suc_right)
    from Suc(1) [OF a(3) [symmetric] this a(1)] ne a(2) obtain m c2 ring2 buf2 osec2 ousec2 k2 where
      "recv_loop env (Suc k) c' ring' buf buf_len osec ousec = Some (m, c2, ring2, buf2, osec2, ousec2, k2)"
      "k2 \<le> Suc (Suc k + n)" "delivers (hd (pending c ?ring)) buf_len buf m buf2" using a(3) by auto
    then show ?thesis using t(1) Again go Suc(2,5) hd by (subst recv_loop.simps) (auto simp: Let_def)
  next
    case (Frame m c' ring' buf' osec' ousec')
    then have "delivers (hd (pending c ring)) buf_len buf m buf'" using t(2) hd by (auto simp: turn_ok_def)
    then show ?thesis using t(1) Frame go Suc(5) by (subst recv_loop.simps) (auto simp: Let_def)
  qed
qed


subsection \<open>Properties\<close>


definition sample_hdr :: tpacket3_hdr where
  "sample_hdr = \<lparr>tp_next_offset = 0, tp_sec = 7, tp_nsec = 9000, tp_snaplen = 3, tp_mac = 2, hdr_mem = [0, 0, 10, 11, 12]\<rparr>"

definition sample_ring :: ring where
  "sample_ring = [\<lparr>block_status = 1, num_pkts = 1, offset_to_first_pkt = 48,
     block_hdrs = (\<lambda>off. if off = 48 then Some sample_hdr else None)\<rparr>]"

definition sample_cursor :: cursor where
  "sample_cursor = \<lparr>block_nr = 1, cur_block = 0, cur_pkt_idx = 0, cur_pkt_offset = 0, cur_num_pkts = 0\<rparr>"

definition idle :: event where
  "idle = \<lparr>ev_stop = False, ev_kernel = (\<lambda>ring. ring), ev_poll = 0, ev_eintr = False\<rparr>"

lemma sample_pending: "pending sample_cursor sample_ring = [sample_hdr]" "cursor_ok sample_cursor sample_ring"
  by (simp_all add: pending_def ready_blocks_def sample_cursor_def sample_ring_def is_user_def block_pkts_def
      cursor_ok_def ring_ok_def block_ok_def hdr_ok_def sample_hdr_def)

lemma idle_kernel_ok: "kernel_ok (ev_kernel idle)"
  by (simp add: kernel_ok_def idle_def)


text \<open>
  While packets are pending and no stop is requested, \<open>raw_socket_recv\<close> does return, after at most as
  many turns as the ring has blocks, with the oldest pending packet.
\<close>

theorem raw_socket_recv_delivers:
  assumes "\<forall>j. kernel_ok (ev_kernel (env j))" "\<forall>j \<le> length ring. \<not> ev_stop (env (k + j))" "cursor_ok c ring"
    and "unat buf_len \<le> length buf" "pending c ring = x # xs"
  shows "\<exists>n c' ring' buf' osec' ousec' k'.
    raw_socket_recv env k (Some c) ring (Some buf) buf_len osec ousec = Some (n, Some c', ring', Some buf', osec', ousec', k')
    \<and> k' \<le> Suc (k + length ring) \<and> delivers x buf_len buf n buf'"
proof -
  have "\<forall>j \<le> lead c ring. \<not> ev_stop (env (k + j))" using assms(2) lead_bound [of c ring] by auto
  from recv_loop_delivers [OF assms(1) this assms(3,4), of osec ousec] assms(5)
  obtain n c' ring' buf' osec' ousec' k' where
    "recv_loop env k c ring buf buf_len osec ousec = Some (n, c', ring', buf', osec', ousec', k')"
    "k' \<le> Suc (k + lead c ring)" "delivers x buf_len buf n buf'" by auto
  with lead_bound [of c ring] show ?thesis by (auto simp: raw_socket_recv_def)
qed

theorem raw_socket_recv_delivers_witness:
  "\<exists>n c' ring' buf' osec' ousec' k'.
    raw_socket_recv (\<lambda>_. idle) 0 (Some sample_cursor) sample_ring (Some [0, 0, 0, 0]) 4 None None
      = Some (n, Some c', ring', Some buf', osec', ousec', k') \<and> n = 3 \<and> buf' = [10, 11, 12, 0]"
proof -
  have kernel: "\<forall>j. kernel_ok (ev_kernel idle)" using idle_kernel_ok by simp
  have go: "\<forall>j \<le> length sample_ring. \<not> ev_stop idle" by (simp add: idle_def)
  have len: "unat (4 :: u32) \<le> length [0, 0, 0, 0 :: u8]" by simp
  from raw_socket_recv_delivers [OF kernel go sample_pending(2) len sample_pending(1), of 0 None None]
  show ?thesis by (auto simp: delivers_def sample_hdr_def)
qed

text \<open>
  A requested stop ends a call that is waiting for packets: whatever the kernel does, the call
  returns at the latest at the first turn that sees the request.
\<close>

theorem raw_socket_recv_stops:
  assumes "\<forall>j. kernel_ok (ev_kernel (env j))" "k \<le> j" "ev_stop (env j)" "cursor_ok c ring" "unat buf_len \<le> length buf"
  shows "raw_socket_recv env k (Some c) ring (Some buf) buf_len osec ousec \<noteq> None"
proof -
  obtain n where "j = k + n" using assms(2) le_Suc_ex by blast
  with recv_loop_stops [OF assms(1) _ assms(4,5), of k n osec ousec] assms(3) show ?thesis
    by (auto simp: raw_socket_recv_def)
qed

theorem raw_socket_recv_stops_witness:
  "raw_socket_recv (\<lambda>j. idle\<lparr>ev_stop := 5 \<le> j\<rparr>) 0 (Some sample_cursor) sample_ring (Some [0]) 1 None None \<noteq> None"
proof (rule raw_socket_recv_stops [where j = 5])
  show "\<forall>j. kernel_ok (ev_kernel (idle\<lparr>ev_stop := 5 \<le> j\<rparr>))" using idle_kernel_ok by simp
qed (use sample_pending in simp_all)

end
