(* ===== verification/Raw_Socket.thy ===== *)
theory Raw_Socket
  imports Raw_Ring Bpf
begin

text \<open>
  The rest of \<open>src/src/c/raw_socket.c\<close>: listing devices, opening and closing the socket, attaching a filter,
  reading the counters. Every system call is a parameter that says whether it succeeds (\<open>syscalls\<close>); what a
  successful call does is an update of \<open>os\<close>: the flags of each interface, the number of open descriptors,
  mappings and heap blocks of the process, and the counters and the filter of the socket.
\<close>

subsection \<open>The operating system\<close>

record syscalls =
  ok_socket :: bool
  ok_bindtodevice :: bool
  ok_getflags :: bool
  ok_setflags :: bool
  ok_packet_version :: bool
  ok_rx_ring :: bool
  ok_mmap :: bool
  ok_malloc :: bool
  ok_attach :: bool
  ok_statistics :: bool

record os =
  if_flags :: "string \<Rightarrow> u16"
  fds :: nat
  mappings :: nat
  heap :: nat
  filter_attached :: "sock_filter list option"
  stat_packets :: u32
  stat_drops :: u32

abbreviation IFF_PROMISC :: u16 where "IFF_PROMISC \<equiv> 0x100"
abbreviation IFNAMSIZ :: nat where "IFNAMSIZ \<equiv> 16"
abbreviation RAW_SOCKET_NAME_LEN :: nat where "RAW_SOCKET_NAME_LEN \<equiv> 256"
abbreviation RS_RING_BLOCK_NR :: u32 where "RS_RING_BLOCK_NR \<equiv> 8"

text \<open>\<open>strncpy(dst, src, n - 1)\<close> into a zeroed or afterwards terminated array of \<open>n\<close> characters.\<close>

definition strncpy :: "nat \<Rightarrow> string \<Rightarrow> string" where
  "strncpy n s = take (n - 1) s"

definition close_fd :: "os \<Rightarrow> os" where
  "close_fd s = s\<lparr>fds := fds s - 1, filter_attached := None, stat_packets := 0, stat_drops := 0\<rparr>"

subsection \<open>Devices\<close>

text \<open>The loop of \<open>raw_socket_list_devices\<close> over the list of \<open>getifaddrs\<close>; \<open>None\<close> is an entry without a name.\<close>

fun list_devices_loop :: "int \<Rightarrow> string option list \<Rightarrow> string list \<Rightarrow> string list" where
  "list_devices_loop max_devices [] out = out"
| "list_devices_loop max_devices (i # rest) out =
     (if int (length out) < max_devices then
        (case i of
           None \<Rightarrow> list_devices_loop max_devices rest out
         | Some name \<Rightarrow>
             if name \<in> set out then list_devices_loop max_devices rest out
             else list_devices_loop max_devices rest (out @ [strncpy RAW_SOCKET_NAME_LEN name]))
      else out)"

definition raw_socket_list_devices ::
  "string option list option \<Rightarrow> string list option \<Rightarrow> int \<Rightarrow> (int \<times> string list option) option" where
  "raw_socket_list_devices ifaddrs output max_devices =
     (case output of
        None \<Rightarrow> Some (-1, None)
      | Some old \<Rightarrow>
          if max_devices = 0 then Some (-1, output)
          else (case ifaddrs of
            None \<Rightarrow> Some (-1, output)
          | Some addrs \<Rightarrow>
              let names = list_devices_loop max_devices addrs [] in
              if length names \<le> length old
              then Some (int (length names), Some (names @ drop (length names) old)) else None))"

subsection \<open>Opening and closing\<close>

record raw_socket_ctx =
  stop_requested :: bool
  device_name :: string
  promisc_set_by_us :: bool
  rs_cursor :: cursor

definition raw_socket_open :: "syscalls \<Rightarrow> string option \<Rightarrow> os \<Rightarrow> raw_socket_ctx option \<times> os" where
  "raw_socket_open sys device s =
     (case device of
        None \<Rightarrow> (None, s)
      | Some dev \<Rightarrow>
          if \<not> ok_socket sys then (None, s)
          else
            let s = s\<lparr>fds := fds s + 1, filter_attached := None, stat_packets := 0, stat_drops := 0\<rparr> in
            if \<not> ok_bindtodevice sys then (None, close_fd s)
            else if \<not> ok_getflags sys then (None, close_fd s)
            else
              let ifr_name = strncpy IFNAMSIZ dev;
                flags = if_flags s ifr_name;
                turn_on = (flags AND IFF_PROMISC = 0);
                promisc = (turn_on \<and> ok_setflags sys);
                s = (if promisc then s\<lparr>if_flags := (if_flags s)(ifr_name := flags OR IFF_PROMISC)\<rparr> else s) in
              if \<not> ok_packet_version sys then (None, close_fd s)
              else if \<not> ok_rx_ring sys then (None, close_fd s)
              else if \<not> ok_mmap sys then (None, close_fd s)
              else
                let s = s\<lparr>mappings := mappings s + 1\<rparr> in
                if \<not> ok_malloc sys then (None, close_fd (s\<lparr>mappings := mappings s - 1\<rparr>))
                else
                  (Some \<lparr>stop_requested = False, device_name = strncpy RAW_SOCKET_NAME_LEN dev,
                     promisc_set_by_us = promisc,
                     rs_cursor = \<lparr>block_nr = RS_RING_BLOCK_NR, cur_block = 0, cur_pkt_idx = 0, cur_pkt_offset = 0,
                       cur_num_pkts = 0\<rparr>\<rparr>,
                   s\<lparr>heap := heap s + 1\<rparr>))"

definition raw_socket_close :: "syscalls \<Rightarrow> raw_socket_ctx option \<Rightarrow> os \<Rightarrow> os" where
  "raw_socket_close sys ctx s =
     (case ctx of
        None \<Rightarrow> s
      | Some c \<Rightarrow>
          let s = (if promisc_set_by_us c \<and> ok_getflags sys \<and> ok_setflags sys then
                     let ifr_name = strncpy IFNAMSIZ (device_name c) in
                     s\<lparr>if_flags := (if_flags s)(ifr_name := if_flags s ifr_name AND NOT IFF_PROMISC)\<rparr>
                   else s);
            s = close_fd (s\<lparr>mappings := mappings s - 1\<rparr>) in
          s\<lparr>heap := heap s - 1\<rparr>)"

subsection \<open>The open socket\<close>

definition raw_socket_get_stats ::
  "syscalls \<Rightarrow> raw_socket_ctx option \<Rightarrow> u32 option \<Rightarrow> u32 option \<Rightarrow> os \<Rightarrow> int \<times> u32 option \<times> u32 option \<times> os" where
  "raw_socket_get_stats sys ctx out_packets out_drops s =
     (if ctx = None \<or> out_packets = None \<or> out_drops = None then (-1, out_packets, out_drops, s)
      else if \<not> ok_statistics sys then (-1, out_packets, out_drops, s)
      else (0, Some (stat_packets s), Some (stat_drops s), s\<lparr>stat_packets := 0, stat_drops := 0\<rparr>))"

definition raw_socket_attach_filter ::
  "syscalls \<Rightarrow> raw_socket_ctx option \<Rightarrow> sock_fprog option \<Rightarrow> os \<Rightarrow> int \<times> os" where
  "raw_socket_attach_filter sys ctx prog s =
     (case (ctx, prog) of
        (Some _, Some p) \<Rightarrow>
          if \<not> ok_attach sys then (-1, s)
          else (0, s\<lparr>filter_attached := map_option (take (unat (fprog_len p))) (fprog_filter p)\<rparr>)
      | _ \<Rightarrow> (-1, s))"

definition raw_socket_request_stop :: "raw_socket_ctx option \<Rightarrow> raw_socket_ctx option" where
  "raw_socket_request_stop ctx = map_option (\<lambda>c. c\<lparr>stop_requested := True\<rparr>) ctx"

subsection \<open>Listing keeps the first entry of every name\<close>

text \<open>The distinct entries of a list, in the order of their first occurrence.\<close>

abbreviation firsts :: "'a list \<Rightarrow> 'a list" where
  "firsts xs \<equiv> rev (remdups (rev xs))"

abbreviation names :: "'a option list \<Rightarrow> 'a list" where
  "names addrs \<equiv> map the (filter (\<lambda>i. i \<noteq> None) addrs)"

lemma firsts_append:
  "distinct out \<Longrightarrow> firsts (out @ xs) = out @ firsts (filter (\<lambda>x. x \<notin> set out) xs)"
  by (induction xs rule: rev_induct) (auto simp: distinct_remdups_id)

lemma firsts_seen: "x \<in> set out \<Longrightarrow> distinct out \<Longrightarrow> firsts (out @ x # xs) = firsts (out @ xs)"
  using firsts_append [of out "x # xs"] firsts_append [of out xs] by simp

lemma list_devices_loop_eq:
  assumes "\<forall>name. Some name \<in> set addrs \<longrightarrow> length name < RAW_SOCKET_NAME_LEN" "distinct out"
  shows "list_devices_loop m addrs out = take (max (length out) (nat m)) (firsts (out @ names addrs))"
  using assms
proof (induction addrs arbitrary: out)
  case Nil
  then show ?case by (simp add: distinct_remdups_id)
next
  case (Cons i addrs)
  show ?case
  proof (cases "int (length out) < m")
    case True
    show ?thesis
    proof (cases i)
      case None
      with True Cons show ?thesis by simp
    next
      case (Some name)
      then have copy: "strncpy RAW_SOCKET_NAME_LEN name = name"
        using Cons.prems(1) by (auto simp: strncpy_def less_Suc_eq_le)
      show ?thesis
      proof (cases "name \<in> set out")
        case seen: True
        then have "list_devices_loop m (i # addrs) out = list_devices_loop m addrs out" using True Some by simp
        also have "\<dots> = take (max (length out) (nat m)) (firsts (out @ names addrs))" using Cons by simp
        finally show ?thesis using firsts_seen [OF seen Cons.prems(2), of "names addrs"] Some by simp
      next
        case new: False
        then have "list_devices_loop m (i # addrs) out = list_devices_loop m addrs (out @ [name])"
          using True Some copy by simp
        also have "\<dots> = take (max (Suc (length out)) (nat m)) (firsts ((out @ [name]) @ names addrs))"
          using Cons.IH [of "out @ [name]"] Cons.prems new by simp
        finally show ?thesis using True Some by simp
      qed
    qed
  next
    case False
    then have "max (length out) (nat m) = length out" by simp
    with False show ?thesis using firsts_append [OF Cons.prems(2), of "names (i # addrs)"] by simp
  qed
qed

subsection \<open>Interface flags\<close>

lemma set_then_clear: "f AND p = 0 \<Longrightarrow> (f OR p) AND NOT p = f" for f p :: "'a :: len word"
proof (rule bit_word_eqI)
  fix n assume *: "f AND p = 0" "n < LENGTH('a)"
  have "\<not> (bit f n \<and> bit p n)" using arg_cong [OF *(1), of "\<lambda>w. bit w n"] by (simp add: bit_and_iff)
  then show "bit ((f OR p) AND NOT p) n = bit f n" using *(2) by (auto simp: bit_simps)
qed

lemma strncpy_twice: "strncpy IFNAMSIZ (strncpy RAW_SOCKET_NAME_LEN dev) = strncpy IFNAMSIZ dev"
  by (simp add: strncpy_def)


lemma raw_socket_open_Some:
  assumes "raw_socket_open sys (Some dev) s = (Some c, s')"
  defines "name \<equiv> strncpy IFNAMSIZ dev"
  shows "promisc_set_by_us c \<longleftrightarrow> if_flags s name AND IFF_PROMISC = 0 \<and> ok_setflags sys"
    and "device_name c = strncpy RAW_SOCKET_NAME_LEN dev" "\<not> stop_requested c"
    and "rs_cursor c = \<lparr>block_nr = 8, cur_block = 0, cur_pkt_idx = 0, cur_pkt_offset = 0, cur_num_pkts = 0\<rparr>"
    and "s' = s\<lparr>if_flags := (if promisc_set_by_us c then (if_flags s)(name := if_flags s name OR IFF_PROMISC) else if_flags s),
      fds := fds s + 1, mappings := mappings s + 1, heap := heap s + 1, filter_attached := None,
      stat_packets := 0, stat_drops := 0\<rparr>"
  using assms by (auto simp: raw_socket_open_def Let_def split: if_splits)

subsection \<open>Properties\<close>

text \<open>
  C28: Opening and closing a socket leaves the system as it was: no descriptor, mapping or heap block is
  leaked, and the interface has the flags it had before, promiscuous or not, also when someone else had
  already made it promiscuous. A failed open leaks no descriptor, mapping or heap block either.
\<close>

theorem raw_socket_open_close:
  assumes "ok_getflags sys" "ok_setflags sys" "raw_socket_open sys' (Some dev) s = (r, s1)"
    and "filter_attached s = None" "stat_packets s = 0" "stat_drops s = 0"
  shows "(\<forall>c. r = Some c \<longrightarrow> raw_socket_close sys r s1 = s)
    \<and> (r = None \<longrightarrow> fds s1 = fds s \<and> mappings s1 = mappings s \<and> heap s1 = heap s)"
proof (intro conjI allI impI)
  fix c assume "r = Some c"
  with assms(3) have open_: "raw_socket_open sys' (Some dev) s = (Some c, s1)" by simp
  note o = raw_socket_open_Some [OF open_]
  show "raw_socket_close sys r s1 = s"
    using o assms \<open>r = Some c\<close>
    by (cases s) (auto simp: raw_socket_close_def Let_def close_fd_def strncpy_twice set_then_clear [of _ IFF_PROMISC, simplified])
next
  assume "r = None"
  with assms(3) show "fds s1 = fds s" "mappings s1 = mappings s" "heap s1 = heap s"
    by (auto simp: raw_socket_open_def Let_def close_fd_def split: if_splits)
qed

definition all_ok :: syscalls where
  "all_ok = \<lparr>ok_socket = True, ok_bindtodevice = True, ok_getflags = True, ok_setflags = True, ok_packet_version = True,
     ok_rx_ring = True, ok_mmap = True, ok_malloc = True, ok_attach = True, ok_statistics = True\<rparr>"

definition fresh_os :: os where
  "fresh_os = \<lparr>if_flags = (\<lambda>_. 0x1043), fds = 3, mappings = 0, heap = 0, filter_attached = None, stat_packets = 0, stat_drops = 0\<rparr>"

theorem raw_socket_open_close_witness:
  "\<exists>c s1. raw_socket_open all_ok (Some ''eth0'') fresh_os = (Some c, s1) \<and> if_flags s1 ''eth0'' = 0x1143
    \<and> raw_socket_close all_ok (Some c) s1 = fresh_os"
proof -
  obtain r s1 where r: "raw_socket_open all_ok (Some ''eth0'') fresh_os = (r, s1)" by force
  then obtain c where c: "r = Some c" by (auto simp: raw_socket_open_def all_ok_def fresh_os_def Let_def)
  have "if_flags s1 ''eth0'' = 0x1143"
    using r c by (auto simp: raw_socket_open_def all_ok_def fresh_os_def Let_def strncpy_def)
  with r c raw_socket_open_close [OF _ _ r, of all_ok] show ?thesis by (auto simp: all_ok_def fresh_os_def)
qed

text \<open>
  C35: An open that fails after it has switched the interface to promiscuous mode does not switch it back:
  if the ring cannot be set up, mapped or its context allocated, the caller gets \<open>NULL\<close> and the interface
  stays promiscuous.
\<close>

theorem raw_socket_open_leaves_promisc:
  assumes "ok_socket sys" "ok_bindtodevice sys" "ok_getflags sys" "ok_setflags sys"
    and "\<not> (ok_packet_version sys \<and> ok_rx_ring sys \<and> ok_mmap sys \<and> ok_malloc sys)"
    and "if_flags s (strncpy IFNAMSIZ dev) AND IFF_PROMISC = 0"
  shows "fst (raw_socket_open sys (Some dev) s) = None
    \<and> if_flags (snd (raw_socket_open sys (Some dev) s)) (strncpy IFNAMSIZ dev)
      = if_flags s (strncpy IFNAMSIZ dev) OR IFF_PROMISC"
  using assms by (auto simp: raw_socket_open_def Let_def close_fd_def)

theorem raw_socket_open_leaves_promisc_witness:
  "fst (raw_socket_open (all_ok\<lparr>ok_mmap := False\<rparr>) (Some ''eth0'') fresh_os) = None
    \<and> if_flags (snd (raw_socket_open (all_ok\<lparr>ok_mmap := False\<rparr>) (Some ''eth0'') fresh_os)) ''eth0'' = 0x1143"
  using raw_socket_open_leaves_promisc [of "all_ok\<lparr>ok_mmap := False\<rparr>" fresh_os "''eth0''"]
  by (simp add: all_ok_def fresh_os_def strncpy_def)

text \<open>
  \<open>raw_socket_list_devices\<close> returns every interface once, in the order of \<open>getifaddrs\<close>, up to \<open>max_devices\<close>
  of them, and writes nothing behind them: \<open>getifaddrs\<close> lists an interface once per address.
\<close>

theorem raw_socket_list_devices_correct:
  assumes "\<forall>name. Some name \<in> set addrs \<longrightarrow> length name < 256" "0 < max_devices" "max_devices \<le> int (length old)"
  shows "raw_socket_list_devices (Some addrs) (Some old) max_devices =
    (let devices = take (nat max_devices) (firsts (names addrs)) in
     Some (int (length devices), Some (devices @ drop (length devices) old)))"
  using assms list_devices_loop_eq [OF assms(1), of "[]" max_devices]
  by (auto simp: raw_socket_list_devices_def Let_def)

theorem raw_socket_list_devices_correct_witness:
  "raw_socket_list_devices (Some [Some ''lo'', Some ''eth0'', None, Some ''lo'', Some ''eth0'', Some ''wlan0''])
    (Some (replicate 32 [])) 2 = Some (2, Some ([''lo'', ''eth0''] @ replicate 30 []))"
proof -
  let ?addrs = "[Some ''lo'', Some ''eth0'', None, Some ''lo'', Some ''eth0'', Some ''wlan0'']"
  have "take 2 (firsts (names ?addrs)) = [''lo'', ''eth0'']" by code_simp
  moreover have "replicate 32 ([] :: string) = [] # [] # replicate 30 []" by (simp add: numeral_eq_Suc)
  ultimately show ?thesis
    using raw_socket_list_devices_correct [of ?addrs 2 "replicate 32 []"] by simp
qed

end
