(* ===== verification/Pcap.thy ===== *)
theory Pcap
  imports Prelude
begin

text \<open>
  The \<open>.pcap\<close> writer of \<open>src/src/c/capture_backend_linux.c\<close>. The two header structs are written in the byte
  order of the host (\<open>big\<close>), without padding. A \<open>FILE\<close> is what has reached it; \<open>wr n\<close> is the number of bytes
  the \<open>n\<close>-th \<open>fwrite\<close> manages to write. The reference is a reader that finds out the byte order from
  the magic number.
\<close>

subsection \<open>Files\<close>

record FILE =
  contents :: buf
  writes :: nat

definition fwrite :: "(nat \<Rightarrow> nat) \<Rightarrow> buf \<Rightarrow> FILE \<Rightarrow> bool \<times> FILE" where
  "fwrite wr data f =
     (length data \<le> wr (writes f),
      f\<lparr>contents := contents f @ take (wr (writes f)) data, writes := writes f + 1\<rparr>)"

definition host16 :: "bool \<Rightarrow> u16 \<Rightarrow> buf" where
  "host16 big w = (if big then bytes16 w else rev (bytes16 w))"

definition host32 :: "bool \<Rightarrow> u32 \<Rightarrow> buf" where
  "host32 big w = (if big then bytes32 w else rev (bytes32 w))"

subsection \<open>Headers\<close>

record pcap_global_header_t =
  magic_number :: u32
  version_major :: u16
  version_minor :: u16
  thiszone :: u32
  sigfigs :: u32
  snaplen :: u32
  network :: u32

record pcap_record_header_t =
  ts_sec :: u32
  ts_usec :: u32
  incl_len :: u32
  orig_len :: u32

abbreviation PCAP_MAGIC_MICROSECONDS :: u32 where "PCAP_MAGIC_MICROSECONDS \<equiv> 0xa1b2c3d4"
abbreviation PCAP_LINKTYPE_ETHERNET :: u32 where "PCAP_LINKTYPE_ETHERNET \<equiv> 1"
abbreviation RAW_SOCKET_MAX_FRAME :: u32 where "RAW_SOCKET_MAX_FRAME \<equiv> 65536"

definition global_header_bytes :: "bool \<Rightarrow> pcap_global_header_t \<Rightarrow> buf" where
  "global_header_bytes big h = host32 big (magic_number h) @ host16 big (version_major h) @ host16 big (version_minor h)
     @ host32 big (thiszone h) @ host32 big (sigfigs h) @ host32 big (snaplen h) @ host32 big (network h)"

definition record_header_bytes :: "bool \<Rightarrow> pcap_record_header_t \<Rightarrow> buf" where
  "record_header_bytes big r = host32 big (ts_sec r) @ host32 big (ts_usec r) @ host32 big (incl_len r) @ host32 big (orig_len r)"

subsection \<open>Writing\<close>

definition pcap_header :: pcap_global_header_t where
  "pcap_header = \<lparr>magic_number = PCAP_MAGIC_MICROSECONDS, version_major = 2, version_minor = 4, thiszone = 0,
     sigfigs = 0, snaplen = RAW_SOCKET_MAX_FRAME, network = PCAP_LINKTYPE_ETHERNET\<rparr>"

definition write_pcap_global_header :: "bool \<Rightarrow> (nat \<Rightarrow> nat) \<Rightarrow> FILE \<Rightarrow> int \<times> FILE" where
  "write_pcap_global_header big wr f =
     (let (ok, f) = fwrite wr (global_header_bytes big pcap_header) f in (if ok then 0 else -1, f))"

definition write_pcap_record ::
  "bool \<Rightarrow> (nat \<Rightarrow> nat) \<Rightarrow> FILE \<Rightarrow> buf \<Rightarrow> u32 \<Rightarrow> u32 \<Rightarrow> u32 \<Rightarrow> (int \<times> FILE) option" where
  "write_pcap_record big wr f data len sec usec =
     (let hdr = \<lparr>ts_sec = sec, ts_usec = usec, incl_len = len, orig_len = len\<rparr>;
          (ok, f) = fwrite wr (record_header_bytes big hdr) f in
      if \<not> ok then Some (-1, f)
      else if len > 0 then do {
        bytes \<leftarrow> memcpy_from data 0 (unat len);
        let (ok, f) = fwrite wr bytes f;
        Some (if ok then 0 else -1, f)
      } else Some (0, f))"

subsection \<open>Reference: reading a capture file\<close>

type_synonym captured = "buf \<times> u32 \<times> u32"

definition read32 :: "bool \<Rightarrow> buf \<Rightarrow> nat \<Rightarrow> u32" where
  "read32 big d i = (if big then be32 (d ! i) (d ! (i + 1)) (d ! (i + 2)) (d ! (i + 3))
     else be32 (d ! (i + 3)) (d ! (i + 2)) (d ! (i + 1)) (d ! i))"

function read_records :: "bool \<Rightarrow> buf \<Rightarrow> captured list option" where
  "read_records big d =
     (if d = [] then Some []
      else if length d < 16 then None
      else
        let n = unat (read32 big d 8); rest = drop 16 d in
        if length rest < n then None
        else do {
          frames \<leftarrow> read_records big (drop n rest);
          Some ((take n rest, read32 big d 0, read32 big d 4) # frames)
        })"
  by pat_completeness auto
termination by (relation "measure (\<lambda>(_, d). length d)") auto

declare read_records.simps [simp del]

definition read_pcap :: "buf \<Rightarrow> captured list option" where
  "read_pcap d =
     (if length d < 24 then None
      else if read32 True d 0 = PCAP_MAGIC_MICROSECONDS then read_records True (drop 24 d)
      else if read32 False d 0 = PCAP_MAGIC_MICROSECONDS then read_records False (drop 24 d)
      else None)"

subsection \<open>Writing and reading\<close>

definition record_bytes :: "bool \<Rightarrow> captured \<Rightarrow> buf" where
  "record_bytes big fr = (case fr of (bytes, sec, usec) \<Rightarrow>
     record_header_bytes big \<lparr>ts_sec = sec, ts_usec = usec, incl_len = of_nat (length bytes),
       orig_len = of_nat (length bytes)\<rparr> @ bytes)"

definition pcap_file :: "bool \<Rightarrow> captured list \<Rightarrow> buf" where
  "pcap_file big frames = global_header_bytes big pcap_header @ concat (map (record_bytes big) frames)"

lemma length_host [simp]: "length (host32 big w) = 4" "length (host16 big v) = 2"
  by (simp_all add: host32_def host16_def bytes32_def bytes16_def)

lemma read32_host: "read32 big (host32 big w @ d) 0 = w"
  by (simp add: read32_def host32_def bytes32_def be32_bytes32)

lemma read32_shift: "length a = i \<Longrightarrow> read32 big (a @ d) i = read32 big d 0"
  by (simp add: read32_def nth_append numeral_2_eq_2)

lemma read_record:
  assumes "length bytes < 2 ^ 32"
  shows "read_records big (record_bytes big (bytes, sec, usec) @ d)
    = map_option ((#) (bytes, sec, usec)) (read_records big d)"
proof -
  define n :: u32 where "n = of_nat (length bytes)"
  have n: "unat n = length bytes" using assms by (simp add: n_def unat_of_nat)
  have r: "record_bytes big (bytes, sec, usec) = host32 big sec @ host32 big usec @ host32 big n @ host32 big n @ bytes"
    by (simp add: record_bytes_def record_header_bytes_def n_def)
  have "read32 big (record_bytes big (bytes, sec, usec) @ d) 8 = n"
    using read32_shift [of "host32 big sec @ host32 big usec" 8 big] by (simp add: r read32_host)
  moreover have "read32 big (record_bytes big (bytes, sec, usec) @ d) 4 = usec"
    using read32_shift [of "host32 big sec" 4 big] by (simp add: r read32_host)
  moreover have "read32 big (record_bytes big (bytes, sec, usec) @ d) 0 = sec" by (simp add: r read32_host)
  moreover have "drop 16 (record_bytes big (bytes, sec, usec) @ d) = bytes @ d" by (simp add: r)
  moreover have "record_bytes big (bytes, sec, usec) @ d \<noteq> []" "\<not> length (record_bytes big (bytes, sec, usec) @ d) < 16"
    by (simp_all add: r flip: length_greater_0_conv)
  ultimately show ?thesis
    by (subst read_records.simps) (simp add: n Let_def map_option_case split: option.split)
qed

lemma read_records_all:
  "\<forall>(bytes, sec, usec) \<in> set frames. length bytes < 2 ^ 32 \<Longrightarrow>
    read_records big (concat (map (record_bytes big) frames)) = Some frames"
proof (induction frames)
  case (Cons f frames)
  obtain bytes sec usec where "f = (bytes, sec, usec)" by (cases f)
  with Cons show ?case by (simp add: read_record)
qed (simp add: read_records.simps)

lemma length_global_header: "length (global_header_bytes big h) = 24"
  by (simp add: global_header_bytes_def)

lemma read_pcap_file:
  assumes "\<forall>(bytes, sec, usec) \<in> set frames. length bytes < 2 ^ 32"
  shows "read_pcap (pcap_file big frames) = Some frames"
proof -
  have "read32 big (pcap_file big frames) 0 = PCAP_MAGIC_MICROSECONDS"
    by (simp add: pcap_file_def global_header_bytes_def pcap_header_def read32_host)
  moreover have "read32 True (pcap_file False frames) 0 \<noteq> PCAP_MAGIC_MICROSECONDS"
    by (simp add: pcap_file_def global_header_bytes_def pcap_header_def read32_def host32_def bytes32_def be32_def)
  moreover have "drop 24 (pcap_file big frames) = concat (map (record_bytes big) frames)"
    "\<not> length (pcap_file big frames) < 24"
    by (simp_all add: pcap_file_def length_global_header)
  ultimately show ?thesis
    using read_records_all [OF assms] by (cases big) (auto simp: read_pcap_def)
qed

lemma write_pcap_record_ok:
  assumes "memcpy_from data 0 (unat len) = Some bytes" "write_pcap_record big wr f data len sec usec = Some (0, f')"
  shows "contents f' = contents f @ record_bytes big (bytes, sec, usec)"
proof -
  have n: "length bytes = unat len" using assms(1) by (auto simp: memcpy_from_def split: if_splits)
  have len0: "bytes = []" if "\<not> 0 < len" using that n by (simp add: word_less_nat_alt)
  have "record_bytes big (bytes, sec, usec)
      = record_header_bytes big \<lparr>ts_sec = sec, ts_usec = usec, incl_len = len, orig_len = len\<rparr> @ bytes"
    by (simp add: record_bytes_def n)
  then show ?thesis
    using assms n len0 by (auto simp: write_pcap_record_def fwrite_def Let_def split: if_splits prod.splits)
qed

text \<open>A failed write leaves a prefix of the record in the file.\<close>

lemma write_pcap_record_prefix:
  assumes "write_pcap_record big wr f data len sec usec = Some (rc, f')"
  shows "\<exists>part. contents f' = contents f @ part" "rc = 0 \<or> rc = -1"
  using assms
  by (auto simp: write_pcap_record_def fwrite_def Let_def split: if_splits prod.splits bind_splits)

end
