(* ===== verification/Capture_Loop.thy ===== *)
theory Capture_Loop
  imports Raw_Socket Pcap Packet_Queue
begin

text \<open>
  The capture loop of \<open>run_impl\<close> in \<open>src/src/c/capture_backend_linux.c\<close>: receive a frame, append it to the
  capture file if there is one, and hand it to the callback. The callback is a parameter, a function on
  the caller's state \<open>'u\<close>; what the loop relies on is the locale \<open>frame_callback\<close>, which the callback of
  \<open>main.cpp\<close> satisfies.
\<close>

type_synonym 'u callback = "buf \<Rightarrow> u32 \<Rightarrow> u32 \<Rightarrow> u32 \<Rightarrow> 'u \<Rightarrow> 'u option"

definition record_frame ::
  "bool \<Rightarrow> (nat \<Rightarrow> nat) \<Rightarrow> FILE option \<Rightarrow> buf \<Rightarrow> u32 \<Rightarrow> u32 \<Rightarrow> u32 \<Rightarrow> (int \<times> FILE option) option" where
  "record_frame big wr pf buf n sec usec =
     (case pf of
        None \<Rightarrow> Some (0, None)
      | Some f \<Rightarrow> do { (rc, f) \<leftarrow> write_pcap_record big wr f buf n sec usec; Some (rc, Some f) })"

type_synonym 'u run_result = "int \<times> cursor \<times> ring \<times> buf \<times> FILE option \<times> 'u \<times> nat"

partial_function (option) run_loop ::
  "(nat \<Rightarrow> event) \<Rightarrow> bool \<Rightarrow> (nat \<Rightarrow> nat) \<Rightarrow> 'u callback \<Rightarrow> nat \<Rightarrow> cursor \<Rightarrow> ring \<Rightarrow> buf \<Rightarrow> FILE option \<Rightarrow> 'u \<Rightarrow>
    'u run_result option" where
  "run_loop env big wr cb k c ring buf pf user = do {
     (n, c, ring, buf, sec, usec, k) \<leftarrow>
       raw_socket_recv env k (Some c) ring (Some buf) RAW_SOCKET_MAX_FRAME (Some 0) (Some 0);
     if n = RAW_SOCKET_STOPPED then Some (0, the c, ring, the buf, pf, user, k)
     else if n < 0 then Some (-1, the c, ring, the buf, pf, user, k)
     else do {
       (rc, pf) \<leftarrow> record_frame big wr pf (the buf) (word_of_int n) (the sec) (the usec);
       if rc \<noteq> 0 then Some (-1, the c, ring, the buf, pf, user, k)
       else do {
         user \<leftarrow> cb (the buf) (word_of_int n) (the sec) (the usec) user;
         run_loop env big wr cb k (the c) ring (the buf) pf user
       }
     }
   }"

text \<open>
  The callback of \<open>main.cpp\<close>: \<open>push\<close> copies the frame. The caller's state is the sequence of frames pushed so
  far; how the queue passes them on is the subject of \<open>Packet_Queue\<close>.
\<close>

definition queue_push_callback :: "CapturedFrame list callback" where
  "queue_push_callback packet len sec usec pushed = do {
     frame \<leftarrow> captured_frame packet len sec usec;
     Some (pushed @ [frame])
   }"

subsection \<open>Reference: what a capture delivers\<close>

text \<open>The frame of a ring packet, and a run of the callback over a list of frames.\<close>

definition frame_of :: "tpacket3_hdr \<Rightarrow> captured" where
  "frame_of x = (take (min (unat (tp_snaplen x)) 65536) (drop (unat (tp_mac x)) (hdr_mem x)), tp_sec x, tp_nsec x div 1000)"

fun deliver :: "'u callback \<Rightarrow> captured list \<Rightarrow> 'u \<Rightarrow> 'u option" where
  "deliver cb [] user = Some user"
| "deliver cb ((bytes, sec, usec) # frames) user = do {
     user \<leftarrow> cb bytes (of_nat (length bytes)) sec usec user;
     deliver cb frames user }"

text \<open>
  \<open>pf'\<close> is \<open>pf\<close> with the records of \<open>frames\<close> appended and, if the last write failed, a part of one more.
\<close>

definition file_holds :: "bool \<Rightarrow> FILE option \<Rightarrow> FILE option \<Rightarrow> captured list \<Rightarrow> bool \<Rightarrow> bool" where
  "file_holds big pf pf' frames complete \<longleftrightarrow>
     (case (pf, pf') of
        (None, None) \<Rightarrow> complete
      | (Some f, Some f') \<Rightarrow> (\<exists>part. contents f' = contents f @ concat (map (record_bytes big) frames) @ part
          \<and> (complete \<longrightarrow> part = []))
      | _ \<Rightarrow> False)"

text \<open>
  The packets of the ring that the run has taken: \<open>xs\<close> delivered and recorded, then possibly one, \<open>ys\<close>, whose
  record could not be written.
\<close>

definition run_ok :: "bool \<Rightarrow> 'u callback \<Rightarrow> cursor \<Rightarrow> ring \<Rightarrow> buf \<Rightarrow> FILE option \<Rightarrow> 'u \<Rightarrow> 'u run_result \<Rightarrow> bool" where
  "run_ok big cb c ring buf pf user r \<longleftrightarrow>
     (case r of (res, c', ring', buf', pf', user', k') \<Rightarrow>
        cursor_ok c' ring' \<and> (res = 0 \<or> res = -1) \<and> length buf' = length buf
        \<and> (\<exists>xs ys later. pending c ring @ later = xs @ ys @ pending c' ring' \<and> length ys \<le> 1
             \<and> (res = 0 \<longrightarrow> ys = []) \<and> deliver cb (map frame_of xs) user = Some user'
             \<and> file_holds big pf pf' (map frame_of xs) (ys = [])))"

subsection \<open>One frame\<close>

lemma delivered_frame:
  assumes "delivers x 65536 buf n buf'" "hdr_ok x" "length buf = 65536"
  shows "0 \<le> n" "buf_ok buf' (word_of_int n)" "take (unat (word_of_int n :: u32)) buf' = fst (frame_of x)"
    "word_of_int n = (of_nat (length (fst (frame_of x))) :: u32)" "length (fst (frame_of x)) \<le> 65536"
proof -
  define m where "m = min (unat (tp_snaplen x)) 65536"
  have b: "buf' = take m (drop (unat (tp_mac x)) (hdr_mem x)) @ drop m buf" and n0: "n = sint (of_nat m :: u32)"
    using assms(1) by (simp_all add: delivers_def m_def Let_def)
  have m: "m \<le> 65536" by (simp add: m_def)
  have len: "length (take m (drop (unat (tp_mac x)) (hdr_mem x))) = m" using assms(2) by (simp add: hdr_ok_def m_def)
  have n: "word_of_int n = (of_nat m :: u32)" by (simp add: n0)
  have u: "unat (of_nat m :: u32) = m" using m by (simp add: unat_of_nat)
  have fr: "fst (frame_of x) = take m (drop (unat (tp_mac x)) (hdr_mem x))" by (simp add: frame_of_def m_def)
  show "0 \<le> n" unfolding n0 using m by (simp add: signed_of_nat signed_take_bit_int_eq_self)
  show "buf_ok buf' (word_of_int n)" using m len assms(3) by (simp add: buf_ok_def n u b)
  show "take (unat (word_of_int n :: u32)) buf' = fst (frame_of x)" using len by (simp add: n u b fr)
  show "word_of_int n = (of_nat (length (fst (frame_of x))) :: u32)" "length (fst (frame_of x)) \<le> 65536"
    using m len by (simp_all add: n fr)
qed


lemma recv_loop_turns: "recv_loop env k c ring buf buf_len osec ousec = Some r \<Longrightarrow> k < snd (snd (snd (snd (snd (snd r)))))"
proof (erule recv_loop.raw_induct [rotated])
  fix loop :: "(nat \<Rightarrow> event) \<Rightarrow> nat \<Rightarrow> cursor \<Rightarrow> ring \<Rightarrow> buf \<Rightarrow> u32 \<Rightarrow> u32 option \<Rightarrow> u32 option \<Rightarrow> recv_result option"
  fix env k c ring buf buf_len osec ousec r
  assume IH: "\<And>env k c ring buf buf_len osec ousec r. loop env k c ring buf buf_len osec ousec = Some r \<Longrightarrow>
      k < snd (snd (snd (snd (snd (snd r)))))"
    and body: "(let ring = ev_kernel (env k) ring in
      if ev_stop (env k) then Some (RAW_SOCKET_STOPPED, c, ring, buf, osec, ousec, Suc k)
      else do {
        t \<leftarrow> recv_turn c ring buf buf_len osec ousec;
        case t of
          Wait \<Rightarrow>
            if ev_poll (env k) < 0 \<and> \<not> ev_eintr (env k) then Some (-1, c, ring, buf, osec, ousec, Suc k)
            else loop env (Suc k) c ring buf buf_len osec ousec
        | Again c ring \<Rightarrow> loop env (Suc k) c ring buf buf_len osec ousec
        | Frame n c ring buf osec ousec \<Rightarrow> Some (n, c, ring, buf, osec, ousec, Suc k)
      }) = Some r"
  show "k < snd (snd (snd (snd (snd (snd r)))))"
    using body
    by (auto simp: Let_def split: if_splits bind_splits turn.splits dest!: IH)
qed

text \<open>What one call of \<open>raw_socket_recv\<close> with the buffer of \<open>run_impl\<close> does.\<close>

lemma recv_cases:
  assumes "\<forall>j. kernel_ok (ev_kernel (env j))" "cursor_ok c ring" "length buf = 65536"
    and "raw_socket_recv env k (Some c) ring (Some buf) 65536 (Some 0) (Some 0) = Some (n, oc, ring', ob, osec, ousec, k')"
  obtains (none) c' where "n = -2 \<or> n = -1" "oc = Some c'" "ob = Some buf" "cursor_ok c' ring'"
      "prefix (pending c ring) (pending c' ring')"
  | (frame) x later c' buf' where "0 \<le> n" "oc = Some c'" "ob = Some buf'" "cursor_ok c' ring'" "length buf' = 65536"
      "pending c ring @ later = x # pending c' ring'" "buf_ok buf' (word_of_int n)"
      "(take (unat (word_of_int n :: u32)) buf', the osec, the ousec) = frame_of x"
      "word_of_int n = (of_nat (length (fst (frame_of x))) :: u32)"
proof -
  obtain c' buf' where r: "oc = Some c'" "ob = Some buf'"
      "recv_loop env k c ring buf 65536 (Some 0) (Some 0) = Some (n, c', ring', buf', osec, ousec, k')"
    using assms(4) by (auto simp: raw_socket_recv_def split: bind_splits)
  from recv_loop_ok [OF r(3)] assms(1-3)
  have ok: "recv_ok c ring buf 65536 (Some 0) (Some 0) (n, c', ring', buf', osec, ousec, k')" by simp
  then consider "n = -2 \<or> n = -1" "prefix (pending c ring) (pending c' ring')" "buf' = buf" "cursor_ok c' ring'"
    | x later where "pending c ring @ later = x # pending c' ring'" "delivers x 65536 buf n buf'" "cursor_ok c' ring'"
      "length buf' = 65536" "osec = Some (tp_sec x)" "ousec = Some (tp_nsec x div 1000)"
    using assms(3) by (auto simp: recv_ok_def)
  then show thesis
  proof cases
    case 1
    with r show thesis by (intro none) auto
  next
    case 2
    then have "hdr_ok x" by (simp add: delivers_def)
    from delivered_frame [OF 2(2) this assms(3)] 2 r show thesis
      by (intro frame [of c' buf' later x]) (auto simp: frame_of_def)
  qed
qed

lemma record_frame_ok:
  fixes pf :: "FILE option"
  assumes "buf_ok buf n"
  obtains rc pf' where "record_frame big wr pf buf n sec usec = Some (rc, pf')" "rc = 0 \<or> rc = -1"
    "file_holds big pf pf' (if rc = 0 then [(take (unat n) buf, sec, usec)] else []) (rc = 0)"
proof (cases pf)
  case None
  then show thesis by (intro that [of 0 None]) (simp_all add: record_frame_def file_holds_def)
next
  case (Some f)
  have m: "memcpy_from buf 0 (unat n) = Some (take (unat n) buf)" using assms by (simp add: memcpy_from_def buf_ok_def)
  then obtain rc f' where w: "write_pcap_record big wr f buf n sec usec = Some (rc, f')"
    by (cases "write_pcap_record big wr f buf n sec usec") (auto simp: write_pcap_record_def Let_def split: prod.splits if_splits)
  have "file_holds big pf (Some f') (if rc = 0 then [(take (unat n) buf, sec, usec)] else []) (rc = 0)"
    using write_pcap_record_ok [OF m] write_pcap_record_prefix(1) [OF w] w Some by (auto simp: file_holds_def)
  with w write_pcap_record_prefix(2) [OF w] Some show thesis
    by (intro that [of rc "Some f'"]) (simp_all add: record_frame_def)
qed

lemma file_holds_append:
  "file_holds big f g xs True \<Longrightarrow> file_holds big g h ys b \<Longrightarrow> file_holds big f h (xs @ ys) b"
  by (auto simp: file_holds_def split: option.splits prod.splits)


lemma run_ok_step:
  assumes "run_ok big cb c' ring' buf' pf' user' r" "pending c ring @ later = x # pending c' ring'"
    and "cb (fst (frame_of x)) (of_nat (length (fst (frame_of x)))) (fst (snd (frame_of x))) (snd (snd (frame_of x))) user = Some user'"
    and "file_holds big pf pf' [frame_of x] True" "length buf' = length buf"
  shows "run_ok big cb c ring buf pf user r"
proof -
  obtain res c2 ring2 buf2 pf2 user2 k2 where r: "r = (res, c2, ring2, buf2, pf2, user2, k2)" by (cases r)
  with assms(1) obtain xs ys later2 where run: "cursor_ok c2 ring2" "res = 0 \<or> res = -1" "length buf2 = length buf'"
    "pending c' ring' @ later2 = xs @ ys @ pending c2 ring2" "length ys \<le> 1" "res = 0 \<longrightarrow> ys = []"
    "deliver cb (map frame_of xs) user' = Some user2" "file_holds big pf' pf2 (map frame_of xs) (ys = [])"
    by (auto simp: run_ok_def)
  have "pending c ring @ later @ later2 = (x # xs) @ ys @ pending c2 ring2"
    using run(4) assms(2) by (metis append_Cons append_assoc)
  moreover have "deliver cb (map frame_of (x # xs)) user = Some user2"
    using assms(3) run(7) by (cases "frame_of x") simp
  moreover have "file_holds big pf pf2 (map frame_of (x # xs)) (ys = [])"
    using file_holds_append [OF assms(4) run(8)] by simp
  ultimately show ?thesis
    unfolding run_ok_def r prod.case using run(1-3,5,6) assms(5)
    by (intro conjI exI [of _ "x # xs"] exI [of _ ys] exI [of _ "later @ later2"]) simp_all
qed

subsection \<open>The loop\<close>

locale frame_callback =
  fixes cb :: "'u callback"
  assumes reads_inside: "buf_ok d n \<Longrightarrow> cb d n sec usec user = cb (take (unat n) d) n sec usec user"
    and total: "buf_ok d n \<Longrightarrow> \<exists>user'. cb d n sec usec user = Some user'"
begin

lemma run_loop_body:
  assumes "\<forall>j. kernel_ok (ev_kernel (env j))" "cursor_ok c ring" "length buf = 65536"
    and body: "do {
     (n, c, ring, buf, sec, usec, k) \<leftarrow>
       raw_socket_recv env k (Some c) ring (Some buf) RAW_SOCKET_MAX_FRAME (Some 0) (Some 0);
     if n = RAW_SOCKET_STOPPED then Some (0, the c, ring, the buf, pf, user, k)
     else if n < 0 then Some (-1, the c, ring, the buf, pf, user, k)
     else do {
       (rc, pf) \<leftarrow> record_frame big wr pf (the buf) (word_of_int n) (the sec) (the usec);
       if rc \<noteq> 0 then Some (-1, the c, ring, the buf, pf, user, k)
       else do {
         user \<leftarrow> cb (the buf) (word_of_int n) (the sec) (the usec) user;
         loop k (the c) ring (the buf) pf user
       }
     }
   } = Some r"
    and IH: "\<And>k c ring buf pf user. loop k c ring buf pf user = Some r \<Longrightarrow> cursor_ok c ring \<Longrightarrow> length buf = 65536 \<Longrightarrow>
      run_ok big cb c ring buf pf user r"
  shows "run_ok big cb c ring buf pf user r"
proof -
  obtain n oc ring' ob osec ousec k' where
    recv: "raw_socket_recv env k (Some c) ring (Some buf) 65536 (Some 0) (Some 0) = Some (n, oc, ring', ob, osec, ousec, k')"
    using body by (auto split: bind_splits)
  show ?thesis
  proof (rule recv_cases [OF assms(1-3) recv])
    fix c' assume none: "n = -2 \<or> n = -1" "oc = Some c'" "ob = Some buf" "cursor_ok c' ring'" "prefix (pending c ring) (pending c' ring')"
    then obtain res where r: "r = (res, c', ring', buf, pf, user, k')" "res = 0 \<or> res = -1" using body recv by auto
    obtain later where "pending c ring @ later = pending c' ring'" using none(5) by (auto elim: prefixE)
    moreover have "file_holds big pf pf [] True" by (simp add: file_holds_def split: option.split)
    ultimately show ?thesis
      unfolding run_ok_def r(1) prod.case using r(2) none(4)
      by (intro conjI exI [of _ "[]"] exI [of _ later]) auto
  next
    fix x later c' buf'
    assume fr: "0 \<le> n" "oc = Some c'" "ob = Some buf'" "cursor_ok c' ring'" "length buf' = 65536"
      "pending c ring @ later = x # pending c' ring'" "buf_ok buf' (word_of_int n)"
      "(take (unat (word_of_int n :: u32)) buf', the osec, the ousec) = frame_of x"
      "word_of_int n = (of_nat (length (fst (frame_of x))) :: u32)"
    obtain rc pf' where rec: "record_frame big wr pf buf' (word_of_int n) (the osec) (the ousec) = Some (rc, pf')"
      "rc = 0 \<or> rc = -1" "file_holds big pf pf' (if rc = 0 then [frame_of x] else []) (rc = 0)"
      using record_frame_ok [OF fr(7), of big wr pf "the osec" "the ousec"] fr(8) by metis
    show ?thesis
    proof (cases "rc = 0")
      case False
      then have r: "r = (-1, c', ring', buf', pf', user, k')" using body recv fr rec(1) by auto
      show ?thesis
        unfolding run_ok_def r prod.case using False fr rec(3) assms(3)
        by (intro conjI exI [of _ "[]"] exI [of _ "[x]"] exI [of _ later]) auto
    next
      case True
      obtain user' where u: "cb buf' (word_of_int n) (the osec) (the ousec) user = Some user'"
        using total [OF fr(7)] by blast
      then have "loop k' c' ring' buf' pf' user' = Some r" using body recv fr rec(1) True by auto
      from IH [OF this fr(4,5)] have "run_ok big cb c' ring' buf' pf' user' r" .
      then show ?thesis
      proof (rule run_ok_step [OF _ fr(6)])
        show "cb (fst (frame_of x)) (of_nat (length (fst (frame_of x)))) (fst (snd (frame_of x))) (snd (snd (frame_of x))) user
            = Some user'"
          using u reads_inside [OF fr(7), of "the osec" "the ousec" user]
          by (subst fr(9) [symmetric]) (simp flip: fr(8))
      qed (use rec(3) True fr(5) assms(3) in simp_all)
    qed
  qed
qed

lemma run_loop_ok:
  assumes "run_loop env big wr cb k c ring buf pf user = Some r"
    and "\<forall>j. kernel_ok (ev_kernel (env j))" "cursor_ok c ring" "length buf = 65536"
  shows "run_ok big cb c ring buf pf user r"
proof -
  have "run_loop env big wr f k c ring buf pf user = Some r \<Longrightarrow>
      f = cb \<longrightarrow> (\<forall>j. kernel_ok (ev_kernel (env j))) \<longrightarrow> cursor_ok c ring \<longrightarrow> length buf = 65536 \<longrightarrow>
      run_ok big f c ring buf pf user r" for f
  proof (erule run_loop.raw_induct [rotated], intro impI)
    fix loop :: "(nat \<Rightarrow> event) \<Rightarrow> bool \<Rightarrow> (nat \<Rightarrow> nat) \<Rightarrow> 'u callback \<Rightarrow> nat \<Rightarrow> cursor \<Rightarrow> ring \<Rightarrow> buf \<Rightarrow> FILE option \<Rightarrow> 'u \<Rightarrow>
      'u run_result option"
    fix env big wr f k c ring buf pf user r
    assume IH: "\<And>env big wr f k c ring buf pf user r. loop env big wr f k c ring buf pf user = Some r \<Longrightarrow>
        f = cb \<longrightarrow> (\<forall>j. kernel_ok (ev_kernel (env j))) \<longrightarrow> cursor_ok c ring \<longrightarrow> length buf = 65536 \<longrightarrow>
        run_ok big f c ring buf pf user r"
      and body: "do {
       (n, c, ring, buf, sec, usec, k) \<leftarrow>
         raw_socket_recv env k (Some c) ring (Some buf) RAW_SOCKET_MAX_FRAME (Some 0) (Some 0);
       if n = RAW_SOCKET_STOPPED then Some (0, the c, ring, the buf, pf, user, k)
       else if n < 0 then Some (-1, the c, ring, the buf, pf, user, k)
       else do {
         (rc, pf) \<leftarrow> record_frame big wr pf (the buf) (word_of_int n) (the sec) (the usec);
         if rc \<noteq> 0 then Some (-1, the c, ring, the buf, pf, user, k)
         else do {
           user \<leftarrow> f (the buf) (word_of_int n) (the sec) (the usec) user;
           loop env big wr f k (the c) ring (the buf) pf user
         }
       }
     } = Some r"
      and ok: "f = cb" "\<forall>j. kernel_ok (ev_kernel (env j))" "cursor_ok c ring" "length buf = 65536"
    show "run_ok big f c ring buf pf user r"
      using run_loop_body [OF ok(2-4), where loop = "loop env big wr cb"] body ok(1,2) IH by blast
  qed
  with assms show ?thesis by simp
qed

text \<open>Once a stop has been requested for good, the loop ends.\<close>

lemma run_loop_stops:
  assumes "\<forall>j. kernel_ok (ev_kernel (env j))" "\<forall>j \<ge> m. ev_stop (env j)" "cursor_ok c ring" "length buf = 65536"
  shows "\<exists>r. run_loop env big wr cb k c ring buf pf user = Some r"
  using assms(3,4)
proof (induction "m - k" arbitrary: k c ring buf pf user rule: less_induct)
  case less
  have len: "unat (65536 :: u32) \<le> length buf" using less.prems by simp
  have stop: "ev_stop (env (k + (m - k)))" using assms(2) by simp
  from recv_loop_stops [OF assms(1) stop less.prems(1) len] obtain n c' ring' buf' osec ousec k' where
    recv_loop: "recv_loop env k c ring buf 65536 (Some 0) (Some 0) = Some (n, c', ring', buf', osec, ousec, k')" by (metis surj_pair)
  then have recv: "raw_socket_recv env k (Some c) ring (Some buf) 65536 (Some 0) (Some 0)
      = Some (n, Some c', ring', Some buf', osec, ousec, k')"
    by (simp add: raw_socket_recv_def)
  show ?case
  proof (rule recv_cases [OF assms(1) less.prems recv])
    assume "n = -2 \<or> n = -1"
    then show ?thesis using recv by (subst run_loop.simps) auto
  next
    fix x later c2 buf2
    assume fr: "0 \<le> n" "Some c' = Some c2" "Some buf' = Some buf2" "cursor_ok c2 ring'" "length buf2 = 65536" "buf_ok buf2 (word_of_int n)"
    then obtain rc pf' where rec: "record_frame big wr pf buf' (word_of_int n) (the osec) (the ousec) = Some (rc, pf')"
      using record_frame_ok by blast
    obtain user' where u: "cb buf' (word_of_int n) (the osec) (the ousec) user = Some user'" using total fr by blast
    have "k < m" 
    proof (rule ccontr)
      assume "\<not> k < m"
      then have "ev_stop (env k)" using assms(2) by simp
      then have "n = -2" using recv_loop by (subst (asm) recv_loop.simps) (simp add: Let_def)
      with fr(1) show False by simp
    qed
    moreover have "k < k'" using recv_loop_turns [OF recv_loop] by simp
    ultimately have "\<exists>r. run_loop env big wr cb k' c' ring' buf' pf' user' = Some r"
      using fr by (intro less.hyps) auto
    then show ?thesis using recv rec u fr(1) by (subst run_loop.simps) auto
  qed
qed

end

text \<open>With any callback, the loop returns 0 or -1 and neither opens nor drops the capture file.\<close>

lemma record_frame_keeps: "record_frame big wr pf buf n sec usec = Some (rc, pf') \<Longrightarrow> pf' = None \<longleftrightarrow> pf = None"
  by (auto simp: record_frame_def split: option.splits bind_splits)

lemma run_loop_shape:
  assumes "run_loop env big wr cb k c ring buf pf user = Some r"
  shows "(fst r = 0 \<or> fst r = -1) \<and> (fst (snd (snd (snd (snd r)))) = None \<longleftrightarrow> pf = None)"
  using assms
proof (rule run_loop.raw_induct [rotated])
  fix loop :: "(nat \<Rightarrow> event) \<Rightarrow> bool \<Rightarrow> (nat \<Rightarrow> nat) \<Rightarrow> 'u callback \<Rightarrow> nat \<Rightarrow> cursor \<Rightarrow> ring \<Rightarrow> buf \<Rightarrow> FILE option \<Rightarrow> 'u \<Rightarrow>
    'u run_result option"
  fix env big wr f k c ring buf pf user r
  assume IH: "\<And>env big wr f k c ring buf pf user r. loop env big wr f k c ring buf pf user = Some r \<Longrightarrow>
      (fst r = 0 \<or> fst r = -1) \<and> (fst (snd (snd (snd (snd r)))) = None \<longleftrightarrow> pf = None)"
    and body: "do {
     (n, c, ring, buf, sec, usec, k) \<leftarrow>
       raw_socket_recv env k (Some c) ring (Some buf) RAW_SOCKET_MAX_FRAME (Some 0) (Some 0);
     if n = RAW_SOCKET_STOPPED then Some (0, the c, ring, the buf, pf, user, k)
     else if n < 0 then Some (-1, the c, ring, the buf, pf, user, k)
     else do {
       (rc, pf) \<leftarrow> record_frame big wr pf (the buf) (word_of_int n) (the sec) (the usec);
       if rc \<noteq> 0 then Some (-1, the c, ring, the buf, pf, user, k)
       else do {
         user \<leftarrow> f (the buf) (word_of_int n) (the sec) (the usec) user;
         loop env big wr f k (the c) ring (the buf) pf user
       }
     }
   } = Some r"
  show "(fst r = 0 \<or> fst r = -1) \<and> (fst (snd (snd (snd (snd r)))) = None \<longleftrightarrow> pf = None)"
    using body by (auto split: bind_splits if_splits dest!: IH record_frame_keeps)
qed

text \<open>The callback of \<open>main.cpp\<close> copies exactly the bytes it is told about.\<close>

definition captured_of :: "captured \<Rightarrow> CapturedFrame" where
  "captured_of fr = (case fr of (bytes, sec, usec) \<Rightarrow> \<lparr>cf_data = bytes, cf_ts_seconds = sec, cf_ts_microseconds = usec\<rparr>)"

lemma captured_of_inj: "captured_of a = captured_of b \<longleftrightarrow> a = b"
  by (cases a; cases b) (auto simp: captured_of_def)

lemma queue_push_callback_eq:
  "buf_ok d n \<Longrightarrow> queue_push_callback d n sec usec pushed = Some (pushed @ [captured_of (take (unat n) d, sec, usec)])"
  by (simp add: queue_push_callback_def captured_frame_def captured_of_def memcpy_from_def buf_ok_def)

interpretation queue_push: frame_callback queue_push_callback
proof
  fix d n sec usec and user :: "CapturedFrame list" assume d: "buf_ok d n"
  then have "buf_ok (take (unat n) d) n" by (simp add: buf_ok_def)
  with d show "queue_push_callback d n sec usec user = queue_push_callback (take (unat n) d) n sec usec user"
    "\<exists>user'. queue_push_callback d n sec usec user = Some user'"
    by (simp_all add: queue_push_callback_eq)
qed

lemma deliver_queue_push:
  "\<forall>(bytes, sec, usec) \<in> set frames. length bytes < 2 ^ 32 \<Longrightarrow>
    deliver queue_push_callback frames pushed = Some (pushed @ map captured_of frames)"
proof (induction frames arbitrary: pushed)
  case (Cons f frames)
  obtain bytes sec usec where f: "f = (bytes, sec, usec)" by (cases f)
  with Cons.prems have "unat (of_nat (length bytes) :: u32) = length bytes" by (simp add: unat_of_nat)
  then have "queue_push_callback bytes (of_nat (length bytes)) sec usec pushed = Some (pushed @ [captured_of f])"
    using queue_push_callback_eq [of bytes "of_nat (length bytes)"] by (simp add: buf_ok_def f)
  with Cons f show ?case by simp
qed simp

lemma frame_of_short: "(bytes, sec, usec) = frame_of x \<Longrightarrow> length bytes < 2 ^ 32 \<and> length bytes \<le> 65536"
  by (simp add: frame_of_def min_def)

end
