(* ===== verification/Capture_Backend.thy ===== *)
theory Capture_Backend
  imports Capture_Loop Capfilter
begin

text \<open>
  \<open>src/src/c/capture_backend_linux.c\<close>: \<open>run_impl\<close> from compiling the filter to closing the socket, with every
  error path, the functions around it, and the interplay of the \<open>SIGINT\<close> handler with the end of a run.
  The process state has the system resources, the live socket contexts by address, the file-scope
  variables, the handler of \<open>SIGINT\<close> and the files. What the system answers in a run is the record \<open>world\<close>.
  Diagnostics on \<open>stderr\<close> are not part of the state.
\<close>

subsection \<open>State\<close>

datatype sighandler = SIG_DFL | SIG_IGN | On_sigint | Other_handler nat

record capture_stats_t =
  packets_captured :: u32
  packets_dropped :: u32

record proc =
  p_os :: os
  contexts :: "nat \<Rightarrow> raw_socket_ctx option"
  g_active_ctx :: "nat option"
  g_last_stats :: capture_stats_t
  g_last_stats_valid :: bool
  sigint :: sighandler
  files :: "string \<Rightarrow> buf option"
  open_files :: nat

record world =
  w_mem_ok :: bool
  w_err :: string
  w_open :: syscalls
  w_addr :: nat
  w_ring :: ring
  w_fopen :: bool
  w_big :: bool
  w_fwrite :: "nat \<Rightarrow> nat"
  w_signal :: bool
  w_events :: "nat \<Rightarrow> event"
  w_restore :: bool
  w_fclose :: bool
  w_flushed :: nat
  w_counted :: capture_stats_t
  w_close :: syscalls

subsection \<open>Stopping\<close>

text \<open>\<open>None\<close> is a write through a pointer to a context that is gone.\<close>

definition request_stop_impl :: "proc \<Rightarrow> proc option" where
  "request_stop_impl p =
     (case g_active_ctx p of
        None \<Rightarrow> Some p
      | Some a \<Rightarrow> (case contexts p a of
            None \<Rightarrow> None
          | Some c \<Rightarrow> Some (p\<lparr>contexts := (contexts p)(a := raw_socket_request_stop (Some c))\<rparr>)))"

definition on_sigint :: "int \<Rightarrow> proc \<Rightarrow> proc option" where
  "on_sigint signum p = request_stop_impl p"

subsection \<open>Devices\<close>

record capture_device_t =
  cd_name :: string
  cd_description :: string

abbreviation CAPTURE_MAX_DEVICES :: nat where "CAPTURE_MAX_DEVICES \<equiv> 32"
abbreviation CAPTURE_NAME_LEN :: nat where "CAPTURE_NAME_LEN \<equiv> 256"

fun copy_devices :: "string list \<Rightarrow> capture_device_t list \<Rightarrow> capture_device_t list option" where
  "copy_devices [] output = Some output"
| "copy_devices (name # rest) [] = None"
| "copy_devices (name # rest) (d # output) =
     map_option ((#) \<lparr>cd_name = strncpy CAPTURE_NAME_LEN name, cd_description = []\<rparr>) (copy_devices rest output)"

definition list_devices_impl ::
  "string option list option \<Rightarrow> string list \<Rightarrow> capture_device_t list \<Rightarrow> int \<Rightarrow> (int \<times> capture_device_t list) option" where
  "list_devices_impl ifaddrs raw_devices output max_devices = do {
     let max_devices = (if max_devices > int CAPTURE_MAX_DEVICES then int CAPTURE_MAX_DEVICES else max_devices);
     (count, raw) \<leftarrow> raw_socket_list_devices ifaddrs (Some raw_devices) max_devices;
     if count < 0 then Some (-1, output)
     else do {
       output \<leftarrow> copy_devices (take (nat count) (the raw)) output;
       Some (count, output)
     }
   }"

subsection \<open>Running\<close>

text \<open>The heap block of a compiled program is freed by \<open>capfilter_free\<close>.\<close>

definition free_program :: "sock_fprog option \<Rightarrow> proc \<Rightarrow> sock_fprog option \<times> proc" where
  "free_program prog p =
     (capfilter_free prog,
      if prog \<noteq> None \<and> fprog_filter (the prog) \<noteq> None then p\<lparr>p_os := (p_os p)\<lparr>heap := heap (p_os p) - 1\<rparr>\<rparr> else p)"

definition compile_filter :: "world \<Rightarrow> string option \<Rightarrow> proc \<Rightarrow> (int \<times> sock_fprog option \<times> proc) option" where
  "compile_filter w bpf_filter p =
     (let filter_prog = Some \<lparr>fprog_len = 0, fprog_filter = None\<rparr> in
      if bpf_filter \<noteq> None \<and> bpf_filter \<noteq> Some [] then do {
        (rc, filter_prog, err) \<leftarrow> capfilter_compile (w_mem_ok w) bpf_filter filter_prog (Some (w_err w)) 128;
        Some (if rc \<noteq> 0 then -1 else 0, filter_prog,
          if filter_prog \<noteq> None \<and> fprog_filter (the filter_prog) \<noteq> None
          then p\<lparr>p_os := (p_os p)\<lparr>heap := heap (p_os p) + 1\<rparr>\<rparr> else p)
      }
      else Some (0, filter_prog, p))"

definition close_context :: "world \<Rightarrow> raw_socket_ctx \<Rightarrow> proc \<Rightarrow> proc" where
  "close_context w ctx p =
     p\<lparr>p_os := raw_socket_close (w_close w) (Some ctx) (p_os p), contexts := (contexts p)(w_addr w := None)\<rparr>"

text \<open>From the compiled program to an open socket with the filter attached; the program is freed on every path.\<close>

definition open_and_attach :: "world \<Rightarrow> string option \<Rightarrow> sock_fprog option \<Rightarrow> proc \<Rightarrow> raw_socket_ctx option \<times> proc" where
  "open_and_attach w device filter_prog p =
     (case raw_socket_open (w_open w) device (p_os p) of
        (None, s) \<Rightarrow> (None, snd (free_program filter_prog (p\<lparr>p_os := s\<rparr>)))
      | (Some ctx, s) \<Rightarrow>
          let p = p\<lparr>p_os := s, contexts := (contexts p)(w_addr w := Some ctx)\<rparr>;
            (rc, s) = (if fprog_filter (the filter_prog) \<noteq> None
              then raw_socket_attach_filter (w_open w) (Some ctx) filter_prog (p_os p) else (0, p_os p));
            p = snd (free_program filter_prog (p\<lparr>p_os := s\<rparr>)) in
          if rc \<noteq> 0 then (None, close_context w ctx p) else (Some ctx, p))"

definition fclose :: "world \<Rightarrow> string \<Rightarrow> FILE \<Rightarrow> proc \<Rightarrow> int \<times> proc" where
  "fclose w path f p =
     (if w_fclose w then 0 else -1,
      p\<lparr>files := (files p)(path := Some (if w_fclose w then contents f else take (w_flushed w) (contents f))),
        open_files := open_files p - 1\<rparr>)"

definition open_pcap :: "world \<Rightarrow> string option \<Rightarrow> proc \<Rightarrow> int \<times> FILE option \<times> proc" where
  "open_pcap w path p =
     (if path = None \<or> path = Some [] then (0, None, p)
      else if \<not> w_fopen w then (-1, None, p)
      else
        let p = p\<lparr>files := (files p)(the path := Some []), open_files := open_files p + 1\<rparr>;
          (rc, f) = write_pcap_global_header (w_big w) (w_fwrite w) \<lparr>contents = [], writes = 0\<rparr> in
        if rc \<noteq> 0 then (-1, None, snd (fclose w (the path) f p))
        else (0, Some f, p))"

definition signal :: "bool \<Rightarrow> sighandler \<Rightarrow> proc \<Rightarrow> sighandler option \<times> proc" where
  "signal ok h p = (if ok then (Some (sigint p), p\<lparr>sigint := h\<rparr>) else (None, p))"

text \<open>After the loop: restore the handler, close the file, read the counters, close the socket.\<close>

definition read_stats :: "world \<Rightarrow> raw_socket_ctx \<Rightarrow> proc \<Rightarrow> proc" where
  "read_stats w ctx p =
     (case raw_socket_get_stats (w_close w) (Some ctx) (Some 0) (Some 0) (p_os p) of
        (rc, packets, drops, s) \<Rightarrow>
          if rc = 0 then p\<lparr>p_os := s, g_last_stats := \<lparr>packets_captured = the packets, packets_dropped = the drops\<rparr>,
            g_last_stats_valid := True\<rparr>
          else p\<lparr>p_os := s, g_last_stats_valid := False\<rparr>)"

definition end_run :: "world \<Rightarrow> sighandler \<Rightarrow> raw_socket_ctx \<Rightarrow> string option \<Rightarrow> FILE option \<Rightarrow> int \<Rightarrow> proc \<Rightarrow> int \<times> proc" where
  "end_run w previous ctx path pf res p =
     (let p = (snd (signal (w_restore w) previous p))\<lparr>g_active_ctx := None\<rparr>;
        (res, p) = (case pf of
            None \<Rightarrow> (res, p)
          | Some f \<Rightarrow> let (rc, p) = fclose w (the path) f p in (if rc \<noteq> 0 then -1 else res, p));
        p = read_stats w ctx p in
      (res, close_context w ctx p))"

definition kernel_counts :: "world \<Rightarrow> proc \<Rightarrow> proc" where
  "kernel_counts w p = p\<lparr>p_os := (p_os p)\<lparr>stat_packets := packets_captured (w_counted w),
     stat_drops := packets_dropped (w_counted w)\<rparr>\<rparr>"

text \<open>From the open socket to the end.\<close>

definition run_opened ::
  "world \<Rightarrow> raw_socket_ctx \<Rightarrow> string option \<Rightarrow> 'u callback \<Rightarrow> 'u \<Rightarrow> buf \<Rightarrow> proc \<Rightarrow> (int \<times> 'u \<times> buf \<times> proc) option" where
  "run_opened w ctx path cb user buf p =
     (case open_pcap w path p of (rc, pf, p) \<Rightarrow>
        if rc \<noteq> 0 then Some (-1, user, buf, close_context w ctx p)
        else do {
          let (handler, p) = signal (w_signal w) On_sigint p;
          let previous = (case handler of None \<Rightarrow> SIG_DFL | Some h \<Rightarrow> h);
          let p = p\<lparr>g_active_ctx := Some (w_addr w)\<rparr>;
          (res, c, ring, buf, pf, user, k) \<leftarrow>
            run_loop (w_events w) (w_big w) (w_fwrite w) cb 0 (rs_cursor ctx) (w_ring w) buf pf user;
          let (res, p) = end_run w previous ctx path pf res (kernel_counts w p);
          Some (res, user, buf, p)
        })"

definition run_impl ::
  "world \<Rightarrow> string option \<Rightarrow> string option \<Rightarrow> string option \<Rightarrow> 'u callback \<Rightarrow> 'u \<Rightarrow> buf \<Rightarrow> proc \<Rightarrow>
    (int \<times> 'u \<times> buf \<times> proc) option" where
  "run_impl w device bpf_filter path cb user buf p = do {
     (rc, filter_prog, p) \<leftarrow> compile_filter w bpf_filter p;
     if rc \<noteq> 0 then Some (-1, user, buf, p)
     else (case open_and_attach w device filter_prog p of
         (None, p) \<Rightarrow> Some (-1, user, buf, p)
       | (Some ctx, p) \<Rightarrow> run_opened w ctx path cb user buf p)
   }"

definition get_last_stats_impl :: "capture_stats_t option \<Rightarrow> proc \<Rightarrow> int \<times> capture_stats_t option" where
  "get_last_stats_impl out p =
     (if out = None \<or> \<not> g_last_stats_valid p then (-1, out) else (0, Some (g_last_stats p)))"


text \<open>The table of function pointers, and the wrappers that call through it.\<close>

record 'u capture_backend_t =
  be_list_devices :: "string option list option \<Rightarrow> string list \<Rightarrow> capture_device_t list \<Rightarrow> int \<Rightarrow>
    (int \<times> capture_device_t list) option"
  be_run :: "world \<Rightarrow> string option \<Rightarrow> string option \<Rightarrow> string option \<Rightarrow> 'u callback \<Rightarrow> 'u \<Rightarrow> buf \<Rightarrow> proc \<Rightarrow>
    (int \<times> 'u \<times> buf \<times> proc) option"
  be_request_stop :: "proc \<Rightarrow> proc option"
  be_get_last_stats :: "capture_stats_t option \<Rightarrow> proc \<Rightarrow> int \<times> capture_stats_t option"

definition g_linux_backend :: "'u capture_backend_t" where
  "g_linux_backend = \<lparr>be_list_devices = list_devices_impl, be_run = run_impl, be_request_stop = request_stop_impl,
     be_get_last_stats = get_last_stats_impl\<rparr>"

definition capture_backend_list_devices ::
  "string option list option \<Rightarrow> string list \<Rightarrow> capture_device_t list \<Rightarrow> int \<Rightarrow> (int \<times> capture_device_t list) option" where
  "capture_backend_list_devices = be_list_devices (g_linux_backend :: unit capture_backend_t)"

definition capture_backend_run ::
  "world \<Rightarrow> string option \<Rightarrow> string option \<Rightarrow> string option \<Rightarrow> 'u callback \<Rightarrow> 'u \<Rightarrow> buf \<Rightarrow> proc \<Rightarrow>
    (int \<times> 'u \<times> buf \<times> proc) option" where
  "capture_backend_run = be_run g_linux_backend"

definition capture_backend_request_stop :: "proc \<Rightarrow> proc option" where
  "capture_backend_request_stop = be_request_stop (g_linux_backend :: unit capture_backend_t)"

definition capture_backend_get_last_stats :: "capture_stats_t option \<Rightarrow> proc \<Rightarrow> int \<times> capture_stats_t option" where
  "capture_backend_get_last_stats = be_get_last_stats (g_linux_backend :: unit capture_backend_t)"

lemmas backend_defs = capture_backend_list_devices_def capture_backend_run_def capture_backend_request_stop_def
  capture_backend_get_last_stats_def g_linux_backend_def

subsection \<open>The stages of a run\<close>

lemma compile_filter_cases:
  assumes "compile_filter w bpf_filter p = Some (rc, prog, p1)"
  obtains (none) "rc = 0" "prog = Some no_filter" "p1 = p" "bpf_filter = None \<or> bpf_filter = Some []"
  | (reject) "rc = -1" "prog = Some no_filter" "p1 = p"
  | (accept) s ts n code where "rc = 0" "prog = Some (program code)" "p1 = p\<lparr>p_os := (p_os p)\<lparr>heap := heap (p_os p) + 1\<rparr>\<rparr>"
      "bpf_filter = Some s" "spells tok_text s ts" "or_expr cf_syntax ts n" "implements code n"
proof (cases "bpf_filter = None \<or> bpf_filter = Some []")
  case True
  with assms show thesis by (intro none) (auto simp: compile_filter_def Let_def)
next
  case False
  then obtain s where s: "bpf_filter = Some s" "s \<noteq> []" by auto
  show thesis
  proof (rule compile_outcome [OF s(2), of "w_mem_ok w" no_filter "Some (w_err w)" 128])
    assume "capfilter_compile (w_mem_ok w) (Some s) (Some no_filter) (Some (w_err w)) 128 = None"
    with assms s show thesis by (simp add: compile_filter_def Let_def)
  next
    fix e assume "capfilter_compile (w_mem_ok w) (Some s) (Some no_filter) (Some (w_err w)) 128 = Some (-1, Some no_filter, e)"
    with assms s show thesis by (intro reject) (auto simp: compile_filter_def Let_def)
  next
    fix ts n code e
    assume "capfilter_compile (w_mem_ok w) (Some s) (Some no_filter) (Some (w_err w)) 128 = Some (0, Some (program code), e)"
      and n: "spells tok_text s ts" "or_expr cf_syntax ts n" "implements code n"
    with assms s show thesis by (intro accept [OF _ _ _ s(1) n]) (auto simp: compile_filter_def Let_def program_def)
  qed
qed


text \<open>What a process holds: descriptors, mappings and heap blocks.\<close>

definition held :: "os \<Rightarrow> nat \<times> nat \<times> nat" where
  "held s = (fds s, mappings s, heap s)"

definition start_cursor :: cursor where
  "start_cursor = \<lparr>block_nr = RS_RING_BLOCK_NR, cur_block = 0, cur_pkt_idx = 0, cur_pkt_offset = 0, cur_num_pkts = 0\<rparr>"

lemma raw_socket_open_held:
  "raw_socket_open sys device s = (Some c, s1) \<Longrightarrow>
    held s1 = (fds s + 1, mappings s + 1, heap s + 1) \<and> rs_cursor c = start_cursor \<and> filter_attached s1 = None"
  "raw_socket_open sys device s = (None, s1) \<Longrightarrow> held s1 = held s"
  by (auto simp: raw_socket_open_def held_def start_cursor_def Let_def close_fd_def split: option.splits if_splits)

lemma raw_socket_close_held:
  "held (raw_socket_close sys (Some c) s) = (fds s - 1, mappings s - 1, heap s - 1)"
  by (simp add: raw_socket_close_def held_def Let_def close_fd_def)

lemma open_close_flags:
  assumes "raw_socket_open sys' device s = (Some c, s1)" "if_flags s2 = if_flags s1" "ok_getflags sys" "ok_setflags sys"
  shows "if_flags (raw_socket_close sys (Some c) s2) = if_flags s"
proof -
  obtain dev where "device = Some dev" using assms(1) by (cases device) (auto simp: raw_socket_open_def)
  note o = raw_socket_open_Some [OF assms(1) [unfolded this]]
  show ?thesis
    using o assms(2-4)
    by (auto simp: raw_socket_close_def Let_def close_fd_def strncpy_twice set_then_clear [of _ IFF_PROMISC, simplified])
qed

text \<open>
  \<open>p'\<close> differs from \<open>p\<close> at most in the files, the statistics, the interface flags and the counters of the
  socket that is gone.
\<close>

definition restored :: "proc \<Rightarrow> proc \<Rightarrow> bool" where
  "restored p p' \<longleftrightarrow> held (p_os p') = held (p_os p) \<and> contexts p' = contexts p \<and> open_files p' = open_files p
     \<and> g_active_ctx p' = g_active_ctx p"

lemma free_program_simps [simp]:
  "snd (free_program (Some no_filter) p) = p"
  "snd (free_program (Some (program code)) p) = p\<lparr>p_os := (p_os p)\<lparr>heap := heap (p_os p) - 1\<rparr>\<rparr>"
  by (simp_all add: free_program_def program_def)

text \<open>
  A socket opened for a run: \<open>p\<close> with the context added, and the compiled program, if any, attached.
\<close>

definition opened :: "world \<Rightarrow> string option \<Rightarrow> sock_filter list option \<Rightarrow> proc \<Rightarrow> raw_socket_ctx \<Rightarrow> proc \<Rightarrow> bool" where
  "opened w device code p ctx p2 \<longleftrightarrow>
     (\<exists>s s1. raw_socket_open (w_open w) device s = (Some ctx, s1) \<and> if_flags s = if_flags (p_os p)
        \<and> if_flags (p_os p2) = if_flags s1 \<and> filter_attached (p_os p2) = code)
     \<and> held (p_os p2) = (fds (p_os p) + 1, mappings (p_os p) + 1, heap (p_os p) + 1)
     \<and> p2 = p\<lparr>p_os := p_os p2, contexts := (contexts p)(w_addr w := Some ctx)\<rparr>"

lemma opened_fields:
  assumes "opened w device code p ctx p2"
  shows "contexts p2 = (contexts p)(w_addr w := Some ctx)" "g_active_ctx p2 = g_active_ctx p" "g_last_stats p2 = g_last_stats p"
    "g_last_stats_valid p2 = g_last_stats_valid p" "sigint p2 = sigint p" "files p2 = files p" "open_files p2 = open_files p"
proof -
  have e: "p2 = p\<lparr>p_os := p_os p2, contexts := (contexts p)(w_addr w := Some ctx)\<rparr>"
    using assms unfolding opened_def by blast
  show "contexts p2 = (contexts p)(w_addr w := Some ctx)" "g_active_ctx p2 = g_active_ctx p" "g_last_stats p2 = g_last_stats p"
    "g_last_stats_valid p2 = g_last_stats_valid p" "sigint p2 = sigint p" "files p2 = files p" "open_files p2 = open_files p"
    by (subst e, simp)+
qed

lemma open_and_attach_ok:
  assumes "compile_filter w bpf_filter p = Some (0, prog, p1)" "open_and_attach w device prog p1 = (Some ctx, p2)"
  shows "opened w device (fprog_filter (the prog)) p ctx p2"
proof -
  obtain s1 where o: "raw_socket_open (w_open w) device (p_os p1) = (Some ctx, s1)"
    using assms(2) by (auto simp: open_and_attach_def Let_def split: prod.splits option.splits if_splits)
  note h = raw_socket_open_held(1) [OF o]
  from assms(1) show ?thesis
  proof (cases rule: compile_filter_cases)
    case none
    with assms(2) o h have p2: "p2 = p\<lparr>p_os := s1, contexts := (contexts p)(w_addr w := Some ctx)\<rparr>"
      by (simp add: open_and_attach_def Let_def)
    with none o h show ?thesis unfolding opened_def by (intro conjI exI [of _ "p_os p1"] exI [of _ s1]) auto
  next
    case (accept s ts n code)
    have take: "take (unat (of_nat (length code) :: u16)) code = code"
      using implements_length [OF accept(7)] by (simp add: program_def)
    with accept assms(2) o h have p2: "p2 = p\<lparr>p_os := s1\<lparr>filter_attached := Some code, heap := heap s1 - 1\<rparr>,
        contexts := (contexts p)(w_addr w := Some ctx)\<rparr>"
      by (auto simp: open_and_attach_def Let_def program_def raw_socket_attach_filter_def free_program_def split: if_splits)
    with accept o h show ?thesis unfolding opened_def
      by (intro conjI exI [of _ "p_os p1"] exI [of _ s1]) (auto simp: held_def program_def)
  qed simp
qed


text \<open>After a failure everything is as before, except that a failed open may leave the interface promiscuous.\<close>

definition flags_kept :: "world \<Rightarrow> string option \<Rightarrow> proc \<Rightarrow> proc \<Rightarrow> bool" where
  "flags_kept w device p p' \<longleftrightarrow>
     fst (raw_socket_open (w_open w) device (p_os p)) \<noteq> None \<and> ok_getflags (w_close w) \<and> ok_setflags (w_close w) \<longrightarrow>
     if_flags (p_os p') = if_flags (p_os p)"

lemma fst_open_heap: "fst (raw_socket_open sys device (s\<lparr>heap := h\<rparr>)) = fst (raw_socket_open sys device s)"
  by (simp add: raw_socket_open_def Let_def split: option.splits)

lemma close_context_restored:
  assumes "opened w device code p ctx p2" "held (p_os p3) = held (p_os p2)" "if_flags (p_os p3) = if_flags (p_os p2)"
    and "contexts p3 = contexts p2" "open_files p3 = open_files p" "g_active_ctx p3 = g_active_ctx p"
    and "contexts p (w_addr w) = None"
  shows "restored p (close_context w ctx p3)" "flags_kept w device p (close_context w ctx p3)"
proof -
  have c: "(contexts p2)(w_addr w := None) = contexts p"
    using opened_fields(1) [OF assms(1)] assms(7) by (auto simp: fun_upd_idem)
  have "held (p_os p3) = (fds (p_os p) + 1, mappings (p_os p) + 1, heap (p_os p) + 1)"
    using assms(1,2) by (simp add: opened_def)
  then show "restored p (close_context w ctx p3)"
    using raw_socket_close_held [of "w_close w" ctx "p_os p3"] c assms(4-6)
    by (auto simp: restored_def close_context_def held_def)
  obtain s s1 where "raw_socket_open (w_open w) device s = (Some ctx, s1)" "if_flags s = if_flags (p_os p)"
    "if_flags (p_os p2) = if_flags s1"
    using assms(1) by (auto simp: opened_def)
  then show "flags_kept w device p (close_context w ctx p3)"
    using open_close_flags [of "w_open w" device s ctx s1 "p_os p3" "w_close w"] assms(3)
    by (simp add: flags_kept_def close_context_def)
qed

lemma open_and_attach_fail:
  assumes "compile_filter w bpf_filter p = Some (0, prog, p1)" "open_and_attach w device prog p1 = (None, p2)"
    and "contexts p (w_addr w) = None"
  shows "restored p p2" "flags_kept w device p p2" "g_last_stats p2 = g_last_stats p"
    "g_last_stats_valid p2 = g_last_stats_valid p" "sigint p2 = sigint p" "files p2 = files p"
proof -
  obtain r s1 where o: "raw_socket_open (w_open w) device (p_os p1) = (r, s1)" by (cases "raw_socket_open (w_open w) device (p_os p1)")
  have same: "fst (raw_socket_open (w_open w) device (p_os p1)) = fst (raw_socket_open (w_open w) device (p_os p))"
    using assms(1) by (cases rule: compile_filter_cases) (simp_all add: fst_open_heap)
  have "restored p p2 \<and> flags_kept w device p p2 \<and> g_last_stats p2 = g_last_stats p
    \<and> g_last_stats_valid p2 = g_last_stats_valid p \<and> sigint p2 = sigint p \<and> files p2 = files p"
  proof (cases r)
    case None
    note h = raw_socket_open_held(2) [OF o [unfolded None]]
    have "fst (raw_socket_open (w_open w) device (p_os p)) = None" using same o None by simp
    then have flags: "flags_kept w device p p2" by (simp add: flags_kept_def)
    have "p2 = snd (free_program prog (p1\<lparr>p_os := s1\<rparr>))" using assms(2) o None by (simp add: open_and_attach_def)
    with assms(1) h flags show ?thesis
      by (cases rule: compile_filter_cases) (auto simp: restored_def held_def)
  next
    case (Some ctx)
    note h = raw_socket_open_held(1) [OF o [unfolded Some]]
    from assms(1) show ?thesis
    proof (cases rule: compile_filter_cases)
      case none
      with assms(2) o Some show ?thesis by (simp add: open_and_attach_def Let_def)
    next
      case (accept s ts n code)
      let ?p = "p\<lparr>contexts := (contexts p)(w_addr w := Some ctx), p_os := s1\<lparr>heap := heap s1 - 1\<rparr>\<rparr>"
      have "p2 = close_context w ctx ?p"
        using assms(2) o Some accept
        by (auto simp: open_and_attach_def Let_def program_def raw_socket_attach_filter_def free_program_def split: if_splits)
      moreover have "opened w device None p ctx ?p"
        using o h Some accept unfolding opened_def by (intro conjI exI [of _ "p_os p1"] exI [of _ s1]) (auto simp: held_def)
      ultimately show ?thesis
        using close_context_restored [of w device None p ctx ?p ?p] assms(3) by (simp add: close_context_def)
    qed simp
  qed
  then show "restored p p2" "flags_kept w device p p2" "g_last_stats p2 = g_last_stats p"
    "g_last_stats_valid p2 = g_last_stats_valid p" "sigint p2 = sigint p" "files p2 = files p" by auto
qed


lemma open_pcap_cases:
  assumes "open_pcap w path p = (rc, pf, p')"
  obtains (fail) "rc = -1" "restored p p'" "p_os p' = p_os p" "g_last_stats p' = g_last_stats p"
      "g_last_stats_valid p' = g_last_stats_valid p" "sigint p' = sigint p"
  | (none) "rc = 0" "pf = None" "p' = p" "path = None \<or> path = Some []"
  | (ok) f name where "rc = 0" "path = Some name" "name \<noteq> []" "pf = Some f" "contents f = pcap_file (w_big w) []"
      "p' = p\<lparr>files := (files p)(name := Some []), open_files := open_files p + 1\<rparr>"
proof (cases "path = None \<or> path = Some []")
  case True
  with assms show thesis by (intro none) (auto simp: open_pcap_def)
next
  case path: False
  then obtain name where name: "path = Some name" "name \<noteq> []" by auto
  show thesis
  proof (cases "w_fopen w \<and> fst (fwrite (w_fwrite w) (global_header_bytes (w_big w) pcap_header) \<lparr>contents = [], writes = 0\<rparr>)")
    case True
    with path assms name show thesis
      by (intro ok [of name "snd (fwrite (w_fwrite w) (global_header_bytes (w_big w) pcap_header) \<lparr>contents = [], writes = 0\<rparr>)"])
        (auto simp: open_pcap_def write_pcap_global_header_def fwrite_def pcap_file_def Let_def)
  next
    case False
    with path assms show thesis
      by (intro fail) (auto simp: open_pcap_def write_pcap_global_header_def fwrite_def fclose_def restored_def Let_def split: if_splits)
  qed
qed

text \<open>The end of a run.\<close>

lemma end_run_effect:
  assumes "end_run w previous ctx path pf res p = (res', p')"
    and p: "opened w device code p0 ctx p2" "contexts p = contexts p2" "held (p_os p) = held (p_os p2)"
      "if_flags (p_os p) = if_flags (p_os p2)" "g_active_ctx p0 = None" "contexts p0 (w_addr w) = None"
      "open_files p = open_files p0 + (if pf = None then 0 else 1)" "pf \<noteq> None \<longrightarrow> path \<noteq> None"
  shows "restored p0 p'" "flags_kept w device p0 p'"
    "sigint p' = (if w_restore w then previous else sigint p)"
    "res' = (if pf = None \<or> w_fclose w then res else -1)"
    "pf = None \<Longrightarrow> files p' = files p"
    "pf = Some f \<Longrightarrow> w_fclose w \<Longrightarrow> files p' = (files p)(the path := Some (contents f))"
    "g_last_stats_valid p' = ok_statistics (w_close w)"
    "ok_statistics (w_close w) \<Longrightarrow> g_last_stats p' = \<lparr>packets_captured = stat_packets (p_os p), packets_dropped = stat_drops (p_os p)\<rparr>"
proof -
  define q where "q = (snd (signal (w_restore w) previous p))\<lparr>g_active_ctx := None\<rparr>"
  define r where "r = (case pf of None \<Rightarrow> (res, q) | Some f \<Rightarrow> let (rc, q) = fclose w (the path) f q in (if rc \<noteq> 0 then -1 else res, q))"
  have e: "res' = fst r" "p' = close_context w ctx (read_stats w ctx (snd r))"
    using assms(1) unfolding end_run_def r_def q_def Let_def by (auto split: prod.splits)
  have r: "fst r = (if pf = None \<or> w_fclose w then res else -1)" "p_os (snd r) = p_os p" "contexts (snd r) = contexts p"
    "open_files (snd r) = open_files p0" "g_active_ctx (snd r) = None" "sigint (snd r) = (if w_restore w then previous else sigint p)"
    "pf = None \<Longrightarrow> files (snd r) = files p"
    "pf = Some f \<Longrightarrow> w_fclose w \<Longrightarrow> files (snd r) = (files p)(the path := Some (contents f))" for f
    using p(7) by (auto simp: r_def q_def fclose_def signal_def split: option.splits)
  have s: "held (p_os (read_stats w ctx (snd r))) = held (p_os p)" "if_flags (p_os (read_stats w ctx (snd r))) = if_flags (p_os p)"
    "contexts (read_stats w ctx (snd r)) = contexts p" "open_files (read_stats w ctx (snd r)) = open_files p0"
    "g_active_ctx (read_stats w ctx (snd r)) = None"
    using r by (auto simp: read_stats_def raw_socket_get_stats_def held_def)
  note c = close_context_restored [OF p(1), of "read_stats w ctx (snd r)"]
  show "restored p0 p'" "flags_kept w device p0 p'" unfolding e using c s p by simp_all
  show "sigint p' = (if w_restore w then previous else sigint p)" "res' = (if pf = None \<or> w_fclose w then res else -1)"
    "pf = None \<Longrightarrow> files p' = files p"
    "pf = Some f \<Longrightarrow> w_fclose w \<Longrightarrow> files p' = (files p)(the path := Some (contents f))"
    "g_last_stats_valid p' = ok_statistics (w_close w)"
    "ok_statistics (w_close w) \<Longrightarrow> g_last_stats p' = \<lparr>packets_captured = stat_packets (p_os p), packets_dropped = stat_drops (p_os p)\<rparr>"
    unfolding e using r by (auto simp: close_context_def read_stats_def raw_socket_get_stats_def)
qed


text \<open>How far a run got: it failed before the loop, or it went through the loop and to the end.\<close>

definition failed_early :: "world \<Rightarrow> string option \<Rightarrow> proc \<Rightarrow> proc \<Rightarrow> bool" where
  "failed_early w device p p' \<longleftrightarrow> restored p p' \<and> flags_kept w device p p' \<and> sigint p' = sigint p
     \<and> g_last_stats p' = g_last_stats p \<and> g_last_stats_valid p' = g_last_stats_valid p"

definition pcap_opened :: "world \<Rightarrow> string option \<Rightarrow> FILE option \<Rightarrow> bool" where
  "pcap_opened w path pf \<longleftrightarrow>
     (case pf of
        None \<Rightarrow> path = None \<or> path = Some []
      | Some f \<Rightarrow> path \<noteq> None \<and> path \<noteq> Some [] \<and> contents f = pcap_file (w_big w) [])"

definition ran :: "world \<Rightarrow> string option \<Rightarrow> string option \<Rightarrow> FILE option \<Rightarrow> int \<Rightarrow> proc \<Rightarrow> int \<Rightarrow> proc \<Rightarrow> bool" where
  "ran w device path pf loop_res p res p' \<longleftrightarrow> restored p p' \<and> flags_kept w device p p'
     \<and> (w_signal w \<and> w_restore w \<longrightarrow> sigint p' = sigint p) \<and> res = (if pf = None \<or> w_fclose w then loop_res else -1)
     \<and> g_last_stats_valid p' = ok_statistics (w_close w) \<and> (ok_statistics (w_close w) \<longrightarrow> g_last_stats p' = w_counted w)
     \<and> (\<forall>f. pf = Some f \<and> w_fclose w \<longrightarrow> files p' (the path) = Some (contents f))"

lemma run_opened_cases:
  assumes run: "run_opened w ctx path cb user buf p2 = Some (res, user', buf', p')"
    and op: "opened w device code p ctx p2" and p: "contexts p (w_addr w) = None" "g_active_ctx p = None"
  obtains (early) "res = -1" "user' = user" "buf' = buf" "failed_early w device p p'"
  | (full) pf loop_res c ring pf' k where "pcap_opened w path pf"
      "run_loop (w_events w) (w_big w) (w_fwrite w) cb 0 start_cursor (w_ring w) buf pf user
        = Some (loop_res, c, ring, buf', pf', user', k)"
      "pf' = None \<longleftrightarrow> pf = None \<Longrightarrow> ran w device path pf' loop_res p res p'"
proof -
  obtain rc pf p3 where f: "open_pcap w path p2 = (rc, pf, p3)" by (cases "open_pcap w path p2")
  note op2 = opened_fields [OF op]
  show thesis
  proof (cases "rc = 0")
    case False
    with run f have e: "res = -1" "user' = user" "buf' = buf" "p' = close_context w ctx p3" by (simp_all add: run_opened_def)
    have p3: "restored p2 p3" "p_os p3 = p_os p2" "g_last_stats p3 = g_last_stats p2"
      "g_last_stats_valid p3 = g_last_stats_valid p2" "sigint p3 = sigint p2"
      using f False by (cases rule: open_pcap_cases; simp)+
    then have "contexts p3 = contexts p2" "open_files p3 = open_files p" "g_active_ctx p3 = g_active_ctx p"
      using op2 by (simp_all add: restored_def)
    with p3 p(1) have "restored p p'" "flags_kept w device p p'"
      using close_context_restored [OF op, of p3] by (simp_all add: e(4))
    with e p3 op2 show thesis by (intro early) (simp_all add: failed_early_def close_context_def)
  next
    case True
    have p3: "pcap_opened w path pf" "p_os p3 = p_os p2" "contexts p3 = contexts p2"
      "open_files p3 = open_files p + (if pf = None then 0 else 1)" "sigint p3 = sigint p"
      using f True op2 by (cases rule: open_pcap_cases; simp add: pcap_opened_def)+
    define p4 where "p4 = kernel_counts w ((snd (signal (w_signal w) On_sigint p3))\<lparr>g_active_ctx := Some (w_addr w)\<rparr>)"
    define prev where "prev = (case fst (signal (w_signal w) On_sigint p3) of None \<Rightarrow> SIG_DFL | Some h \<Rightarrow> h)"
    have "rs_cursor ctx = start_cursor" using op raw_socket_open_held(1) by (auto simp: opened_def)
    with run f True obtain loop_res c ring pf' k where
      l: "run_loop (w_events w) (w_big w) (w_fwrite w) cb 0 start_cursor (w_ring w) buf pf user
        = Some (loop_res, c, ring, buf', pf', user', k)"
      and e: "end_run w prev ctx path pf' loop_res p4 = (res, p')"
      by (auto simp: run_opened_def p4_def prev_def Let_def split: bind_splits prod.splits)
    have p4: "contexts p4 = contexts p2" "held (p_os p4) = held (p_os p2)" "if_flags (p_os p4) = if_flags (p_os p2)"
      "open_files p4 = open_files p + (if pf = None then 0 else 1)"
      "w_signal w \<Longrightarrow> prev = sigint p" "stat_packets (p_os p4) = packets_captured (w_counted w)"
      "stat_drops (p_os p4) = packets_dropped (w_counted w)"
      using p3 by (simp_all add: p4_def prev_def kernel_counts_def signal_def held_def)
    show thesis
    proof (rule full [OF p3(1) l])
      assume pf: "pf' = None \<longleftrightarrow> pf = None"
      then have "open_files p4 = open_files p + (if pf' = None then 0 else 1)" "pf' \<noteq> None \<longrightarrow> path \<noteq> None"
        using p4(4) p3(1) by (auto simp: pcap_opened_def split: option.splits)
      note ef = end_run_effect [OF e op p4(1-3) p(2,1) this]
      show "ran w device path pf' loop_res p res p'" unfolding ran_def using ef p4(5-7) by auto
    qed
  qed
qed

lemma run_impl_cases:
  assumes run: "run_impl w device bpf_filter path cb user buf p = Some (res, user', buf', p')"
    and p: "contexts p (w_addr w) = None" "g_active_ctx p = None"
  obtains (early) "res = -1" "user' = user" "buf' = buf" "failed_early w device p p'"
  | (full) pf loop_res c ring pf' k where "pcap_opened w path pf"
      "run_loop (w_events w) (w_big w) (w_fwrite w) cb 0 start_cursor (w_ring w) buf pf user
        = Some (loop_res, c, ring, buf', pf', user', k)"
      "pf' = None \<longleftrightarrow> pf = None \<Longrightarrow> ran w device path pf' loop_res p res p'"
proof -
  obtain rc prog p1 where c: "compile_filter w bpf_filter p = Some (rc, prog, p1)"
    using run by (auto simp: run_impl_def split: bind_splits)
  show thesis
  proof (cases "rc = 0")
    case False
    with run c have "res = -1" "user' = user" "buf' = buf" "p' = p1" by (simp_all add: run_impl_def)
    with c False show thesis
      by (cases rule: compile_filter_cases) (auto intro!: early simp: failed_early_def restored_def flags_kept_def)
  next
    case True
    note c = c [unfolded True]
    obtain r p2 where o: "open_and_attach w device prog p1 = (r, p2)" by force
    show thesis
    proof (cases r)
      case None
      with run c o have "res = -1" "user' = user" "buf' = buf" "p' = p2" by (simp_all add: run_impl_def)
      with open_and_attach_fail [OF c o [unfolded None] p(1)] show thesis by (intro early) (simp_all add: failed_early_def)
    next
      case (Some ctx)
      with run c o have "run_opened w ctx path cb user buf p2 = Some (res, user', buf', p')" by (simp add: run_impl_def)
      then show thesis
        by (rule run_opened_cases [OF _ open_and_attach_ok [OF c o [unfolded Some]] p]) (use early full in blast)+
    qed
  qed
qed


lemma run_impl_outcome:
  assumes "run_impl w device bpf_filter path cb user buf p = Some (res, user', buf', p')"
    and "contexts p (w_addr w) = None" "g_active_ctx p = None"
  shows "failed_early w device p p' \<and> res = -1 \<and> user' = user
    \<or> (\<exists>pf loop_res c ring pf' k. pcap_opened w path pf \<and> ran w device path pf' loop_res p res p'
        \<and> (loop_res = 0 \<or> loop_res = -1)
        \<and> run_loop (w_events w) (w_big w) (w_fwrite w) cb 0 start_cursor (w_ring w) buf pf user
          = Some (loop_res, c, ring, buf', pf', user', k))"
  using assms
proof (cases rule: run_impl_cases)
  case (full pf loop_res c ring pf' k)
  from run_loop_shape [OF full(2)] full show ?thesis by auto
qed simp

text \<open>What a run with the queue callback leaves in the capture file.\<close>

lemma captured_short: "(bytes, sec, usec) \<in> set (map frame_of xs) \<Longrightarrow> length bytes < 2 ^ 32"
  using frame_of_short by auto

lemma queue_run_file:
  assumes "run_loop env big wr queue_push_callback 0 c ring buf (Some f) [] = Some (res, c', ring', buf', pf', pushed, k)"
    and "\<forall>j. kernel_ok (ev_kernel (env j))" "cursor_ok c ring" "length buf = 65536" "contents f = pcap_file big []"
  obtains xs part f' where "pf' = Some f'" "pushed = map captured_of (map frame_of xs)"
    "contents f' = pcap_file big (map frame_of xs) @ part" "res = 0 \<longrightarrow> part = []"
    "prefix xs (pending c ring) \<or> prefix (pending c ring) xs"
proof -
  from queue_push.run_loop_ok [OF assms(1-4)] obtain xs ys later where
    ok: "pending c ring @ later = xs @ ys @ pending c' ring'" "res = 0 \<longrightarrow> ys = []"
    "deliver queue_push_callback (map frame_of xs) [] = Some pushed"
    "file_holds big (Some f) pf' (map frame_of xs) (ys = [])"
    by (auto simp: run_ok_def)
  have "pushed = map captured_of (map frame_of xs)"
    using ok(3) deliver_queue_push [of "map frame_of xs" "[]"] captured_short by force
  moreover obtain f' part where "pf' = Some f'" "contents f' = pcap_file big (map frame_of xs) @ part" "res = 0 \<longrightarrow> part = []"
    using ok(2,4) assms(5) by (auto simp: file_holds_def pcap_file_def split: option.splits)
  moreover have "prefix xs (pending c ring) \<or> prefix (pending c ring) xs"
    using ok(1) by (metis prefixI prefix_same_cases)
  ultimately show thesis using that by blast
qed

lemma copy_devices_eq:
  assumes "length ds \<le> length dst" "\<forall>name \<in> set ds. length name < CAPTURE_NAME_LEN"
  shows "copy_devices ds dst = Some (map (\<lambda>name. \<lparr>cd_name = name, cd_description = []\<rparr>) ds @ drop (length ds) dst)"
  using assms by (induction ds dst rule: copy_devices.induct) (auto simp: strncpy_def less_Suc_eq_le)

lemma set_firsts: "set (take n (firsts xs)) \<subseteq> set xs"
  using set_take_subset [of n "firsts xs"] by auto

subsection \<open>A sample run\<close>

definition sample_blocks :: ring where
  "sample_blocks = sample_ring @ replicate 7 \<lparr>block_status = 0, num_pkts = 0, offset_to_first_pkt = 0, block_hdrs = Map.empty\<rparr>"

definition sample_world :: world where
  "sample_world = \<lparr>w_mem_ok = True, w_err = [], w_open = all_ok, w_addr = 100, w_ring = sample_blocks, w_fopen = True,
     w_big = False, w_fwrite = (\<lambda>_. 1000), w_signal = True, w_events = (\<lambda>j. idle\<lparr>ev_stop := 1 \<le> j\<rparr>), w_restore = True,
     w_fclose = True, w_flushed = 0, w_counted = \<lparr>packets_captured = 1, packets_dropped = 0\<rparr>, w_close = all_ok\<rparr>"

definition sample_proc :: proc where
  "sample_proc = \<lparr>p_os = fresh_os, contexts = (\<lambda>_. None), g_active_ctx = None,
     g_last_stats = \<lparr>packets_captured = 5, packets_dropped = 6\<rparr>, g_last_stats_valid = True, sigint = Other_handler 1,
     files = (\<lambda>_. None), open_files = 0\<rparr>"

lemma sample_recv:
  "\<exists>c ring. raw_socket_recv (w_events sample_world) 0 (Some start_cursor) sample_blocks (Some (replicate 65536 0)) 65536 (Some 0) (Some 0)
    = Some (3, Some c, ring, Some ([10, 11, 12] @ replicate 65533 0), Some 7, Some 9, 1)"
  by (simp add: raw_socket_recv_def recv_loop.simps recv_turn_def take_frame_def sample_world_def sample_blocks_def sample_ring_def
      sample_hdr_def start_cursor_def idle_def rs_block_at_def is_user_def release_block_def memcpy_from_def ptr_add_def)

lemma sample_stop:
  "raw_socket_recv (w_events sample_world) (Suc 0) (Some c) ring (Some buf) n (Some 0) (Some 0)
    = Some (-2, Some c, ring, Some buf, Some 0, Some 0, 2)"
  by (simp add: raw_socket_recv_def recv_loop.simps sample_world_def idle_def)

lemma sample_run_loop:
  "\<exists>c ring f. run_loop (w_events sample_world) False (\<lambda>_. 1000) queue_push_callback 0 start_cursor sample_blocks (replicate 65536 0)
      (Some \<lparr>contents = d, writes = 1\<rparr>) []
    = Some (0, c, ring, [10, 11, 12] @ replicate 65533 0, Some f, [captured_of ([10, 11, 12], 7, 9)], 2)"
proof -
  obtain c ring where r: "raw_socket_recv (w_events sample_world) 0 (Some start_cursor) sample_blocks (Some (replicate 65536 0)) 65536 (Some 0) (Some 0)
    = Some (3, Some c, ring, Some ([10, 11, 12] @ replicate 65533 0), Some 7, Some 9, 1)" using sample_recv by blast
  show ?thesis
    by (simp add: run_loop.simps r sample_stop record_frame_def write_pcap_record_def fwrite_def record_header_bytes_def
        memcpy_from_def queue_push_callback_def captured_frame_def captured_of_def)
qed


lemma sample_ring_ok: "cursor_ok start_cursor sample_blocks" "\<forall>j. kernel_ok (ev_kernel (w_events sample_world j))"
  using idle_kernel_ok
  by (simp_all add: cursor_ok_def start_cursor_def sample_blocks_def ring_ok_def sample_ring_def is_user_def block_ok_def
      block_pkts_def hdr_ok_def sample_hdr_def sample_world_def)

lemma sample_run:
  "\<exists>p'. run_impl sample_world (Some ''eth0'') None (Some ''a.pcap'') queue_push_callback [] (replicate 65536 0) sample_proc
    = Some (0, [captured_of ([10, 11, 12], 7, 9)], [10, 11, 12] @ replicate 65533 0, p')"
proof -
  obtain ctx s1 where o: "raw_socket_open all_ok (Some ''eth0'') fresh_os = (Some ctx, s1)"
    by (simp add: raw_socket_open_def all_ok_def Let_def)
  have cur: "rs_cursor ctx = start_cursor" using raw_socket_open_held(1) [OF o] by simp
  obtain c ring f where "run_loop (w_events sample_world) False (\<lambda>_. 1000) queue_push_callback 0 start_cursor sample_blocks
      (replicate 65536 0) (Some \<lparr>contents = global_header_bytes False pcap_header, writes = 1\<rparr>) []
    = Some (0, c, ring, [10, 11, 12] @ replicate 65533 0, Some f, [captured_of ([10, 11, 12], 7, 9)], 2)"
    using sample_run_loop by blast
  then show ?thesis
    using o cur
    by (simp add: run_impl_def compile_filter_def open_and_attach_def sample_proc_def sample_world_def run_opened_def
        open_pcap_def write_pcap_global_header_def fwrite_def length_global_header end_run_def fclose_def signal_def Let_def
        split: prod.splits)
qed

subsection \<open>Properties\<close>





text \<open>A run ends once it is asked to stop, whatever the kernel delivers and whichever system call fails.\<close>

lemma run_impl_stops:
  assumes "\<forall>j. kernel_ok (ev_kernel (w_events w j))" "\<forall>j \<ge> m. ev_stop (w_events w j)"
    and "cursor_ok start_cursor (w_ring w)" "length buf = 65536"
    and "compile_filter w bpf_filter p \<noteq> None"
  shows "run_impl w device bpf_filter path queue_push_callback pushed buf p \<noteq> None"
proof -
  obtain rc prog p1 where c: "compile_filter w bpf_filter p = Some (rc, prog, p1)" using assms(5) by auto
  have opened: "run_opened w ctx path queue_push_callback pushed buf p2 \<noteq> None"
    if "open_and_attach w device prog p1 = (Some ctx, p2)" "rc = 0" for ctx p2
  proof -
    have cur: "rs_cursor ctx = start_cursor"
      using open_and_attach_ok [OF c [unfolded that(2)] that(1)] raw_socket_open_held(1) by (auto simp: opened_def)
    obtain rc2 pf p3 where f: "open_pcap w path p2 = (rc2, pf, p3)" by (cases "open_pcap w path p2")
    obtain res c ring buf' pf' pushed' k where
      "run_loop (w_events w) (w_big w) (w_fwrite w) queue_push_callback 0 start_cursor (w_ring w) buf pf pushed
        = Some (res, c, ring, buf', pf', pushed', k)"
      using queue_push.run_loop_stops [OF assms(1-4), of "w_big w" "w_fwrite w" 0 pf pushed] by (metis surj_pair)
    with f cur show ?thesis by (simp add: run_opened_def Let_def split: prod.splits)
  qed
  show ?thesis using c opened by (auto simp: run_impl_def split: prod.splits option.splits)
qed

text \<open>
  \<open>capture_backend_list_devices\<close> fills the caller's array with every interface once, in the order of
  \<open>getifaddrs\<close> and with an empty description, up to the smaller of \<open>max_devices\<close> and 32, leaves the rest of
  the array alone, and returns their number.
\<close>

theorem list_devices_impl_correct:
  assumes "\<forall>name. Some name \<in> set addrs \<longrightarrow> length name < 256" "length raw = 32" "0 < max_devices"
    and "max_devices \<le> int (length output)"
  shows "capture_backend_list_devices (Some addrs) raw output max_devices =
    (let devices = take (nat (min max_devices 32)) (firsts (names addrs)) in
     Some (int (length devices), map (\<lambda>name. \<lparr>cd_name = name, cd_description = []\<rparr>) devices @ drop (length devices) output))"
proof -
  let ?max = "min max_devices 32"
  define devices where "devices = take (nat (min max_devices 32)) (firsts (names addrs))"
  have len: "length devices \<le> length raw" "length devices \<le> length output" using assms(2-4) by (auto simp: devices_def)
  have loop: "list_devices_loop ?max addrs [] = devices" "?max \<noteq> 0"
    using list_devices_loop_eq [OF assms(1), of "[]" ?max] assms(3) by (simp_all add: devices_def)
  have "raw_socket_list_devices (Some addrs) (Some raw) ?max
      = Some (int (length devices), Some (devices @ drop (length devices) raw))"
    using len(1) loop by (simp add: raw_socket_list_devices_def)
  moreover have "\<forall>name \<in> set devices. length name < 256"
    using set_firsts [of "nat ?max" "names addrs"] assms(1) unfolding devices_def by fastforce
  with len(2) have "copy_devices devices output
      = Some (map (\<lambda>name. \<lparr>cd_name = name, cd_description = []\<rparr>) devices @ drop (length devices) output)"
    by (rule copy_devices_eq)
  moreover have "(if max_devices > int CAPTURE_MAX_DEVICES then int CAPTURE_MAX_DEVICES else max_devices) = ?max" by simp
  ultimately show ?thesis unfolding backend_defs list_devices_impl_def devices_def [symmetric] by (simp add: Let_def)
qed

theorem list_devices_impl_correct_witness:
  "capture_backend_list_devices (Some [Some ''lo'', Some ''eth0'', Some ''lo'']) (replicate 32 [])
      (replicate 3 \<lparr>cd_name = ''x'', cd_description = ''y''\<rparr>) 3
    = Some (2, [\<lparr>cd_name = ''lo'', cd_description = []\<rparr>, \<lparr>cd_name = ''eth0'', cd_description = []\<rparr>,
        \<lparr>cd_name = ''x'', cd_description = ''y''\<rparr>])"
  using list_devices_impl_correct [of "[Some ''lo'', Some ''eth0'', Some ''lo'']" "replicate 32 []" 3
      "replicate 3 \<lparr>cd_name = ''x'', cd_description = ''y''\<rparr>"]
  by (auto simp: numeral_3_eq_3)

text \<open>
  After a run that returns 0, \<open>get_last_stats\<close> reports the packets and drops the kernel counted for its
  socket, or fails if the counters could not be read.
\<close>

theorem run_impl_last_stats:
  assumes "capture_backend_run w device bpf_filter path cb user buf p = Some (0, user', buf', p')"
    and "contexts p (w_addr w) = None" "g_active_ctx p = None"
  shows "capture_backend_get_last_stats (Some out) p'
    = (if ok_statistics (w_close w) then (0, Some (w_counted w)) else (-1, Some out))"
  using run_impl_outcome [of w device bpf_filter path cb user buf p 0 user' buf' p'] assms
  by (auto simp: backend_defs get_last_stats_impl_def ran_def)

theorem run_impl_last_stats_witness:
  "\<exists>pushed buf' p'. capture_backend_run sample_world (Some ''eth0'') None (Some ''a.pcap'') queue_push_callback [] (replicate 65536 0)
      sample_proc = Some (0, pushed, buf', p')
    \<and> capture_backend_get_last_stats (Some \<lparr>packets_captured = 0, packets_dropped = 0\<rparr>) p'
      = (0, Some \<lparr>packets_captured = 1, packets_dropped = 0\<rparr>)"
proof -
  obtain pushed buf' p' where r: "capture_backend_run sample_world (Some ''eth0'') None (Some ''a.pcap'') queue_push_callback []
      (replicate 65536 0) sample_proc = Some (0, pushed, buf', p')"
    using sample_run by (auto simp: backend_defs)
  from run_impl_last_stats [OF r] r show ?thesis by (auto simp: sample_world_def sample_proc_def all_ok_def)
qed



text \<open>
  C10: The socket a run captures from carries the compiled filter: its program accepts exactly the packets on
  which the sentence spelled by the expression is true.
\<close>

theorem run_attaches_filter:
  assumes "compile_filter w (Some s) p = Some (0, prog, p1)" "s \<noteq> []" "open_and_attach w device prog p1 = (Some ctx, p2)"
  shows "\<exists>code ts n. filter_attached (p_os p2) = Some code \<and> bpf_attachable code \<and> spells tok_text s ts
    \<and> or_expr cf_syntax ts n \<and> (\<forall>pkt m. buf_ok pkt m \<longrightarrow>
      bpf_interp_run (Some \<lparr>fprog_len = of_nat (length code), fprog_filter = Some code\<rparr>) pkt m
        = Some (if cf_eval pkt m n = Some True then CF_ACCEPT_LEN else 0))"
  using assms(1)
proof (cases rule: compile_filter_cases)
  case (accept s' ts n code)
  have "filter_attached (p_os p2) = Some code"
    using open_and_attach_ok [OF assms(1,3)] unfolding opened_def accept(2) program_def by auto
  moreover have "bpf_attachable code" using accept(7) by (simp add: implements_def)
  ultimately show ?thesis
    using accept(4-7) implements_run [OF accept(7)] unfolding program_def by blast
qed (use assms(2) in auto)

theorem run_attaches_filter_witness:
  "\<exists>prog p1 ctx p2 code ts n. compile_filter sample_world (Some ''arp'') sample_proc = Some (0, prog, p1)
    \<and> open_and_attach sample_world (Some ''eth0'') prog p1 = (Some ctx, p2)
    \<and> filter_attached (p_os p2) = Some code \<and> spells tok_text ''arp'' ts \<and> or_expr cf_syntax ts n \<and> (\<forall>pkt m. buf_ok pkt m \<longrightarrow>
      bpf_interp_run (Some \<lparr>fprog_len = of_nat (length code), fprog_filter = Some code\<rparr>) pkt m
        = Some (if cf_eval pkt m n = Some True then CF_ACCEPT_LEN else 0))"
proof -
  have "(case capfilter_compile True (Some ''arp'') (Some no_filter) (Some []) 128 of
      Some (rc, Some q, e) \<Rightarrow> rc = 0 \<and> fprog_filter q \<noteq> None | _ \<Rightarrow> False)" by code_simp
  then obtain q e code where q: "capfilter_compile True (Some ''arp'') (Some no_filter) (Some []) 128 = Some (0, Some q, e)"
    "fprog_filter q = Some code" by (auto split: option.splits)
  from q(1) obtain p1 where c: "compile_filter sample_world (Some ''arp'') sample_proc = Some (0, Some q, p1)"
    by (simp add: compile_filter_def sample_world_def Let_def)
  obtain ctx s1 where "raw_socket_open all_ok (Some ''eth0'') (p_os p1) = (Some ctx, s1)"
    by (simp add: raw_socket_open_def all_ok_def Let_def)
  moreover have "ok_attach all_ok" by (simp add: all_ok_def)
  ultimately obtain p2 where o: "open_and_attach sample_world (Some ''eth0'') (Some q) p1 = (Some ctx, p2)"
    using q(2) by (simp add: open_and_attach_def raw_socket_attach_filter_def sample_world_def Let_def)
  from run_attaches_filter [OF c _ o] c o show ?thesis by blast
qed

end
