(* ===== verification/Stop_Race.thy ===== *)
theory Stop_Race
  imports Capture_Backend
begin

text \<open>
  The end of a run against a \<open>SIGINT\<close>: the handler of \<open>capture_backend_linux.c\<close> loads \<open>g_active_ctx\<close> and then
  writes through the pointer; the end of \<open>run_impl\<close> restores the old handler, clears \<open>g_active_ctx\<close> and frees
  the context. \<open>main.cpp\<close> runs \<open>run_impl\<close> on its own thread, and the signal may be delivered to either
  thread, so the steps of the two interleave.
\<close>

text \<open>Where the capture thread is (lines 186--240), and what the handler has loaded, if it is running.\<close>

datatype run_pc = R_Loop | R_Restored | R_Cleared | R_Closed

datatype handler_pc = H_Idle | H_Loaded "nat option"

record race =
  r_proc :: proc
  r_run :: run_pc
  r_handler :: handler_pc
  r_freed_write :: bool

text \<open>The write of the handler through the pointer it has loaded.\<close>

definition handler_write :: "nat option \<Rightarrow> race \<Rightarrow> race" where
  "handler_write ptr s =
     (case request_stop_impl ((r_proc s)\<lparr>g_active_ctx := ptr\<rparr>) of
        None \<Rightarrow> s\<lparr>r_handler := H_Idle, r_freed_write := True\<rparr>
      | Some p \<Rightarrow> s\<lparr>r_handler := H_Idle, r_proc := p\<lparr>g_active_ctx := g_active_ctx (r_proc s)\<rparr>\<rparr>)"

inductive run_step :: "world \<Rightarrow> raw_socket_ctx \<Rightarrow> sighandler \<Rightarrow> race \<Rightarrow> race \<Rightarrow> bool" for w ctx previous where
  restore: "r_run s = R_Loop \<Longrightarrow>
    run_step w ctx previous s (s\<lparr>r_run := R_Restored, r_proc := snd (signal (w_restore w) previous (r_proc s))\<rparr>)"
| clear: "r_run s = R_Restored \<Longrightarrow>
    run_step w ctx previous s (s\<lparr>r_run := R_Cleared, r_proc := (r_proc s)\<lparr>g_active_ctx := None\<rparr>\<rparr>)"
| free: "r_run s = R_Cleared \<Longrightarrow>
    run_step w ctx previous s (s\<lparr>r_run := R_Closed, r_proc := close_context w ctx (r_proc s)\<rparr>)"

inductive handler_step :: "race \<Rightarrow> race \<Rightarrow> bool" where
  load: "r_handler s = H_Idle \<Longrightarrow> sigint (r_proc s) = On_sigint \<Longrightarrow>
    handler_step s (s\<lparr>r_handler := H_Loaded (g_active_ctx (r_proc s))\<rparr>)"
| store: "r_handler s = H_Loaded a \<Longrightarrow> handler_step s (handler_write a s)"

text \<open>
  Two schedules: any interleaving, and the one where a signal is taken by the capture thread itself, so
  that the handler runs to its end before \<open>run_impl\<close> goes on.
\<close>

inductive threads :: "world \<Rightarrow> raw_socket_ctx \<Rightarrow> sighandler \<Rightarrow> race \<Rightarrow> race \<Rightarrow> bool" for w ctx previous s where
  threads_start: "threads w ctx previous s s"
| threads_run: "threads w ctx previous s t \<Longrightarrow> run_step w ctx previous t u \<Longrightarrow> threads w ctx previous s u"
| threads_handler: "threads w ctx previous s t \<Longrightarrow> handler_step t u \<Longrightarrow> threads w ctx previous s u"

inductive one_thread :: "world \<Rightarrow> raw_socket_ctx \<Rightarrow> sighandler \<Rightarrow> race \<Rightarrow> race \<Rightarrow> bool" for w ctx previous s where
  one_start: "one_thread w ctx previous s s"
| one_run: "one_thread w ctx previous s t \<Longrightarrow> r_handler t = H_Idle \<Longrightarrow> run_step w ctx previous t u \<Longrightarrow>
    one_thread w ctx previous s u"
| one_handler: "one_thread w ctx previous s t \<Longrightarrow> handler_step t u \<Longrightarrow> one_thread w ctx previous s u"

inductive_cases run_stepE: "run_step w ctx previous s t"
inductive_cases handler_stepE: "handler_step s t"

text \<open>The state in the loop of a run.\<close>

definition in_loop :: "world \<Rightarrow> race \<Rightarrow> bool" where
  "in_loop w s \<longleftrightarrow> r_run s = R_Loop \<and> r_handler s = H_Idle \<and> \<not> r_freed_write s
     \<and> g_active_ctx (r_proc s) = Some (w_addr w) \<and> contexts (r_proc s) (w_addr w) \<noteq> None \<and> sigint (r_proc s) = On_sigint"

subsection \<open>One thread\<close>

text \<open>What the handler may find: its pointer, loaded or still to be loaded, is \<open>NULL\<close> or a live context.\<close>

definition pointer_live :: "world \<Rightarrow> race \<Rightarrow> bool" where
  "pointer_live w s \<longleftrightarrow> \<not> r_freed_write s
     \<and> (\<forall>a. r_handler s = H_Loaded (Some a) \<longrightarrow> contexts (r_proc s) a \<noteq> None)
     \<and> (\<forall>a. g_active_ctx (r_proc s) = Some a \<longrightarrow> contexts (r_proc s) a \<noteq> None)
     \<and> (r_run s = R_Cleared \<or> r_run s = R_Closed \<longrightarrow> g_active_ctx (r_proc s) = None)"

lemma in_loop_live: "in_loop w s \<Longrightarrow> pointer_live w s"
  by (auto simp: in_loop_def pointer_live_def)

lemma handler_step_live: "pointer_live w s \<Longrightarrow> handler_step s t \<Longrightarrow> pointer_live w t"
  by (erule handler_stepE)
    (auto simp: pointer_live_def handler_write_def request_stop_impl_def raw_socket_request_stop_def split: option.splits)

lemma run_step_live:
  "pointer_live w s \<Longrightarrow> r_handler s = H_Idle \<Longrightarrow> run_step w ctx previous s t \<Longrightarrow> pointer_live w t"
  by (erule run_stepE) (auto simp: pointer_live_def signal_def close_context_def)

lemma one_thread_live: "one_thread w ctx previous s t \<Longrightarrow> pointer_live w s \<Longrightarrow> pointer_live w t"
  by (induction rule: one_thread.induct) (auto intro: handler_step_live run_step_live)

subsection \<open>Properties\<close>

text \<open>
  C29: A \<open>SIGINT\<close> that the capture thread itself takes is safe at every moment from the loop to the end of the
  run: the handler never writes to a freed context, because the pointer is cleared before the context
  is freed, and a handler that has found a context sets its stop flag.
\<close>

theorem sigint_safe_on_one_thread:
  assumes "in_loop w s" "one_thread w ctx previous s t"
  shows "\<not> r_freed_write t \<and> (\<forall>u. handler_step t u \<longrightarrow> \<not> r_freed_write u
    \<and> (\<forall>a. r_handler t = H_Loaded (Some a) \<longrightarrow> (\<exists>c. contexts (r_proc u) a = Some c \<and> stop_requested c)))"
proof -
  have live: "pointer_live w t" using one_thread_live [OF assms(2)] in_loop_live [OF assms(1)] by blast
  then have "\<not> r_freed_write t" "\<forall>u. handler_step t u \<longrightarrow> \<not> r_freed_write u"
    using handler_step_live pointer_live_def by blast+
  moreover have "\<exists>c. contexts (r_proc u) a = Some c \<and> stop_requested c"
    if "handler_step t u" "r_handler t = H_Loaded (Some a)" for u a
    using that live by (elim handler_stepE)
      (auto simp: pointer_live_def handler_write_def request_stop_impl_def raw_socket_request_stop_def)
  ultimately show ?thesis by blast
qed

definition sample_ctx :: raw_socket_ctx where
  "sample_ctx = \<lparr>stop_requested = False, device_name = ''eth0'', promisc_set_by_us = False, rs_cursor = start_cursor\<rparr>"

definition sample_race :: race where
  "sample_race = \<lparr>r_proc = sample_proc\<lparr>contexts := [100 \<mapsto> sample_ctx], g_active_ctx := Some 100, sigint := On_sigint\<rparr>,
     r_run = R_Loop, r_handler = H_Idle, r_freed_write = False\<rparr>"

lemma sample_in_loop: "in_loop sample_world sample_race"
  by (simp add: in_loop_def sample_race_def sample_world_def sample_proc_def)

theorem sigint_safe_on_one_thread_witness:
  "\<exists>t. one_thread sample_world sample_ctx SIG_DFL sample_race t \<and> r_handler t = H_Loaded (Some 100)
    \<and> (\<forall>u. handler_step t u \<longrightarrow> \<not> r_freed_write u \<and> (\<exists>c. contexts (r_proc u) 100 = Some c \<and> stop_requested c))"
proof -
  let ?t = "sample_race\<lparr>r_handler := H_Loaded (Some 100)\<rparr>"
  have "handler_step sample_race ?t" using load [of sample_race] by (simp add: sample_race_def sample_proc_def)
  then have t: "one_thread sample_world sample_ctx SIG_DFL sample_race ?t" by (blast intro: one_thread.intros)
  from sigint_safe_on_one_thread [OF sample_in_loop t] t show ?thesis by (intro exI [of _ ?t]) simp
qed

text \<open>
  C33: A \<open>SIGINT\<close> that another thread takes can be fatal: from every state in the loop there is an
  interleaving in which the handler loads the pointer, the capture thread restores the old handler, clears
  the pointer and frees the context, and the handler then writes to the freed context.
\<close>

theorem sigint_use_after_free:
  assumes "in_loop w s"
  shows "\<exists>t. threads w ctx previous s t \<and> r_freed_write t"
proof -
  let ?s1 = "s\<lparr>r_handler := H_Loaded (g_active_ctx (r_proc s))\<rparr>"
  let ?s2 = "?s1\<lparr>r_run := R_Restored, r_proc := snd (signal (w_restore w) previous (r_proc ?s1))\<rparr>"
  let ?s3 = "?s2\<lparr>r_run := R_Cleared, r_proc := (r_proc ?s2)\<lparr>g_active_ctx := None\<rparr>\<rparr>"
  let ?s4 = "?s3\<lparr>r_run := R_Closed, r_proc := close_context w ctx (r_proc ?s3)\<rparr>"
  let ?s5 = "handler_write (Some (w_addr w)) ?s4"
  have "threads w ctx previous s ?s1"
    by (rule threads_handler [OF threads_start], rule load) (use assms in \<open>simp_all add: in_loop_def\<close>)
  then have "threads w ctx previous s ?s2"
    by (rule threads_run, intro restore) (use assms in \<open>simp add: in_loop_def\<close>)
  then have "threads w ctx previous s ?s3" by (rule threads_run, intro clear) simp
  then have "threads w ctx previous s ?s4" by (rule threads_run, intro free) simp
  then have "threads w ctx previous s ?s5"
    by (rule threads_handler, intro store) (use assms in \<open>simp add: in_loop_def\<close>)
  moreover have "r_freed_write ?s5"
    by (simp add: handler_write_def request_stop_impl_def close_context_def)
  ultimately show ?thesis by blast
qed

theorem sigint_use_after_free_witness:
  "\<exists>t. threads sample_world sample_ctx SIG_DFL sample_race t \<and> r_freed_write t"
  using sigint_use_after_free [OF sample_in_loop] .

end
