(* ===== verification/Filter_Agreement.thy ===== *)
theory Filter_Agreement
  imports Packet_Printer Capfilter
begin

text \<open>
  The two filter languages against each other: what the capture filter, which the kernel runs on the raw
  frame, finds in a frame, and what the analyzer decodes from the same frame for the display filter.
\<close>

subsection \<open>Reading the same bytes\<close>

lemma ucast_u16_u32_eq: "(ucast (a :: u16) :: u32) = ucast b \<longleftrightarrow> a = b"
  by transfer (simp add: min_def)

lemma be32_eq_addr:
  assumes "length a = 4" "length b = 4"
  shows "be32 (b ! 0) (b ! 1) (b ! 2) (b ! 3) = addr_value a \<longleftrightarrow> b = a"
proof
  assume "be32 (b ! 0) (b ! 1) (b ! 2) (b ! 3) = addr_value a"
  then have "bytes32 (be32 (b ! 0) (b ! 1) (b ! 2) (b ! 3)) = bytes32 (be32 (a ! 0) (a ! 1) (a ! 2) (a ! 3))"
    by (simp add: addr_value_def)
  with assms show "b = a"
    by (simp add: bytes32_be32 list_eq_iff_nth_eq numeral_eq_Suc less_Suc_eq)
qed (simp add: addr_value_def)


lemma be32_at:
  assumes "length addr = 4" "off + 4 \<le> length pkt"
  shows "be32 (pkt ! off) (pkt ! (off + 1)) (pkt ! (off + 2)) (pkt ! (off + 3)) = addr_value addr
    \<longleftrightarrow> take 4 (drop off pkt) = addr"
proof -
  have "take 4 (drop off pkt) ! i = pkt ! (off + i)" if "i < 4" for i using that assms(2) by simp
  from this [of 0] this [of 1] this [of 2] this [of 3] be32_eq_addr [OF assms(1), of "take 4 (drop off pkt)"] assms(2)
  show ?thesis by (simp del: nth_take nth_drop)
qed

lemma eth_view_ipv4:
  assumes "pkt_half pkt len 12 = Some ETHERTYPE_IPV4"
  obtains eth where "eth_view pkt len = Some (eth, drop 14 pkt, len - 14)" "ether_type eth = ETH_TYPE_IPV4" "14 \<le> unat len"
proof -
  have len: "14 \<le> unat len" and "(ucast (be16 (pkt ! 12) (pkt ! 13)) :: u32) = ucast (0x800 :: u16)"
    using assms by (auto simp: pkt_half_def split: if_splits)
  then have "be16 (pkt ! 12) (pkt ! 13) = 0x800" using ucast_u16_u32_eq by blast
  with len show thesis by (intro that) (auto simp: eth_view_def)
qed

text \<open>An untagged IPv4 frame that the analyzer decodes down to a TCP segment.\<close>

definition ipv4_tcp_frame :: "frame \<Rightarrow> bool" where
  "ipv4_tcp_frame fr \<longleftrightarrow> buf_ok (fr_packet fr) (fr_length fr) \<and> pkt_half (fr_packet fr) (fr_length fr) 12 = Some ETHERTYPE_IPV4
     \<and> has_tcp (fst (decode fr)) = 1"

lemma ipv4_tcp_layout:
  assumes "ipv4_tcp_frame fr"
  defines "pkt \<equiv> fr_packet fr" and "flds \<equiv> fst (decode fr)"
  defines "hl \<equiv> 4 * (unat (pkt ! 14) mod 16)"
  shows "unat (fr_length fr) \<le> length pkt" "20 \<le> hl" "34 + hl \<le> unat (fr_length fr)" "pkt ! 23 = 6"
    "fld_ip_src flds = take 4 (drop 26 pkt)" "fld_ip_dst flds = take 4 (drop 30 pkt)"
    "fld_tcp_src_port flds = be16 (pkt ! (14 + hl)) (pkt ! (15 + hl))"
    "fld_tcp_dst_port flds = be16 (pkt ! (16 + hl)) (pkt ! (17 + hl))"
    "has_ip flds = 1" "has_tcp flds = 1" "fields_wf flds"
proof -
  let ?len = "fr_length fr" and ?d = "drop 14 pkt" and ?m = "fr_length fr - 14"
  have buf: "unat ?len \<le> length pkt" and tcp: "has_tcp flds = 1"
    using assms(1) by (simp_all add: ipv4_tcp_frame_def buf_ok_def pkt_def flds_def)
  obtain eth where eth: "eth_view pkt ?len = Some (eth, ?d, ?m)" "ether_type eth = ETH_TYPE_IPV4" "14 \<le> unat ?len"
    using assms(1) eth_view_ipv4 by (auto simp: ipv4_tcp_frame_def pkt_def)
  define f0 where "f0 = zero_fields\<lparr>fld_eth_src := src_mac eth, fld_eth_dst := dst_mac eth\<rparr>"
  have flds: "flds = fst (decode_ipv4 fr f0 eth ?d ?m)"
    using eth by (simp add: flds_def decode_def pkt_def [symmetric] f0_def Let_def)
  have f0: "has_tcp f0 = 0" by (simp add: f0_def zero_fields_def)
  have m: "unat ?m = unat ?len - 14" using eth(3) by (simp add: unat_sub word_le_nat_alt)
  define k where "k = ip_payload_len ?m (ucast (?d ! 0 AND 0x0F) * 4) (be16 (?d ! 2) (?d ! 3))"
  have ok: "ip_accepts ?d ?m" "ip_protocol (ip_fields ?d) = 6" "tcp_accepts (drop (ip_hlen ?d) ?d) k"
    using tcp f0 unfolding flds decode_ipv4_def by (auto simp: Let_def k_def split: if_splits)
  have d: "?d ! i = pkt ! (14 + i)" if "14 + i \<le> unat ?len" for i using that buf by (simp add: nth_drop)
  have hl: "ip_hlen ?d = hl" using d [of 0] eth(3) by (simp add: hl_def)
  have bound: "20 \<le> hl" "hl + unat k \<le> unat ?len - 14" "20 \<le> unat k"
    using ip_payload_inside [OF ok(1)] ok(3) m by (auto simp: hl k_def tcp_accepts_def)
  then show "20 \<le> hl" "34 + hl \<le> unat ?len" using eth(3) by auto
  show "unat ?len \<le> length pkt" by (fact buf)
  show "pkt ! 23 = 6" using ok(2) d [of 9] bound by (simp add: ip_fields_def)
  define P where "P = drop (ip_hlen ?d) ?d"
  have p: "P ! i = pkt ! (14 + (hl + i))" if "i < 20" for i
    unfolding P_def hl using that bound buf d [of "hl + i"] by (subst nth_drop) auto
  have ports: "P ! 0 = pkt ! (14 + hl)" "P ! Suc 0 = pkt ! (15 + hl)" "P ! 2 = pkt ! (16 + hl)" "P ! 3 = pkt ! (17 + hl)"
    using p [of 0] p [of 1] p [of 2] p [of 3] by (simp_all add: add.commute)
  show "fld_ip_src flds = take 4 (drop 26 pkt)" "fld_ip_dst flds = take 4 (drop 30 pkt)"
    "fld_tcp_src_port flds = be16 (pkt ! (14 + hl)) (pkt ! (15 + hl))"
    "fld_tcp_dst_port flds = be16 (pkt ! (16 + hl)) (pkt ! (17 + hl))"
    using ok unfolding flds decode_ipv4_def k_def [symmetric] P_def [symmetric]
    by (simp_all add: Let_def ip_fields_def tcp_fields_def ports)
  show "has_tcp flds = 1" by (fact tcp)
  show "has_ip flds = 1" "fields_wf flds"
    using ok eth bound buf unfolding flds decode_ipv4_def k_def [symmetric] P_def [symmetric]
    by (auto simp: Let_def ip_fields_def tcp_fields_def fields_wf_def f0_def zero_fields_def eth_view_def split: if_splits)
qed


text \<open>The primitives of the capture filter on such a frame, against the decoded fields.\<close>

lemma tests_on_ipv4_tcp:
  assumes "buf_ok (fr_packet fr) (fr_length fr)" "pkt_half (fr_packet fr) (fr_length fr) 12 = Some 0x0800"
    and "has_tcp (fst (decode fr)) = 1" "length addr = 4"
  shows "cf_eval (fr_packet fr) (fr_length fr) (under_ipv4 (N_IPPROTO 6)) = Some True
    \<and> cf_eval (fr_packet fr) (fr_length fr) (under_ipv4 (N_PORT DIR_SRC (ucast port)))
        = Some (fld_tcp_src_port (fst (decode fr)) = port)
    \<and> cf_eval (fr_packet fr) (fr_length fr) (under_ipv4 (N_PORT DIR_DST (ucast port)))
        = Some (fld_tcp_dst_port (fst (decode fr)) = port)
    \<and> cf_eval (fr_packet fr) (fr_length fr) (under_ipv4 (N_HOST DIR_SRC addr)) = Some (fld_ip_src (fst (decode fr)) = addr)
    \<and> cf_eval (fr_packet fr) (fr_length fr) (under_ipv4 (N_HOST DIR_DST addr)) = Some (fld_ip_dst (fst (decode fr)) = addr)"
proof -
  let ?pkt = "fr_packet fr"
  have fr: "ipv4_tcp_frame fr" using assms(1-3) by (simp add: ipv4_tcp_frame_def)
  note lay = ipv4_tcp_layout [OF fr]
  have len: "length ?pkt \<ge> 34" using lay(1,3) by linarith
  have addr: "be32 (?pkt ! 26) (?pkt ! 27) (?pkt ! 28) (?pkt ! 29) = addr_value addr \<longleftrightarrow> take 4 (drop 26 ?pkt) = addr"
    "be32 (?pkt ! 30) (?pkt ! 31) (?pkt ! 32) (?pkt ! 33) = addr_value addr \<longleftrightarrow> take 4 (drop 30 ?pkt) = addr"
    using be32_at [OF assms(4), of 26 ?pkt] be32_at [OF assms(4), of 30 ?pkt] len by simp_all
  let ?hl = "4 * (unat (?pkt ! 14) mod 16)"
  have under: "cf_eval ?pkt (fr_length fr) (under_ipv4 n) = cf_eval ?pkt (fr_length fr) n" for n
    using assms(2) by (simp add: under_ipv4_def)
  have byte: "pkt_byte ?pkt (fr_length fr) 23 = Some 6" "pkt_byte ?pkt (fr_length fr) 14 = Some (ucast (?pkt ! 14))"
    using lay(2-4) by (simp_all add: pkt_byte_def)
  have ports: "pkt_half ?pkt (fr_length fr) (14 + ?hl) = Some (ucast (fld_tcp_src_port (fst (decode fr))))"
    "pkt_half ?pkt (fr_length fr) (16 + ?hl) = Some (ucast (fld_tcp_dst_port (fst (decode fr))))"
    using lay(3,7,8) by (simp_all add: pkt_half_def)
  have words: "pkt_word ?pkt (fr_length fr) 26 = Some (be32 (?pkt ! 26) (?pkt ! 27) (?pkt ! 28) (?pkt ! 29))"
    "pkt_word ?pkt (fr_length fr) 30 = Some (be32 (?pkt ! 30) (?pkt ! 31) (?pkt ! 32) (?pkt ! 33))"
    using lay(2,3) by (simp_all add: pkt_word_def)
  show ?thesis
    unfolding under cf_eval.simps byte words bind.bind_lunit lay(5,6)
    using ports addr by (simp add: words ucast_u16_u32_eq)
qed

text \<open>
  Trees of the two languages that ask the same question: a port or an address, in either or in one
  direction, and the connectives.
\<close>

inductive counterpart :: "node_t \<Rightarrow> df_node_t \<Rightarrow> bool" where
  port: "counterpart (under_ipv4 (N_AND (Some tcp_or_udp) (Some (either_dir dir (\<lambda>d. N_PORT d (ucast p))))))
    (DN_CMP (case dir of None \<Rightarrow> FIELD_TCP_PORT | Some DIR_SRC \<Rightarrow> FIELD_TCP_SRCPORT | Some DIR_DST \<Rightarrow> FIELD_TCP_DSTPORT)
      CMP_EQ (V_PORT p))"
| host: "length a = 4 \<Longrightarrow> counterpart (under_ipv4 (either_dir dir (\<lambda>d. N_HOST d a)))
    (DN_CMP (case dir of None \<Rightarrow> FIELD_IP_ADDR | Some DIR_SRC \<Rightarrow> FIELD_IP_SRC | Some DIR_DST \<Rightarrow> FIELD_IP_DST) CMP_EQ (V_IPV4 a))"
| both: "counterpart l l' \<Longrightarrow> counterpart r r' \<Longrightarrow> counterpart (N_AND (Some l) (Some r)) (DN_AND (Some l') (Some r'))"
| either: "counterpart l l' \<Longrightarrow> counterpart r r' \<Longrightarrow> counterpart (N_OR (Some l) (Some r)) (DN_OR (Some l') (Some r'))"
| neither: "counterpart l l' \<Longrightarrow> counterpart (N_NOT (Some l)) (DN_NOT (Some l'))"

lemma counterpart_wf: "counterpart n d \<Longrightarrow> node_wf n \<and> df_node_wf d"
  by (induction rule: counterpart.induct)
    (auto simp: under_ipv4_def either_dir_def tcp_or_udp_def split: option.splits dir_t.splits)

lemma counterpart_eval:
  assumes "counterpart n d" "ipv4_tcp_frame fr"
  shows "cf_eval (fr_packet fr) (fr_length fr) n = Some (df_holds (fst (decode fr)) d)"
  using assms(1)
proof (induction rule: counterpart.induct)
  have f: "buf_ok (fr_packet fr) (fr_length fr)" "pkt_half (fr_packet fr) (fr_length fr) 12 = Some 0x0800" "has_tcp (fst (decode fr)) = 1"
    using assms(2) by (simp_all add: ipv4_tcp_frame_def)
  note tests = tests_on_ipv4_tcp [OF f] and lay = ipv4_tcp_layout(9-11) [OF assms(2)]
  have under: "cf_eval (fr_packet fr) (fr_length fr) (under_ipv4 n) = cf_eval (fr_packet fr) (fr_length fr) n" for n
    using f(2) by (simp add: under_ipv4_def)
  {
    case (port dir p)
    show ?case using tests [of "[0, 0, 0, 0]" p] lay unfolding under
      by (auto simp: either_dir_def tcp_or_udp_def split: option.splits dir_t.splits)
  next
    case (host a dir)
    show ?case using tests [OF host] lay unfolding under
      by (auto simp: either_dir_def split: option.splits dir_t.splits)
  }
qed auto



text \<open>An Ethernet frame with an IPv4 header of 20 bytes and a TCP header of 20 bytes, and the same over IPv6.\<close>

definition sample_macs :: buf where
  "sample_macs = [2, 0, 0, 0, 0, 2, 2, 0, 0, 0, 0, 1]"

definition sample_tcp :: buf where
  "sample_tcp = [0x1F, 0x90, 0x01, 0xBB, 0, 0, 0, 1, 0, 0, 0, 0, 0x50, 2, 4, 0, 0, 0, 0, 0]"

definition ipv4_tcp :: frame where
  "ipv4_tcp = \<lparr>fr_packet = sample_macs @ [8, 0] @ [0x45, 0, 0, 40, 0, 0, 0, 0, 64, 6, 0, 0, 10, 0, 0, 1, 10, 0, 0, 2] @ sample_tcp,
     fr_length = 54, fr_sec = 0, fr_usec = 0, fr_number = 1, fr_filter = None\<rparr>"

definition vlan_tcp :: frame where
  "vlan_tcp = \<lparr>fr_packet = sample_macs @ [0x81, 0, 0, 5, 8, 0]
       @ [0x45, 0, 0, 40, 0, 0, 0, 0, 64, 6, 0, 0, 10, 0, 0, 1, 10, 0, 0, 2] @ sample_tcp,
     fr_length = 58, fr_sec = 0, fr_usec = 0, fr_number = 1, fr_filter = None\<rparr>"

definition ipv6_tcp :: frame where
  "ipv6_tcp = \<lparr>fr_packet = sample_macs @ [0x86, 0xDD] @ [0x60, 0, 0, 0, 0, 20, 6, 64]
       @ [0, 0, 0, 0, 0, 0, 0, 0, 0, 0, 0, 0, 0, 0, 0, 1] @ [0, 0, 0, 0, 0, 0, 0, 0, 0, 0, 0, 0, 0, 0, 0, 2] @ sample_tcp,
     fr_length = 74, fr_sec = 0, fr_usec = 0, fr_number = 1, fr_filter = None\<rparr>"

lemmas sample_simps = ipv4_tcp_def vlan_tcp_def ipv6_tcp_def sample_macs_def sample_tcp_def

lemma sample_decoded:
  "has_tcp (fst (decode ipv4_tcp)) = 1 \<and> fld_tcp_dst_port (fst (decode ipv4_tcp)) = 443 \<and> fld_ip_src (fst (decode ipv4_tcp)) = [10, 0, 0, 1]"
  "has_tcp (fst (decode vlan_tcp)) = 1 \<and> fld_tcp_dst_port (fst (decode vlan_tcp)) = 443"
  "has_tcp (fst (decode ipv6_tcp)) = 1 \<and> fld_tcp_dst_port (fst (decode ipv6_tcp)) = 443"
  by (simp_all add: decode_def eth_view_def decode_ipv4_def decode_ipv6_def ip_accepts_def tcp_accepts_def ipv6_accepts_def
      ip_fields_def ipv6_fields_def tcp_fields_def ip_payload_len_def sample_simps be16_def Let_def)

subsection \<open>Properties\<close>

text \<open>
  C27: On untagged IPv4 the two filters agree. Take a frame from which the analyzer decodes a TCP segment,
  and two trees that ask the same question of ports and addresses, with any connectives. The program
  generated for the capture filter accepts the frame exactly if the display filter shows it, whatever
  the length of the IPv4 header.
\<close>

theorem filters_agree_on_ipv4_tcp:
  assumes "ipv4_tcp_frame fr" "counterpart n d" "\<not> failed c"
    and "cf_generate \<lparr>insns = [], gen_ctx = c\<rparr> (Some n) = Some (0, g)"
  shows "bpf_interp_run (Some \<lparr>fprog_len = of_nat (length (insns g)), fprog_filter = Some (insns g)\<rparr>) (fr_packet fr) (fr_length fr)
    = Some (if dispfilter_matches (Some \<lparr>node_total = k, root = Some d\<rparr>) (fst (decode fr)) = Some 1 then CF_ACCEPT_LEN else 0)"
proof -
  have "implements (insns g) n"
    using cf_generate_implements [of n c] counterpart_wf [OF assms(2)] assms(3,4) by auto
  from implements_run [OF this] have "bpf_interp_run (Some (program (insns g))) (fr_packet fr) (fr_length fr)
      = Some (if df_holds (fst (decode fr)) d then CF_ACCEPT_LEN else 0)"
    using assms(1) counterpart_eval [OF assms(2,1)] by (simp add: ipv4_tcp_frame_def)
  moreover have "eval_node d (fst (decode fr)) = Some (df_holds (fst (decode fr)) d)"
    using ipv4_tcp_layout(11) [OF assms(1)] counterpart_wf [OF assms(2)] by (simp add: eval_node_holds)
  ultimately show ?thesis by (simp add: dispfilter_matches_def program_def)
qed

theorem filters_agree_on_ipv4_tcp_witness:
  "\<exists>n d g. cf_generate \<lparr>insns = [], gen_ctx = init_ctx None 0\<rparr> (Some n) = Some (0, g)
    \<and> bpf_interp_run (Some \<lparr>fprog_len = of_nat (length (insns g)), fprog_filter = Some (insns g)\<rparr>) (fr_packet ipv4_tcp) (fr_length ipv4_tcp)
    = Some (if dispfilter_matches (Some \<lparr>node_total = 3, root = Some d\<rparr>) (fst (decode ipv4_tcp)) = Some 1 then CF_ACCEPT_LEN else 0)"
proof -
  let ?port = "under_ipv4 (N_AND (Some tcp_or_udp) (Some (either_dir (Some DIR_DST) (\<lambda>d. N_PORT d (ucast (443 :: u16))))))"
  let ?host = "under_ipv4 (either_dir None (\<lambda>d. N_HOST d [10, 0, 0, 9]))"
  let ?n = "N_AND (Some ?port) (Some (N_NOT (Some ?host)))"
  have fr: "ipv4_tcp_frame ipv4_tcp"
    using sample_decoded(1) by (simp add: ipv4_tcp_frame_def buf_ok_def pkt_half_def be16_def sample_simps)
  have cp: "counterpart ?n (DN_AND (Some (DN_CMP FIELD_TCP_DSTPORT CMP_EQ (V_PORT 443)))
      (Some (DN_NOT (Some (DN_CMP FIELD_IP_ADDR CMP_EQ (V_IPV4 [10, 0, 0, 9]))))))"
    using counterpart.both [OF counterpart.port [of "Some DIR_DST" 443] counterpart.neither [OF counterpart.host [of "[10, 0, 0, 9]" None]]]
    by simp
  have ok: "\<not> failed (init_ctx None 0)" by (simp add: init_ctx_def)
  have "(case cf_generate \<lparr>insns = [], gen_ctx = init_ctx None 0 :: cf_ctx_t\<rparr> (Some ?n) of Some (rc, _) \<Rightarrow> rc = 0 | None \<Rightarrow> False)"
    by code_simp
  then obtain g where "cf_generate \<lparr>insns = [], gen_ctx = init_ctx None 0\<rparr> (Some ?n) = Some (0, g)" by (auto split: option.splits)
  with filters_agree_on_ipv4_tcp [OF fr cp ok this] show ?thesis by blast
qed


end
