(* ===== verification/Pipeline.thy ===== *)
theory Pipeline
  imports Capture_Loop Packet_Printer
begin

text \<open>
  The pipeline of \<open>main.cpp\<close> around a capture back end: the capture thread pushes what the back end hands to
  \<open>queue_push_callback\<close>, the main thread pops and prints. The back end is a parameter, the function behind
  the \<open>run\<close> pointer of \<open>capture_backend_t\<close>; the locale \<open>capture_source\<close> is what the pipeline relies on.
  \<open>Main_Program\<close> interprets it for the Linux back end and \<open>Fake_Backend\<close> for the one of the tests. What is
  popped, given what was pushed, is the parameter \<open>transport\<close>, the subject of \<open>Packet_Queue\<close>.
\<close>

subsection \<open>Capturing and printing\<close>

type_synonym 's source =
  "CapturedFrame list callback \<Rightarrow> CapturedFrame list \<Rightarrow> 's \<Rightarrow> (int \<times> CapturedFrame list \<times> 's) option"

text \<open>A popped frame as the arguments of the printer callback.\<close>

definition print_args :: "CapturedFrame \<Rightarrow> buf \<times> u32 \<times> u32 \<times> u32" where
  "print_args frame = (cf_data frame, of_nat (length (cf_data frame)), cf_ts_seconds frame, cf_ts_microseconds frame)"

definition run_and_print ::
  "'s source \<Rightarrow> (CapturedFrame list \<Rightarrow> CapturedFrame list) \<Rightarrow> locals \<Rightarrow> dispfilter_t \<Rightarrow> string \<Rightarrow> 's \<Rightarrow> (int \<times> string \<times> 's) option" where
  "run_and_print run transport loc filt out s = do {
     (capture_result, pushed, s) \<leftarrow> run queue_push_callback [] s;
     ctx \<leftarrow> callback_run loc (map print_args (transport pushed)) \<lparr>ctx_os = out, ctx_count = 0, ctx_filter = Some filt\<rparr>;
     Some (capture_result, ctx_os ctx, s)
   }"

lemma run_and_print_ran:
  assumes "run_and_print run transport loc filt out s = Some (rc, out', s')"
  obtains pushed where "run queue_push_callback [] s = Some (rc, pushed, s')"
  using assms by (auto simp: run_and_print_def split: bind_splits)

subsection \<open>Frames through the queue\<close>

text \<open>The popped frames are printed as they were captured.\<close>

definition frame_args :: "captured \<Rightarrow> buf \<times> u32 \<times> u32 \<times> u32" where
  "frame_args fr = (case fr of (bytes, sec, usec) \<Rightarrow> (bytes, of_nat (length bytes), sec, usec))"

definition short_frames :: "captured list \<Rightarrow> bool" where
  "short_frames frames \<longleftrightarrow> (\<forall>(bytes, sec, usec) \<in> set frames. length bytes \<le> 65536)"

lemma short_frame_of: "short_frames (map frame_of xs)"
  by (auto simp: short_frames_def dest!: frame_of_short [OF sym])

lemma print_args_captured: "print_args (captured_of fr) = frame_args fr"
  by (cases fr) (simp add: print_args_def captured_of_def frame_args_def)

lemma callback_run_short:
  assumes "filter_wf filt" "short_frames frames"
  shows "callback_run loc (map frame_args frames) \<lparr>ctx_os = out, ctx_count = 0, ctx_filter = filt\<rparr>
    = Some \<lparr>ctx_os = out @ numbered 1 filt (map frame_args frames), ctx_count = of_nat (length frames), ctx_filter = filt\<rparr>"
proof -
  have "\<forall>(packet, len, sec, usec) \<in> set (map frame_args frames). buf_ok packet len \<and> unat len \<le> 65536"
    using assms(2) by (fastforce simp: short_frames_def frame_args_def buf_ok_def unat_of_nat)
  from callback_run_numbered [OF this, of "\<lparr>ctx_os = out, ctx_count = 0, ctx_filter = filt\<rparr>" 0] assms(1)
  show ?thesis by simp
qed

text \<open>What a finished run of the two threads hands to the printer.\<close>

definition queue_transport :: "(CapturedFrame list \<Rightarrow> CapturedFrame list) \<Rightarrow> bool" where
  "queue_transport transport \<longleftrightarrow>
     (\<forall>pushed. \<exists>k t. reachable (pipe_start 4096 k pushed) t \<and> finished t \<and> transport pushed = seen t)"

lemma queue_transport_id: "queue_transport transport \<Longrightarrow> transport pushed = pushed"
  unfolding queue_transport_def by (metis finished_saw_all pipe_inv_reachable)

lemma id_transport: "queue_transport (\<lambda>pushed. pushed)"
  unfolding queue_transport_def
proof
  fix pushed :: "CapturedFrame list"
  have inv: "pipe_inv 4096 pushed (pipe_start 4096 0 pushed)" by (rule pipe_inv_start)
  obtain t where t: "reachable (pipe_start 4096 0 pushed) t" "finished t"
    using pipe_completes [OF inv] by auto
  with finished_saw_all [OF pipe_inv_reachable [OF t(1)]] show "\<exists>k t. reachable (pipe_start 4096 k pushed) t \<and> finished t \<and> pushed = seen t"
    by auto
qed

subsection \<open>The contract of a back end\<close>

text \<open>
  From a state in which it may be started, a back end that returns has handed a sequence of frames to the
  callback, one call per frame and in order, each with its length.
\<close>

locale capture_source =
  fixes run :: "'s source" and ready :: "'s \<Rightarrow> bool"
  assumes hands_over: "ready s \<Longrightarrow> run queue_push_callback [] s = Some (rc, pushed, s') \<Longrightarrow>
    \<exists>frames. short_frames frames \<and> deliver queue_push_callback frames [] = Some pushed"
begin

lemma pushes:
  assumes "ready s" "run queue_push_callback [] s = Some (rc, pushed, s')"
  obtains frames where "short_frames frames" "pushed = map captured_of frames"
proof -
  from hands_over [OF assms] obtain frames where f: "short_frames frames" "deliver queue_push_callback frames [] = Some pushed" by blast
  then have "\<forall>(bytes, sec, usec) \<in> set frames. length bytes < 2 ^ 32" by (fastforce simp: short_frames_def)
  from deliver_queue_push [OF this, of "[]"] f that show thesis by simp
qed

text \<open>Then the pipeline prints that sequence, numbered and filtered, for every schedule of the threads.\<close>

lemma prints:
  assumes "ready s" "run queue_push_callback [] s = Some (rc, map captured_of frames, s')" "short_frames frames"
    and "queue_transport transport" "filter_wf (Some filt)"
  shows "run_and_print run transport loc filt out s = Some (rc, out @ numbered 1 (Some filt) (map frame_args frames), s')"
proof -
  have "map print_args (transport (map captured_of frames)) = map frame_args frames"
    using queue_transport_id [OF assms(4)] by (simp add: print_args_captured)
  with assms(2) callback_run_short [OF assms(5,3)] show ?thesis by (simp add: run_and_print_def)
qed

lemma prints_whatever:
  assumes "ready s" "run queue_push_callback [] s \<noteq> None" "queue_transport transport" "filter_wf (Some filt)"
  shows "\<exists>rc frames s'. short_frames frames
    \<and> run_and_print run transport loc filt out s = Some (rc, out @ numbered 1 (Some filt) (map frame_args frames), s')"
proof -
  obtain rc pushed s' where r: "run queue_push_callback [] s = Some (rc, pushed, s')" using assms(2) by auto
  obtain frames where f: "short_frames frames" "pushed = map captured_of frames" using pushes [OF assms(1) r] by blast
  with prints [OF assms(1) r [unfolded f(2)] f(1) assms(3,4)] show ?thesis by blast
qed

end

end
