(* ===== verification/Fake_Backend.thy ===== *)
theory Fake_Backend
  imports Pipeline Capture_Backend
begin

text \<open>
  \<open>src/src/tests/fake_capture_backend.c\<close>: the second implementation of \<open>capture_backend_t\<close>, which replays an
  array of frames. Its globals are a record. A callback may call back into the back end, as the tests
  do to stop a replay, so that it acts on the caller's state and on the record.
\<close>

subsection \<open>The back end\<close>

record fake_frame_t =
  ff_data :: buf
  ff_length :: u32
  ff_ts_seconds :: u32
  ff_ts_microseconds :: u32

record fake =
  g_frames :: "fake_frame_t list"
  g_frame_count :: int
  g_delivered :: int
  g_stop_requested :: int

type_synonym 'u fake_callback = "buf \<Rightarrow> u32 \<Rightarrow> u32 \<Rightarrow> u32 \<Rightarrow> 'u \<times> fake \<Rightarrow> ('u \<times> fake) option"

definition fake_capture_backend_set_frames :: "fake_frame_t list \<Rightarrow> int \<Rightarrow> fake \<Rightarrow> fake" where
  "fake_capture_backend_set_frames frames n g =
     g\<lparr>g_frames := frames, g_frame_count := n, g_delivered := 0, g_stop_requested := 0\<rparr>"

definition fake_capture_backend_delivered_count :: "fake \<Rightarrow> int" where
  "fake_capture_backend_delivered_count g = g_delivered g"

definition fake_list_devices :: "capture_device_t list \<Rightarrow> int \<Rightarrow> (int \<times> capture_device_t list) option" where
  "fake_list_devices output max_devices =
     (if max_devices \<le> 0 then Some (0, output)
      else (case output of
          [] \<Rightarrow> None
        | d # ds \<Rightarrow> Some (1, \<lparr>cd_name = strncpy CAPTURE_NAME_LEN ''fake0'', cd_description = []\<rparr> # ds)))"

text \<open>The loop, from index \<open>i\<close> on. The callback may change the globals that the loop reads.\<close>

partial_function (option) fake_loop :: "'u fake_callback \<Rightarrow> nat \<Rightarrow> 'u \<Rightarrow> fake \<Rightarrow> ('u \<times> fake) option" where
  "fake_loop cb i user g =
     (if int i < g_frame_count g then
        if g_stop_requested g \<noteq> 0 then Some (user, g)
        else if i \<ge> length (g_frames g) then None
        else do {
          let frame = g_frames g ! i;
          (user, g) \<leftarrow> cb (ff_data frame) (ff_length frame) (ff_ts_seconds frame) (ff_ts_microseconds frame) (user, g);
          fake_loop cb (Suc i) user (g\<lparr>g_delivered := g_delivered g + 1\<rparr>)
        }
      else Some (user, g))"

definition fake_run ::
  "string option \<Rightarrow> string option \<Rightarrow> string option \<Rightarrow> 'u fake_callback \<Rightarrow> 'u \<Rightarrow> fake \<Rightarrow> (int \<times> 'u \<times> fake) option" where
  "fake_run device bpf_filter pcap_path cb user g = do {
     (user, g) \<leftarrow> fake_loop cb 0 user (g\<lparr>g_delivered := 0\<rparr>);
     Some (0, user, g\<lparr>g_stop_requested := 0\<rparr>)
   }"

definition fake_request_stop :: "fake \<Rightarrow> fake" where
  "fake_request_stop g = g\<lparr>g_stop_requested := 1\<rparr>"

definition fake_get_last_stats :: "capture_stats_t option \<Rightarrow> int \<times> capture_stats_t option" where
  "fake_get_last_stats out = (-1, out)"

text \<open>The function table and the calls through it, which stand in for those of the Linux back end in a test program.\<close>

record 'u fake_backend_t =
  fb_list_devices :: "capture_device_t list \<Rightarrow> int \<Rightarrow> (int \<times> capture_device_t list) option"
  fb_run :: "string option \<Rightarrow> string option \<Rightarrow> string option \<Rightarrow> 'u fake_callback \<Rightarrow> 'u \<Rightarrow> fake \<Rightarrow> (int \<times> 'u \<times> fake) option"
  fb_request_stop :: "fake \<Rightarrow> fake"
  fb_get_last_stats :: "capture_stats_t option \<Rightarrow> int \<times> capture_stats_t option"

definition g_fake_backend :: "'u fake_backend_t" where
  "g_fake_backend = \<lparr>fb_list_devices = fake_list_devices, fb_run = fake_run, fb_request_stop = fake_request_stop,
     fb_get_last_stats = fake_get_last_stats\<rparr>"

definition fake_backend_list_devices :: "capture_device_t list \<Rightarrow> int \<Rightarrow> (int \<times> capture_device_t list) option" where
  "fake_backend_list_devices = fb_list_devices (g_fake_backend :: unit fake_backend_t)"

definition fake_backend_run ::
  "string option \<Rightarrow> string option \<Rightarrow> string option \<Rightarrow> 'u fake_callback \<Rightarrow> 'u \<Rightarrow> fake \<Rightarrow> (int \<times> 'u \<times> fake) option" where
  "fake_backend_run = fb_run g_fake_backend"

definition fake_backend_request_stop :: "fake \<Rightarrow> fake" where
  "fake_backend_request_stop = fb_request_stop (g_fake_backend :: unit fake_backend_t)"

definition fake_backend_get_last_stats :: "capture_stats_t option \<Rightarrow> int \<times> capture_stats_t option" where
  "fake_backend_get_last_stats = fb_get_last_stats (g_fake_backend :: unit fake_backend_t)"

lemmas fake_backend_defs = fake_backend_list_devices_def fake_backend_run_def fake_backend_request_stop_def
  fake_backend_get_last_stats_def g_fake_backend_def

lemma fake_backend_run_eq [simp]: "fake_backend_run = fake_run"
  by (simp add: fake_backend_defs)

subsection \<open>A replay\<close>

text \<open>A callback that does not touch the back end.\<close>

definition plain :: "'u callback \<Rightarrow> 'u fake_callback" where
  "plain cb d n sec usec = (\<lambda>(user, g). map_option (\<lambda>user. (user, g)) (cb d n sec usec user))"

text \<open>Installed frames: \<open>count\<close> arrays, passed with their size.\<close>

definition fake_ok :: "fake \<Rightarrow> bool" where
  "fake_ok g \<longleftrightarrow> g_frame_count g = int (length (g_frames g))
     \<and> (\<forall>x \<in> set (g_frames g). length (ff_data x) = unat (ff_length x) \<and> unat (ff_length x) \<le> 65536)"

definition frame_in :: "fake_frame_t \<Rightarrow> captured" where
  "frame_in x = (ff_data x, ff_ts_seconds x, ff_ts_microseconds x)"

lemma frame_in_short: "fake_ok g \<Longrightarrow> short_frames (map frame_in (g_frames g))"
  by (auto simp: fake_ok_def short_frames_def frame_in_def)

lemma fake_loop_deliver:
  assumes "fake_ok g" "g_stop_requested g = 0"
  shows "fake_loop (plain cb) i user g = (case deliver cb (map frame_in (drop i (g_frames g))) user of
      None \<Rightarrow> None | Some user' \<Rightarrow> Some (user', g\<lparr>g_delivered := g_delivered g + int (length (g_frames g) - i)\<rparr>))"
  using assms
proof (induction "length (g_frames g) - i" arbitrary: i user g)
  case 0
  then show ?case by (subst fake_loop.simps) (simp add: fake_ok_def)
next
  case (Suc k)
  then have i: "i < length (g_frames g)" by simp
  define x where "x = g_frames g ! i"
  have x: "drop i (g_frames g) = x # drop (Suc i) (g_frames g)" using i by (simp add: x_def Cons_nth_drop_Suc)
  have "x \<in> set (g_frames g)" using i by (simp add: x_def)
  then have "length (ff_data x) = unat (ff_length x)" using Suc.prems(1) by (simp add: fake_ok_def)
  then have len: "of_nat (length (ff_data x)) = ff_length x" by simp
  show ?case
  proof (cases "cb (ff_data x) (ff_length x) (ff_ts_seconds x) (ff_ts_microseconds x) user")
    case None
    with i x len Suc.prems show ?thesis
      by (subst fake_loop.simps) (simp add: fake_ok_def plain_def x_def frame_in_def)
  next
    case (Some user')
    let ?g = "g\<lparr>g_delivered := g_delivered g + 1\<rparr>"
    have "fake_ok ?g" "g_stop_requested ?g = 0" "k = length (g_frames ?g) - Suc i"
      using Suc.prems Suc.hyps(2) by (simp_all add: fake_ok_def)
    with Suc.hyps(1) [of ?g "Suc i"] have "fake_loop (plain cb) (Suc i) user' ?g
        = (case deliver cb (map frame_in (drop (Suc i) (g_frames g))) user' of
            None \<Rightarrow> None | Some u \<Rightarrow> Some (u, g\<lparr>g_delivered := g_delivered g + int (length (g_frames g) - i)\<rparr>))"
      using i by (simp add: Suc_diff_Suc [symmetric] of_nat_diff algebra_simps split: option.split)
    with Some i x len Suc.prems show ?thesis
      by (subst fake_loop.simps) (simp add: fake_ok_def plain_def x_def frame_in_def)
  qed
qed

lemma fake_run_deliver:
  assumes "fake_ok g" "g_stop_requested g = 0"
  shows "fake_run device bpf path (plain cb) user g = (case deliver cb (map frame_in (g_frames g)) user of
      None \<Rightarrow> None | Some user' \<Rightarrow> Some (0, user', g\<lparr>g_delivered := g_frame_count g\<rparr>))"
proof -
  have "fake_ok (g\<lparr>g_delivered := 0\<rparr>)" using assms(1) by (simp add: fake_ok_def)
  from fake_loop_deliver [OF this, of cb 0 user] assms show ?thesis
    by (simp add: fake_run_def fake_ok_def split: option.split)
qed

text \<open>A stop that is already requested ends the next replay before its first frame.\<close>

lemma fake_run_stopped:
  "g_stop_requested g \<noteq> 0 \<Longrightarrow> fake_run device bpf path cb user g = Some (0, user, g\<lparr>g_delivered := 0, g_stop_requested := 0\<rparr>)"
  by (simp add: fake_run_def fake_loop.simps)

text \<open>A stop requested by the callback of the first frame leaves the rest of the frames alone.\<close>

definition stop_after_first_frame_cb :: "int fake_callback" where
  "stop_after_first_frame_cb packet len sec usec = (\<lambda>(seen, g). Some (seen + 1, fake_request_stop g))"

lemma request_stop_cuts_the_replay_short:
  assumes "fake_ok g" "g_frames g \<noteq> []" "g_stop_requested g = 0"
  shows "fake_run device bpf path stop_after_first_frame_cb n g = Some (0, n + 1, g\<lparr>g_delivered := 1\<rparr>)"
proof -
  have "fake_loop stop_after_first_frame_cb 0 n (g\<lparr>g_delivered := 0\<rparr>) = Some (n + 1, g\<lparr>g_delivered := 1, g_stop_requested := 1\<rparr>)"
    using assms by (subst fake_loop.simps, subst fake_loop.simps)
      (simp add: fake_ok_def stop_after_first_frame_cb_def fake_backend_defs fake_request_stop_def)
  with assms(3) show ?thesis by (simp add: fake_run_def)
qed


subsection \<open>The contract\<close>

lemma deliver_frames_in:
  "fake_ok g \<Longrightarrow> deliver queue_push_callback (map frame_in (g_frames g)) pushed = Some (pushed @ map captured_of (map frame_in (g_frames g)))"
  using frame_in_short [of g] by (intro deliver_queue_push) (fastforce simp: short_frames_def)

interpretation fake_source: capture_source "\<lambda>cb. fake_run device bpf path (plain cb)" fake_ok for device bpf path
proof
  fix g rc pushed g' assume ok: "fake_ok g"
    and run: "fake_run device bpf path (plain queue_push_callback) [] g = Some (rc, pushed, g')"
  show "\<exists>frames. short_frames frames \<and> deliver queue_push_callback frames [] = Some pushed"
  proof (cases "g_stop_requested g = 0")
    case True
    with fake_run_deliver [OF ok, of device bpf path queue_push_callback "[]"] run deliver_frames_in [OF ok, of "[]"] frame_in_short [OF ok]
    show ?thesis by auto
  next
    case False
    with fake_run_stopped [of g device bpf path "plain queue_push_callback" "[]"] run show ?thesis
      by (intro exI [of _ "[]"]) (simp add: short_frames_def)
  qed
qed

text \<open>The printer as the callback of a replay, without a queue in between.\<close>

lemma deliver_callback_run: "deliver (packet_printer_callback loc) frames ctx = callback_run loc (map frame_args frames) ctx"
proof (induction frames arbitrary: ctx)
  case (Cons fr frames)
  obtain bytes sec usec where fr: "fr = (bytes, sec, usec)" by (cases fr)
  then have "frame_args fr = (bytes, of_nat (length bytes), sec, usec)" by (simp add: frame_args_def)
  moreover have "deliver (packet_printer_callback loc) frames = callback_run loc (map frame_args frames)"
    by (rule ext) (rule Cons)
  ultimately show ?case by (simp add: fr)
qed simp

subsection \<open>Properties\<close>

text \<open>
  C17: The fake back end is a drop-in replacement: with its frames installed and no stop pending, the two
  threads of the program print every installed frame that satisfies the display filter, numbered in
  order and decoded, for every schedule; the run returns 0 and has delivered all frames. The printer
  called directly, as the pipeline test does, produces the same text.
\<close>

theorem fake_backend_pipeline:
  assumes "fake_ok g" "g_stop_requested g = 0" "queue_transport transport"
    and "dispfilter_compile fm nm expr eb el = Some (Some filt, e)"
  shows "run_and_print (\<lambda>cb. fake_backend_run device bpf path (plain cb)) transport loc filt out g
      = Some (0, out @ numbered 1 (Some filt) (map frame_args (map frame_in (g_frames g))), g\<lparr>g_delivered := g_frame_count g\<rparr>)
    \<and> fake_backend_run device bpf path (plain (packet_printer_callback loc)) \<lparr>ctx_os = out, ctx_count = 0, ctx_filter = Some filt\<rparr> g
      = Some (0, \<lparr>ctx_os = out @ numbered 1 (Some filt) (map frame_args (map frame_in (g_frames g))),
            ctx_count = of_nat (length (g_frames g)), ctx_filter = Some filt\<rparr>, g\<lparr>g_delivered := g_frame_count g\<rparr>)"
proof -
  note wf = compiled_filter_wf [OF assms(4)] and short = frame_in_short [OF assms(1)]
  have "fake_run device bpf path (plain queue_push_callback) [] g
      = Some (0, map captured_of (map frame_in (g_frames g)), g\<lparr>g_delivered := g_frame_count g\<rparr>)"
    by (simp add: fake_run_deliver [OF assms(1,2)] deliver_frames_in [OF assms(1)])
  from fake_source.prints [OF assms(1) this short assms(3) wf] callback_run_short [OF wf short]
    fake_run_deliver [OF assms(1,2), of device bpf path "packet_printer_callback loc"]
  show ?thesis by (simp add: deliver_callback_run)
qed

theorem fake_backend_pipeline_witness:
  "run_and_print (\<lambda>cb. fake_backend_run (Some ''fake0'') (Some []) (Some []) (plain cb)) (\<lambda>pushed. pushed) sample_locals \<lparr>node_total = 0, root = None\<rparr> []
      \<lparr>g_frames = [\<lparr>ff_data = [0xAA, 0xBB], ff_length = 2, ff_ts_seconds = 4000, ff_ts_microseconds = 4\<rparr>], g_frame_count = 1,
        g_delivered = 0, g_stop_requested = 0\<rparr>
    = Some (0, ''[#1] (truncated Ethernet frame)\<newline>'' @ ''  0x0000:  aabb                                     ..\<newline>'',
        \<lparr>g_frames = [\<lparr>ff_data = [0xAA, 0xBB], ff_length = 2, ff_ts_seconds = 4000, ff_ts_microseconds = 4\<rparr>], g_frame_count = 1,
          g_delivered = 1, g_stop_requested = 0\<rparr>)"
proof -
  let ?g = "\<lparr>g_frames = [\<lparr>ff_data = [0xAA, 0xBB], ff_length = 2, ff_ts_seconds = 4000, ff_ts_microseconds = 4\<rparr>], g_frame_count = 1,
        g_delivered = 0, g_stop_requested = 0\<rparr>"
  let ?f = "\<lparr>node_total = 0, root = None\<rparr> :: dispfilter_t"
  have g: "fake_ok ?g" "g_stop_requested ?g = 0" by (simp_all add: fake_ok_def)
  have filt: "dispfilter_compile True True (Some []) (Some []) 128 = Some (Some ?f, Some [])"
    by (simp add: dispfilter_compile_def)
  have n: "numbered 1 (Some ?f) (map frame_args (map frame_in (g_frames ?g)))
      = ''[#1] (truncated Ethernet frame)\<newline>'' @ ''  0x0000:  aabb                                     ..\<newline>''" by code_simp
  show ?thesis
    using fake_backend_pipeline [OF g id_transport filt, of "Some ''fake0''" "Some []" "Some []" sample_locals "[]"]
    unfolding n append_Nil by simp
qed

end
