(* ===== verification/Statistics.thy ===== *)
theory Statistics
  imports Complex_Main C_Text
begin

text \<open>
  The statistics line \<open>main.cpp\<close> writes to standard error when a capture has ended. Its rates are computed in
  \<open>double\<close> and printed with one digit after the point. A non-negative double is the fraction of two natural
  numbers; an operation on doubles is the exact quotient rounded to a significand of 53 bits, to the
  nearest and to even on a tie (IEEE 754), and printing rounds the exact value of the double to a tenth in
  the same way. The numbers that occur are zero or between \<open>10 ^ -10\<close> and \<open>10 ^ 20\<close>, far from the limits of the
  exponent.
\<close>

subsection \<open>Rounding\<close>

definition round_even :: "nat \<Rightarrow> nat \<Rightarrow> nat" where
  "round_even a b = (let q = a div b; r = a mod b in if 2 * r > b \<or> 2 * r = b \<and> odd q then q + 1 else q)"

fun ilog2 :: "nat \<Rightarrow> nat" where
  "ilog2 n = (if n < 2 then 0 else Suc (ilog2 (n div 2)))"

declare ilog2.simps [simp del]

type_synonym dbl = "nat \<times> nat"

text \<open>The scale \<open>2 ^ s\<close> by which \<open>n / d\<close> becomes a number of 53 bits.\<close>

definition dbl_scale :: "nat \<Rightarrow> nat \<Rightarrow> int" where
  "dbl_scale n d =
     (let l = int (ilog2 n) - int (ilog2 d) in
      if n * 2 ^ nat (- l) < d * 2 ^ nat l then 53 - l else 52 - l)"

definition dbl_div :: "nat \<Rightarrow> nat \<Rightarrow> dbl" where
  "dbl_div n d =
     (if n = 0 then (0, 1)
      else
        let s = dbl_scale n d; m = round_even (n * 2 ^ nat s) (d * 2 ^ nat (- s)) in
        (m * 2 ^ nat (- s), 2 ^ nat s))"

definition fixed_1 :: "dbl \<Rightarrow> string" where
  "fixed_1 x = (let t = round_even (10 * fst x) (snd x) in fmt_u (t div 10) @ ''.'' @ fmt_u (t mod 10))"

subsection \<open>The line\<close>

definition drop_pct :: "u32 \<Rightarrow> u32 \<Rightarrow> dbl" where
  "drop_pct captured dropped =
     (let offered = unat captured + unat dropped in
      if offered > 0 then dbl_div (100 * unat dropped) offered else (0, 1))"

definition elapsed_seconds :: "nat \<Rightarrow> dbl" where
  "elapsed_seconds ticks = (case dbl_div ticks 1 of (a, b) \<Rightarrow> dbl_div a (b * 10 ^ 9))"

definition pps :: "u32 \<Rightarrow> dbl \<Rightarrow> dbl" where
  "pps captured elapsed = (if fst elapsed > 0 then dbl_div (unat captured * snd elapsed) (fst elapsed) else (0, 1))"

definition stats_line :: "u32 \<Rightarrow> u32 \<Rightarrow> nat \<Rightarrow> string" where
  "stats_line captured dropped ticks =
     (let elapsed = elapsed_seconds ticks in
      ''\<newline>[stats] captured='' @ fmt_u (unat captured) @ '' dropped='' @ fmt_u (unat dropped)
        @ '' ('' @ fixed_1 (drop_pct captured dropped) @ ''%) elapsed='' @ fixed_1 elapsed
        @ ''s avg='' @ fixed_1 (pps captured elapsed) @ '' pps\<newline>'')"

subsection \<open>Error bounds\<close>

lemma round_even_error:
  assumes "0 < b"
  shows "\<bar>real (round_even a b) - real a / real b\<bar> \<le> 1 / 2"
proof -
  define q r where "q = a div b" and "r = a mod b"
  have a: "real a = real q * real b + real r" by (simp add: q_def r_def flip: of_nat_mult of_nat_add)
  have r: "real r < real b" using assms by (simp add: r_def)
  have quot: "real a / real b = real q + real r / real b" using assms by (simp add: a field_simps)
  show ?thesis
  proof (cases "2 * r > b \<or> 2 * r = b \<and> odd q")
    case True
    then have "round_even a b = q + 1" by (simp add: round_even_def q_def r_def Let_def)
    moreover have "real b \<le> 2 * real r" using True by linarith
    ultimately show ?thesis using assms r by (simp add: quot abs_le_iff field_simps)
  next
    case False
    then have "round_even a b = q" by (simp add: round_even_def q_def r_def Let_def)
    moreover have "2 * real r \<le> real b" using False by linarith
    ultimately show ?thesis using assms by (simp add: quot abs_le_iff field_simps)
  qed
qed

lemma ilog2_bounds: "0 < n \<Longrightarrow> 2 ^ ilog2 n \<le> n \<and> n < 2 ^ Suc (ilog2 n)"
proof (induction n rule: ilog2.induct)
  case (1 n)
  show ?case
  proof (cases "n < 2")
    case True
    with 1(2) show ?thesis by (simp add: ilog2.simps [of n])
  next
    case False
    with 1(1) have "2 ^ ilog2 (n div 2) \<le> n div 2 \<and> n div 2 < 2 ^ Suc (ilog2 (n div 2))" by simp
    with False show ?thesis by (simp add: ilog2.simps [of n]) linarith
  qed
qed


definition dbl_val :: "dbl \<Rightarrow> real" where
  "dbl_val x = real (fst x) / real (snd x)"

lemma powi_nat: "(2 :: real) ^ nat k / 2 ^ nat (- k) = 2 powi k"
proof (cases "0 \<le> k")
  case True
  then have "nat (- k) = 0" by simp
  with True show ?thesis by (simp only: power_int_def power_0 div_by_1 if_True)
next
  case False
  then have "nat k = 0" by simp
  with False show ?thesis by (simp only: power_int_def power_0 if_False inverse_eq_divide power_divide power_one)
qed

lemma dbl_scale_large:
  assumes "0 < n" "0 < d"
  shows "2 powi 52 \<le> real n / real d * 2 powi dbl_scale n d"
proof -
  define l where "l = int (ilog2 n) - int (ilog2 d)"
  define x where "x = real n / real d"
  have n: "2 ^ ilog2 n \<le> real n"
  proof -
    have "real (2 ^ ilog2 n) \<le> real n" using ilog2_bounds [OF assms(1)] by (simp only: of_nat_le_iff)
    then show ?thesis by (simp only: of_nat_power of_nat_numeral)
  qed
  have d: "real d \<le> 2 ^ Suc (ilog2 d)"
  proof -
    have "real d \<le> real (2 ^ Suc (ilog2 d))" using ilog2_bounds [OF assms(2)] by (simp only: of_nat_le_iff less_imp_le)
    then show ?thesis by (simp only: of_nat_power of_nat_numeral)
  qed
  have "l - 1 = int (ilog2 n) - int (Suc (ilog2 d))" by (simp add: l_def)
  moreover have "(2 :: real) powi (int a - int b) = 2 ^ a / 2 ^ b" for a b
    using power_int_diff [of "2 :: real" "int a" "int b"] by (simp add: power_int_of_nat)
  ultimately have "2 powi (l - 1) = (2 :: real) ^ ilog2 n / 2 ^ Suc (ilog2 d)" by (simp only:)
  also have "\<dots> \<le> x" unfolding x_def using n d assms by (intro frac_le) simp_all
  finally have low: "2 powi (l - 1) \<le> x" .
  have test: "n * 2 ^ nat (- l) < d * 2 ^ nat l \<longleftrightarrow> x < 2 powi l"
  proof -
    have "n * 2 ^ nat (- l) < d * 2 ^ nat l \<longleftrightarrow> real (n * 2 ^ nat (- l)) < real (d * 2 ^ nat l)" by (simp only: of_nat_less_iff)
    then have "n * 2 ^ nat (- l) < d * 2 ^ nat l \<longleftrightarrow> real n * 2 ^ nat (- l) < real d * 2 ^ nat l"
      by (simp only: of_nat_mult of_nat_power of_nat_numeral)
    moreover have "x < u / v \<longleftrightarrow> real n * v < real d * u" if "0 < v" for u v :: real
      unfolding x_def using that assms by (simp add: divide_less_eq less_divide_eq mult.commute mult.left_commute)
    from this [of "2 ^ nat (- l)" "2 ^ nat l"] have "x < 2 ^ nat l / 2 ^ nat (- l) \<longleftrightarrow> real n * 2 ^ nat (- l) < real d * 2 ^ nat l"
      by (simp only: zero_less_power zero_less_numeral)
    ultimately show ?thesis unfolding powi_nat by blast
  qed
  show ?thesis
  proof (cases "n * 2 ^ nat (- l) < d * 2 ^ nat l")
    case True
    then have s: "dbl_scale n d = 53 - l" by (simp add: dbl_scale_def l_def Let_def)
    have "2 powi 52 = 2 powi (l - 1) * (2 :: real) powi (53 - l)" by (subst power_int_add [symmetric]) simp_all
    also have "\<dots> \<le> x * 2 powi (53 - l)" using low by (intro mult_right_mono) simp_all
    finally show ?thesis by (simp add: s x_def)
  next
    case False
    then have s: "dbl_scale n d = 52 - l" by (simp add: dbl_scale_def l_def Let_def)
    have "2 powi 52 = 2 powi l * (2 :: real) powi (52 - l)" by (subst power_int_add [symmetric]) simp_all
    also have "\<dots> \<le> x * 2 powi (52 - l)" using False test by (intro mult_right_mono) simp_all
    finally show ?thesis by (simp add: s x_def)
  qed
qed

lemma dbl_div_error:
  assumes "0 < d"
  shows "\<bar>dbl_val (dbl_div n d) - real n / real d\<bar> \<le> real n / real d / 2 ^ 53" "0 < snd (dbl_div n d)"
proof -
  show "0 < snd (dbl_div n d)" by (simp add: dbl_div_def Let_def)
  show "\<bar>dbl_val (dbl_div n d) - real n / real d\<bar> \<le> real n / real d / 2 ^ 53"
  proof (cases "n = 0")
    case False
    define s where "s = dbl_scale n d"
    define x where "x = real n / real d"
    define m where "m = round_even (n * 2 ^ nat s) (d * 2 ^ nat (- s))"
    define w :: real where "w = 2 powi s"
    have w: "0 < w" by (simp add: w_def)
    have val: "dbl_val (dbl_div n d) = real m / w"
      using False by (simp add: dbl_val_def dbl_div_def Let_def s_def [symmetric] m_def [symmetric] w_def powi_nat [symmetric])
    have "real (n * 2 ^ nat s) / real (d * 2 ^ nat (- s)) = x * w"
      by (simp add: x_def w_def powi_nat [symmetric])
    then have "\<bar>real m - x * w\<bar> \<le> 1 / 2" using round_even_error [of "d * 2 ^ nat (- s)" "n * 2 ^ nat s"] assms by (simp add: m_def)
    then have "\<bar>real m / w - x\<bar> \<le> 1 / 2 / w" using w by (simp add: abs_le_iff field_simps)
    also have "\<dots> \<le> x / 2 ^ 53"
      using dbl_scale_large [of n d] False assms w by (simp add: x_def [symmetric] s_def [symmetric] w_def [symmetric] field_simps)
    finally show ?thesis by (simp add: val x_def)
  qed (simp add: dbl_div_def dbl_val_def)
qed

text \<open>The tenths that are printed.\<close>

definition tenths :: "dbl \<Rightarrow> nat" where
  "tenths x = round_even (10 * fst x) (snd x)"

lemma fixed_1_tenths: "fixed_1 x = fmt_u (tenths x div 10) @ ''.'' @ fmt_u (tenths x mod 10)"
  by (simp add: fixed_1_def tenths_def Let_def)

lemma tenths_error: "0 < snd x \<Longrightarrow> \<bar>real (tenths x) - 10 * dbl_val x\<bar> \<le> 1 / 2"
  using round_even_error [of "snd x" "10 * fst x"] by (simp add: tenths_def dbl_val_def)

lemma tenths_pct:
  fixes c k :: nat
  defines "x \<equiv> (if c + k > 0 then dbl_div (100 * k) (c + k) else (0, 1))"
    and "e \<equiv> (if c + k = 0 then 0 else 100 * real k / (real c + real k))"
  shows "tenths x \<le> 1000" "\<bar>real (tenths x) - 10 * e\<bar> \<le> 1 / 2 + 1 / 2 ^ 43" "k = 0 \<Longrightarrow> tenths x = 0"
proof -
  have e: "0 \<le> e" "e \<le> 100" by (auto simp: e_def divide_le_eq)
  have x: "\<bar>dbl_val x - e\<bar> \<le> e / 2 ^ 53" "0 < snd x"
  proof -
    show "0 < snd x" by (simp add: x_def dbl_div_def Let_def)
    show "\<bar>dbl_val x - e\<bar> \<le> e / 2 ^ 53"
    proof (cases "c + k = 0")
      case False
      then have "real (100 * k) / real (c + k) = e" "x = dbl_div (100 * k) (c + k)" "0 < c + k" by (auto simp: e_def x_def)
      with dbl_div_error(1) [of "c + k" "100 * k"] show ?thesis by (simp only:)
    qed (simp add: x_def e_def dbl_val_def)
  qed
  have t: "\<bar>real (tenths x) - 10 * dbl_val x\<bar> \<le> 1 / 2" using tenths_error [OF x(2)] .
  define b :: real where "b = 100 / 2 ^ 53"
  have b: "b < 1 / 20" "10 * b \<le> 1 / 2 ^ 43" by (simp_all add: b_def)
  have "e / 2 ^ 53 \<le> b" unfolding b_def using e by (intro divide_right_mono) simp_all
  with x(1) have "\<bar>dbl_val x - e\<bar> \<le> b" by linarith
  with t have near: "\<bar>real (tenths x) - 10 * e\<bar> \<le> 1 / 2 + 10 * b" by linarith
  with b(2) show "\<bar>real (tenths x) - 10 * e\<bar> \<le> 1 / 2 + 1 / 2 ^ 43" by linarith
  have "real (tenths x) < 1001" using near e b(1) by linarith
  then show "tenths x \<le> 1000" by linarith
  show "tenths x = 0" if "k = 0" using that by (simp add: x_def dbl_div_def tenths_def round_even_def)
qed

subsection \<open>Properties\<close>

text \<open>The share of the packets that were dropped, exactly.\<close>

definition exact_pct :: "nat \<Rightarrow> nat \<Rightarrow> real" where
  "exact_pct captured dropped =
     (if captured + dropped = 0 then 0 else 100 * real dropped / (real captured + real dropped))"

text \<open>
  C20: The drop percentage in the statistics line is the exact share of dropped packets to the nearest tenth:
  the line holds a number of tenths that is at most 1000 and differs from the exact share by at most half
  a tenth and the rounding error of a double, less than \<open>2 ^ -43\<close> tenths. When nothing was dropped, also
  when there was no traffic at all, it is \<open>0.0\<close>.
\<close>

theorem stats_line_drop_pct:
  "\<exists>t rest. stats_line captured dropped ticks = ''\<newline>[stats] captured='' @ fmt_u (unat captured) @ '' dropped='' @ fmt_u (unat dropped)
      @ '' ('' @ fmt_u (t div 10) @ ''.'' @ fmt_u (t mod 10) @ ''%) elapsed='' @ rest
    \<and> t \<le> 1000 \<and> \<bar>real t - 10 * exact_pct (unat captured) (unat dropped)\<bar> \<le> 1 / 2 + 1 / 2 ^ 43 \<and> (dropped = 0 \<longrightarrow> t = 0)"
proof -
  define t where "t = tenths (drop_pct captured dropped)"
  have "stats_line captured dropped ticks = ''\<newline>[stats] captured='' @ fmt_u (unat captured) @ '' dropped='' @ fmt_u (unat dropped)
      @ '' ('' @ fmt_u (t div 10) @ ''.'' @ fmt_u (t mod 10) @ ''%) elapsed='' @ fixed_1 (elapsed_seconds ticks)
      @ ''s avg='' @ fixed_1 (pps captured (elapsed_seconds ticks)) @ '' pps\<newline>''"
    by (simp add: stats_line_def Let_def fixed_1_tenths [of "drop_pct captured dropped"] t_def)
  moreover have "t \<le> 1000" "\<bar>real t - 10 * exact_pct (unat captured) (unat dropped)\<bar> \<le> 1 / 2 + 1 / 2 ^ 43"
    using tenths_pct(1,2) [of "unat captured" "unat dropped"] unfolding t_def exact_pct_def drop_pct_def Let_def by simp_all
  moreover have "t = 0" if "dropped = 0"
    using tenths_pct(3) [of "unat dropped" "unat captured"] that unfolding t_def drop_pct_def Let_def by simp
  ultimately show ?thesis by blast
qed

theorem stats_line_drop_pct_witness:
  "\<exists>t rest. stats_line 2 0 1500000000 = ''\<newline>[stats] captured='' @ fmt_u (unat (2 :: u32)) @ '' dropped='' @ fmt_u (unat (0 :: u32))
      @ '' ('' @ fmt_u (t div 10) @ ''.'' @ fmt_u (t mod 10) @ ''%) elapsed='' @ rest \<and> t = 0"
  using stats_line_drop_pct [of 2 0 1500000000] by blast

end
