(* ===== verification/Main_Program.thy ===== *)
theory Main_Program
  imports Stop_Race Pipeline Statistics
begin

text \<open>
  \<open>src/src/main.cpp\<close>: the command line, the interactive choice of an interface, and the run itself. Standard
  input is a stream of characters with the state bits of \<open>std::istream\<close>; standard output and standard error
  are strings. What the capture thread itself writes to standard error is not part of the model; it lies
  between the messages before the capture and the statistics line, since the main thread writes
  nothing there while the capture runs.
\<close>

subsection \<open>The command line\<close>

record cli =
  cli_iface :: string
  cli_capture_filter :: string
  cli_display_filter :: string
  cli_pcap_path :: string
  have_iface :: bool

definition no_cli :: cli where
  "no_cli = \<lparr>cli_iface = [], cli_capture_filter = [], cli_display_filter = [], cli_pcap_path = [], have_iface = False\<rparr>"

text \<open>\<open>Inl\<close> is the argument reported as unknown or incomplete.\<close>

function parse_args :: "string list \<Rightarrow> cli \<Rightarrow> string + cli" where
  "parse_args args c =
     (case args of
        [] \<Rightarrow> Inr c
      | arg # rest \<Rightarrow>
          if arg = ''-i'' \<and> rest \<noteq> [] then parse_args (tl rest) (c\<lparr>cli_iface := hd rest, have_iface := True\<rparr>)
          else if arg = ''-f'' \<and> rest \<noteq> [] then parse_args (tl rest) (c\<lparr>cli_capture_filter := hd rest\<rparr>)
          else if arg = ''-Y'' \<and> rest \<noteq> [] then parse_args (tl rest) (c\<lparr>cli_display_filter := hd rest\<rparr>)
          else if arg = ''-w'' \<and> rest \<noteq> [] then parse_args (tl rest) (c\<lparr>cli_pcap_path := hd rest\<rparr>)
          else Inl arg)"
  by pat_completeness auto
termination by (relation "measure (\<lambda>(args, _). length args)") auto

declare parse_args.simps [simp del]

subsection \<open>Standard input\<close>

record istream =
  ist_rest :: string
  ist_eof :: bool
  ist_fail :: bool

definition good :: "istream \<Rightarrow> bool" where
  "good ins \<longleftrightarrow> \<not> ist_eof ins \<and> \<not> ist_fail ins"

abbreviation INT_MAX :: int where "INT_MAX \<equiv> 2147483647"
abbreviation INT_MIN :: int where "INT_MIN \<equiv> -2147483648"

text \<open>
  \<open>ins >> n\<close>: on a stream that is not good, or with nothing but blanks left, \<open>n\<close> keeps its value and the fail
  bit is set. Otherwise the longest prefix that looks like a number is taken; without digits \<open>n\<close> becomes 0
  and the fail bit is set, and out of range it becomes the nearest bound.
\<close>

definition white :: "char \<Rightarrow> bool" where
  "white ch \<longleftrightarrow> ch \<in> {CHR '' '', CHR 0x09, CHR 0x0A, CHR 0x0B, CHR 0x0C, CHR 0x0D}"

definition sign_length :: "string \<Rightarrow> nat" where
  "sign_length s = (if s \<noteq> [] \<and> hd s \<in> {CHR ''+'', CHR ''-''} then 1 else 0)"

definition extract_int :: "istream \<Rightarrow> int \<Rightarrow> int \<times> istream" where
  "extract_int ins n =
     (let s = dropWhile white (ist_rest ins) in
      if \<not> good ins then (n, ins\<lparr>ist_fail := True\<rparr>)
      else if s = [] then (n, ins\<lparr>ist_rest := [], ist_eof := True, ist_fail := True\<rparr>)
      else
        let k = sign_length s;
          digits = takeWhile is_digit (drop k s);
          rest = drop (k + length digits) s;
          v = (if hd s = CHR ''-'' then - int (dec_value digits) else int (dec_value digits)) in
        if digits = [] then (0, \<lparr>ist_rest = rest, ist_eof = (rest = []), ist_fail = True\<rparr>)
        else if v > INT_MAX then (INT_MAX, \<lparr>ist_rest = rest, ist_eof = (rest = []), ist_fail = True\<rparr>)
        else if v < INT_MIN then (INT_MIN, \<lparr>ist_rest = rest, ist_eof = (rest = []), ist_fail = True\<rparr>)
        else (v, \<lparr>ist_rest = rest, ist_eof = (rest = []), ist_fail = False\<rparr>))"

definition ignore1 :: "istream \<Rightarrow> istream" where
  "ignore1 ins =
     (if \<not> good ins then ins\<lparr>ist_fail := True\<rparr>
      else if ist_rest ins = [] then ins\<lparr>ist_eof := True\<rparr>
      else ins\<lparr>ist_rest := tl (ist_rest ins)\<rparr>)"

definition getline :: "istream \<Rightarrow> string \<Rightarrow> string \<times> istream" where
  "getline ins s =
     (if \<not> good ins then (s, ins\<lparr>ist_fail := True\<rparr>)
      else
        let line = takeWhile (\<lambda>ch. ch \<noteq> CHR 0x0A) (ist_rest ins);
          after = drop (length line) (ist_rest ins) in
        if after \<noteq> [] then (line, ins\<lparr>ist_rest := tl after\<rparr>)
        else (line, \<lparr>ist_rest = [], ist_eof = True, ist_fail = (line = [])\<rparr>))"

text \<open>\<open>s.c_str()\<close> as a C string ends at the first null character.\<close>

definition c_str :: "string \<Rightarrow> string" where
  "c_str s = takeWhile (\<lambda>ch. ch \<noteq> CHR 0x00) s"

subsection \<open>Choosing what to capture\<close>

record settings =
  s_device :: string
  s_capture_filter :: string
  s_display_filter :: string
  s_pcap_path :: string

fun device_menu :: "nat \<Rightarrow> capture_device_t list \<Rightarrow> string" where
  "device_menu i [] = []"
| "device_menu i (d # ds) = ''  ['' @ fmt_u i @ ''] '' @ cd_name d @ ''\<newline>'' @ device_menu (Suc i) ds"

text \<open>The settings, or \<open>None\<close> for an invalid choice, and what is printed on the way.\<close>

definition ask_settings :: "cli \<Rightarrow> capture_device_t list \<Rightarrow> istream \<Rightarrow> settings option \<times> string" where
  "ask_settings c devices ins =
     (let menu = ''Available interfaces : \<newline>'' @ device_menu 0 devices @ ''Select interface index : '';
        (choice, ins) = extract_int ins (-1) in
      if choice < 0 \<or> choice \<ge> int (length devices) then (None, menu)
      else
        let (capture, ins) = getline (ignore1 ins) (cli_capture_filter c);
          (display, ins) = getline ins (cli_display_filter c);
          (path, ins) = getline ins (cli_pcap_path c) in
        (Some \<lparr>s_device = cd_name (devices ! nat choice), s_capture_filter = capture, s_display_filter = display,
           s_pcap_path = path\<rparr>,
         menu @ ''Capture filter, BPF (empty = none): '' @ ''Display filter, e.g. tcp.port == 443 (empty = none): ''
           @ ''Save to .pcap file (empty = don't save): ''))"

definition choose_settings :: "cli \<Rightarrow> capture_device_t list \<Rightarrow> istream \<Rightarrow> settings option \<times> string" where
  "choose_settings c devices ins =
     (if have_iface c then
        (Some \<lparr>s_device = cli_iface c, s_capture_filter = cli_capture_filter c, s_display_filter = cli_display_filter c,
           s_pcap_path = cli_pcap_path c\<rparr>, [])
      else ask_settings c devices ins)"


subsection \<open>The program\<close>

text \<open>
  What surrounds a run of the program: its name, the answers of the system, the nanoseconds between the two
  readings of the clock, and the contents of uninitialised variables.
\<close>

record host =
  h_argv0 :: string
  h_ifaddrs :: "string option list option"
  h_raw_devices :: "string list"
  h_devices :: "capture_device_t list"
  h_filter_mem :: bool
  h_nodes_mem :: bool
  h_filter_err :: string
  h_world :: world
  h_buf :: buf
  h_locals :: locals
  h_ticks :: nat
  h_stats :: capture_stats_t

definition print_usage :: "string \<Rightarrow> string" where
  "print_usage argv0 =
     ''Usage: '' @ argv0
       @ '' [-i <iface>] [-f \"<bpf filter>\"] [-Y \"<display filter>\"] [-w <out.pcap>]\<newline>''
       @ ''  -i  capture device name (skips the interactive interface prompt)\<newline>''
       @ ''  -f  capture filter (BPF, kernel-side), e.g. \"tcp port 443\"\<newline>''
       @ ''  -Y  display filter (parsed-field match, userspace, post-parse), e.g. \"tcp.port == 443\"\<newline>''
       @ ''  -w  write captured packets to this .pcap file\<newline>''
       @ ''With no -i, falls back to the interactive interface picker.\<newline>''"

text \<open>The capture thread, over its buffer and the process.\<close>

definition capture_thread :: "world \<Rightarrow> settings \<Rightarrow> (buf \<times> proc) source" where
  "capture_thread w st cb user = (\<lambda>(buf, p). do {
     (capture_result, user, buf, p) \<leftarrow>
       capture_backend_run w (Some (c_str (s_device st))) (Some (c_str (s_capture_filter st))) (Some (c_str (s_pcap_path st)))
         cb user buf p;
     Some (capture_result, user, buf, p)
   })"

definition report_stats :: "host \<Rightarrow> proc \<Rightarrow> string" where
  "report_stats h p =
     (case capture_backend_get_last_stats (Some (h_stats h)) p of (rc, stats) \<Rightarrow>
        if rc = 0 then stats_line (packets_captured (the stats)) (packets_dropped (the stats)) (h_ticks h) else [])"

text \<open>The exit status, standard output, standard error and the process.\<close>

definition main ::
  "host \<Rightarrow> (CapturedFrame list \<Rightarrow> CapturedFrame list) \<Rightarrow> string list \<Rightarrow> istream \<Rightarrow> proc \<Rightarrow> (int \<times> string \<times> string \<times> proc) option" where
  "main h transport args ins p =
     (case parse_args args no_cli of
        Inl arg \<Rightarrow> Some (1, [], ''Unknown or incomplete argument: '' @ arg @ ''\<newline>'' @ print_usage (h_argv0 h), p)
      | Inr c \<Rightarrow> do {
          (device_count, devices) \<leftarrow> capture_backend_list_devices (h_ifaddrs h) (h_raw_devices h) (h_devices h) (int CAPTURE_MAX_DEVICES);
          if device_count \<le> 0 then
            Some (1, [], ''No capture devices found. Raw packet capture requires ''
              @ ''CAP_NET_RAW (run as root, or `sudo setcap cap_net_raw+ep <binary>`).\<newline>'', p)
          else (case choose_settings c (take (nat device_count) devices) ins of
              (None, out) \<Rightarrow> Some (1, out, ''Invalid choice'', p)
            | (Some st, out) \<Rightarrow> do {
                (filt, filter_err) \<leftarrow> dispfilter_compile (h_filter_mem h) (h_nodes_mem h) (Some (c_str (s_display_filter st)))
                  (Some (h_filter_err h)) 128;
                case filt of
                  None \<Rightarrow> Some (1, out, ''error: invalid display filter \"'' @ s_display_filter st @ ''\": '' @ the filter_err @ ''\<newline>'', p)
                | Some f \<Rightarrow> do {
                    (capture_result, out, buf, p) \<leftarrow> run_and_print (capture_thread (h_world h) st) transport (h_locals h) f
                      (out @ ''Capturing on '' @ s_device st @ '' (Ctrl+C to stop)...\<newline>'') (h_buf h, p);
                    if capture_result \<noteq> 0 then Some (1, out, report_stats h p @ ''Capturing failed\<newline>'', p)
                    else Some (0, out, report_stats h p, p)
                  }
              })
        })"

subsection \<open>Reference: option lists\<close>

definition option_pairs :: "(string \<times> string) list \<Rightarrow> string list" where
  "option_pairs ps = concat (map (\<lambda>(opt, v). [opt, v]) ps)"

definition valid_option :: "string \<Rightarrow> bool" where
  "valid_option opt \<longleftrightarrow> opt \<in> {''-i'', ''-f'', ''-Y'', ''-w''}"

definition valid_options :: "(string \<times> string) list \<Rightarrow> bool" where
  "valid_options ps \<longleftrightarrow> list_all (\<lambda>(opt, _). valid_option opt) ps"

lemma valid_options_simps [simp]:
  "valid_options []" "valid_options ((opt, v) # ps) \<longleftrightarrow> valid_option opt \<and> valid_options ps"
  by (simp_all add: valid_options_def)

definition last_value :: "string \<Rightarrow> (string \<times> string) list \<Rightarrow> string option" where
  "last_value opt ps = map_of (rev ps) opt"

definition cli_of :: "cli \<Rightarrow> (string \<times> string) list \<Rightarrow> cli" where
  "cli_of c ps =
     \<lparr>cli_iface = (case last_value ''-i'' ps of None \<Rightarrow> cli_iface c | Some v \<Rightarrow> v),
      cli_capture_filter = (case last_value ''-f'' ps of None \<Rightarrow> cli_capture_filter c | Some v \<Rightarrow> v),
      cli_display_filter = (case last_value ''-Y'' ps of None \<Rightarrow> cli_display_filter c | Some v \<Rightarrow> v),
      cli_pcap_path = (case last_value ''-w'' ps of None \<Rightarrow> cli_pcap_path c | Some v \<Rightarrow> v),
      have_iface = (have_iface c \<or> last_value ''-i'' ps \<noteq> None)\<rparr>"

lemma cli_of_Nil [simp]: "cli_of c [] = c"
  by (cases c) (simp add: cli_of_def last_value_def)

lemma cli_of_Cons:
  "cli_of c ((opt, v) # ps) = cli_of
     (if opt = ''-i'' then c\<lparr>cli_iface := v, have_iface := True\<rparr>
      else if opt = ''-f'' then c\<lparr>cli_capture_filter := v\<rparr>
      else if opt = ''-Y'' then c\<lparr>cli_display_filter := v\<rparr>
      else if opt = ''-w'' then c\<lparr>cli_pcap_path := v\<rparr> else c) ps"
  by (simp add: cli_of_def last_value_def map_add_def split: option.split)

lemma parse_args_pairs:
  "valid_options ps \<Longrightarrow> parse_args (option_pairs ps) c = Inr (cli_of c ps)"
proof (induction ps arbitrary: c)
  case (Cons p ps)
  obtain opt v where p: "p = (opt, v)" by (cases p)
  with Cons show ?case
    by (subst parse_args.simps) (auto simp: option_pairs_def valid_option_def cli_of_Cons)
qed (simp add: option_pairs_def parse_args.simps)

lemma parse_args_Inr:
  "parse_args args c = Inr c' \<Longrightarrow> \<exists>ps. args = option_pairs ps \<and> valid_options ps"
proof (induction args c rule: parse_args.induct)
  case (1 args c)
  show ?case
  proof (cases args)
    case Nil
    then show ?thesis by (intro exI [of _ "[]"]) (simp add: option_pairs_def)
  next
    case (Cons arg rest)
    have v: "valid_option arg" "rest \<noteq> []"
      using 1(5) Cons by (auto simp: parse_args.simps [of "arg # rest"] valid_option_def split: if_splits)
    have "\<exists>ps. tl rest = option_pairs ps \<and> valid_options ps"
      using 1(1-4) [OF Cons] 1(5) Cons by (auto simp: parse_args.simps [of "arg # rest"] split: if_splits)
    then obtain ps where "tl rest = option_pairs ps" "valid_options ps" by blast
    with v Cons show ?thesis
      by (intro exI [of _ "(arg, hd rest) # ps"]) (cases rest; simp add: option_pairs_def)
  qed
qed


subsection \<open>The capture thread\<close>

text \<open>What a run pushes, and the file it leaves.\<close>

lemma run_impl_pushed:
  assumes "run_impl w device bpf_filter path queue_push_callback [] buf p = Some (res, pushed, buf', p')"
    and "contexts p (w_addr w) = None" "g_active_ctx p = None" "length buf = 65536"
    and "\<forall>j. kernel_ok (ev_kernel (w_events w j))" "cursor_ok start_cursor (w_ring w)"
  obtains xs where "pushed = map captured_of (map frame_of xs)"
    "res = 0 \<and> path \<noteq> None \<and> path \<noteq> Some [] \<longrightarrow> read_pcap (the (files p' (the path))) = Some (map frame_of xs)"
proof -
  from run_impl_outcome [OF assms(1-3)] consider "res = -1" "pushed = []"
    | pf loop_res c ring pf' k where "pcap_opened w path pf" "ran w device path pf' loop_res p res p'"
      "run_loop (w_events w) (w_big w) (w_fwrite w) queue_push_callback 0 start_cursor (w_ring w) buf pf []
        = Some (loop_res, c, ring, buf', pf', pushed, k)"
    by blast
  then show thesis
  proof cases
    case 1
    then show thesis by (intro that [of "[]"]) simp_all
  next
    case run: (2 pf loop_res c ring pf' k)
    from queue_push.run_loop_ok [OF run(3) assms(5,6,4)] obtain xs ys later where
      ok: "loop_res = 0 \<longrightarrow> ys = []" "deliver queue_push_callback (map frame_of xs) [] = Some pushed"
      "file_holds (w_big w) pf pf' (map frame_of xs) (ys = [])" "pending start_cursor (w_ring w) @ later = xs @ ys @ pending c ring"
      by (auto simp: run_ok_def)
    have "pushed = map captured_of (map frame_of xs)"
      using ok(2) deliver_queue_push [of "map frame_of xs" "[]"] captured_short by force
    moreover have "read_pcap (the (files p' (the path))) = Some (map frame_of xs)"
      if "res = 0" "path \<noteq> None" "path \<noteq> Some []"
    proof -
      from run(1) that obtain f where f: "pf = Some f" "contents f = pcap_file (w_big w) []"
        by (auto simp: pcap_opened_def split: option.splits)
      with ok(3) obtain f' where f': "pf' = Some f'" by (auto simp: file_holds_def split: option.splits)
      with run(2) that have "w_fclose w" "loop_res = 0" "files p' (the path) = Some (contents f')"
        by (auto simp: ran_def split: if_splits)
      moreover from this f f' ok have "contents f' = pcap_file (w_big w) (map frame_of xs)"
        by (simp add: file_holds_def pcap_file_def)
      ultimately show ?thesis using captured_short by (simp only: option.sel) (intro read_pcap_file, blast)
    qed
    ultimately show thesis using that by blast
  qed
qed

text \<open>The Linux back end in the contract of the pipeline.\<close>

definition capture_ready :: "world \<Rightarrow> buf \<times> proc \<Rightarrow> bool" where
  "capture_ready w = (\<lambda>(buf, p). contexts p (w_addr w) = None \<and> g_active_ctx p = None \<and> length buf = 65536
     \<and> (\<forall>j. kernel_ok (ev_kernel (w_events w j))) \<and> cursor_ok start_cursor (w_ring w))"

lemma capture_thread_run:
  "capture_thread w st cb user (buf, p) = run_impl w (Some (c_str (s_device st))) (Some (c_str (s_capture_filter st)))
     (Some (c_str (s_pcap_path st))) cb user buf p"
  by (simp add: capture_thread_def backend_defs split: bind_splits prod.split)

lemma capture_thread_pushed:
  assumes "capture_ready w (buf, p)" "capture_thread w st queue_push_callback [] (buf, p) = Some (res, pushed, buf', p')"
  obtains xs where "pushed = map captured_of (map frame_of xs)"
    "res = 0 \<and> c_str (s_pcap_path st) \<noteq> [] \<longrightarrow> read_pcap (the (files p' (c_str (s_pcap_path st)))) = Some (map frame_of xs)"
proof -
  have "contexts p (w_addr w) = None" "g_active_ctx p = None" "length buf = 65536"
    "\<forall>j. kernel_ok (ev_kernel (w_events w j))" "cursor_ok start_cursor (w_ring w)"
    using assms(1) unfolding capture_ready_def by simp_all
  from run_impl_pushed [OF assms(2) [unfolded capture_thread_run] this] that show thesis by (metis option.distinct(1) option.sel)
qed

interpretation linux_source: capture_source "capture_thread w st" "capture_ready w" for w st
proof
  fix s rc pushed s' assume ready: "capture_ready w s"
    and run: "capture_thread w st queue_push_callback [] s = Some (rc, pushed, s')"
  obtain buf p buf' p' where s: "s = (buf, p)" "s' = (buf', p')" by (cases s; cases s')
  obtain xs where "pushed = map captured_of (map frame_of xs)"
    by (rule capture_thread_pushed [OF ready [unfolded s] run [unfolded s]])
  then have "deliver queue_push_callback (map frame_of xs) [] = Some pushed"
    using deliver_queue_push [of "map frame_of xs" "[]"] captured_short by force
  with short_frame_of show "\<exists>frames. short_frames frames \<and> deliver queue_push_callback frames [] = Some pushed" by blast
qed

subsection \<open>Numbers and lines of standard input\<close>

abbreviation cin :: "string \<Rightarrow> istream" where
  "cin s \<equiv> \<lparr>ist_rest = s, ist_eof = False, ist_fail = False\<rparr>"

lemma digit_not_white: "is_digit ch \<Longrightarrow> \<not> white ch \<and> ch \<noteq> CHR ''+'' \<and> ch \<noteq> CHR ''-''"
  by (auto simp: white_def is_digit_def)

lemma extract_printed:
  assumes "int i \<le> INT_MAX" "rest \<noteq> []" "\<not> is_digit (hd rest)"
  shows "extract_int (cin (fmt_u i @ rest)) n = (int i, cin rest)"
proof -
  obtain ch cs where s: "fmt_u i = ch # cs" by (cases "fmt_u i") auto
  have d: "is_digit ch" using fmt_u_digits [of i] s by simp
  have "takeWhile is_digit (fmt_u i @ rest) = fmt_u i"
    using fmt_u_digits [of i] assms(2,3) by (cases rest) (simp_all add: takeWhile_append2)
  moreover have "dropWhile white (fmt_u i @ rest) = fmt_u i @ rest" using s digit_not_white [OF d] by simp
  moreover have "sign_length (fmt_u i @ rest) = 0" "hd (fmt_u i @ rest) \<noteq> CHR ''-''"
    using s digit_not_white [OF d] by (simp_all add: sign_length_def)
  ultimately show ?thesis using assms by (simp add: extract_int_def good_def Let_def)
qed

lemma extract_not_number:
  assumes "s \<noteq> []" "\<not> white (hd s)" "\<not> is_digit (hd s)" "hd s \<notin> {CHR ''+'', CHR ''-''}"
  shows "extract_int (cin s) n = (0, \<lparr>ist_rest = s, ist_eof = False, ist_fail = True\<rparr>)"
  using assms by (cases s) (simp_all add: extract_int_def good_def Let_def sign_length_def)

lemma getline_line: "CHR 0x0A \<notin> set line \<Longrightarrow> getline (cin (line @ CHR 0x0A # rest)) s = (line, cin rest)"
proof -
  assume "CHR 0x0A \<notin> set line"
  then have "takeWhile (\<lambda>ch. ch \<noteq> CHR 0x0A) (line @ CHR 0x0A # rest) = line" by (induction line) auto
  then show ?thesis by (simp add: getline_def good_def Let_def)
qed

lemma ignore1_cin: "ignore1 (cin (ch # rest)) = cin rest"
  by (simp add: ignore1_def good_def)


subsection \<open>Properties\<close>

text \<open>
  C32: The command line is accepted exactly when it is a sequence of the options \<open>-i\<close>, \<open>-f\<close>, \<open>-Y\<close> and \<open>-w\<close>, each
  followed by a value, whatever the value looks like; of an option given several times the last value
  counts.
\<close>

theorem parse_args_correct:
  "parse_args args c = Inr c' \<longleftrightarrow> (\<exists>ps. args = option_pairs ps \<and> valid_options ps \<and> c' = cli_of c ps)"
proof
  assume r: "parse_args args c = Inr c'"
  then obtain ps where "args = option_pairs ps" "valid_options ps" using parse_args_Inr by blast
  with r parse_args_pairs [of ps c] show "\<exists>ps. args = option_pairs ps \<and> valid_options ps \<and> c' = cli_of c ps" by auto
qed (use parse_args_pairs in blast)

text \<open>
  Typing the number of a listed interface and then three lines selects this interface and takes the lines
  as capture filter, display filter and file name.
\<close>

theorem choice_by_number:
  assumes "i < length devices" "int i \<le> INT_MAX" "CHR 0x0A \<notin> set f" "CHR 0x0A \<notin> set y" "CHR 0x0A \<notin> set w"
  shows "fst (ask_settings c devices (cin (fmt_u i @ ''\<newline>'' @ f @ ''\<newline>'' @ y @ ''\<newline>'' @ w @ ''\<newline>'')))
    = Some \<lparr>s_device = cd_name (devices ! i), s_capture_filter = f, s_display_filter = y, s_pcap_path = w\<rparr>"
proof -
  have "\<not> is_digit (CHR 0x0A)" by (simp add: is_digit_def)
  then have "extract_int (cin (fmt_u i @ ''\<newline>'' @ f @ ''\<newline>'' @ y @ ''\<newline>'' @ w @ ''\<newline>'')) (-1)
      = (int i, cin (''\<newline>'' @ f @ ''\<newline>'' @ y @ ''\<newline>'' @ w @ ''\<newline>''))"
    using assms(2) by (intro extract_printed) simp_all
  then show ?thesis using assms by (simp add: ask_settings_def ignore1_cin getline_line)
qed

theorem choice_by_number_witness:
  "fst (ask_settings no_cli [\<lparr>cd_name = ''lo'', cd_description = []\<rparr>, \<lparr>cd_name = ''eth0'', cd_description = []\<rparr>]
      (cin ''1\<newline>tcp\<newline>\<newline>x.pcap\<newline>''))
    = Some \<lparr>s_device = ''eth0'', s_capture_filter = ''tcp'', s_display_filter = [], s_pcap_path = ''x.pcap''\<rparr>"
proof -
  have "fmt_u 1 = ''1''" by code_simp
  then show ?thesis
    using choice_by_number [of 1 "[\<lparr>cd_name = ''lo'', cd_description = []\<rparr>, \<lparr>cd_name = ''eth0'', cd_description = []\<rparr>]"
        "''tcp''" "[]" "''x.pcap''" no_cli] by simp
qed

text \<open>
  C39: Typing something that is not a number does not end in ``Invalid choice'': the extraction stores 0, so
  the first interface is selected, and as the stream has failed the questions for the filters and the
  file name are not answered and keep the values of the command line.
\<close>

theorem choice_not_a_number:
  assumes "s \<noteq> []" "\<not> white (hd s)" "\<not> is_digit (hd s)" "hd s \<notin> {CHR ''+'', CHR ''-''}" "devices \<noteq> []"
  shows "fst (ask_settings c devices (cin s)) = Some \<lparr>s_device = cd_name (devices ! 0),
    s_capture_filter = cli_capture_filter c, s_display_filter = cli_display_filter c, s_pcap_path = cli_pcap_path c\<rparr>"
  using extract_not_number [OF assms(1-4), of "-1"] assms(5)
  by (simp add: ask_settings_def ignore1_def getline_def good_def Suc_le_eq)

theorem choice_not_a_number_witness:
  "fst (ask_settings no_cli [\<lparr>cd_name = ''lo'', cd_description = []\<rparr>, \<lparr>cd_name = ''eth0'', cd_description = []\<rparr>] (cin ''eth0\<newline>''))
    = Some \<lparr>s_device = ''lo'', s_capture_filter = [], s_display_filter = [], s_pcap_path = []\<rparr>"
  using choice_not_a_number [of "''eth0\<newline>''" "[\<lparr>cd_name = ''lo'', cd_description = []\<rparr>, \<lparr>cd_name = ''eth0'', cd_description = []\<rparr>]"
      no_cli]
  by (simp add: white_def is_digit_def no_cli_def)

end
