(* ===== verification/Fuzz_Harnesses.thy ===== *)
theory Fuzz_Harnesses
  imports Protocol_Stack Arp_Parser Icmp_Parser C_Text "HOL-Library.Sublist"
begin

text \<open>
  The fuzz targets of \<open>src/src/fuzz\<close>, one \<open>LLVMFuzzerTestOneInput\<close> per parser, and the replay driver
  \<open>standalone_driver.c\<close>. A target either returns or traps; \<open>None\<close> is what the sanitizers would report,
  an access outside the input. Headers on the stack start with arbitrary contents.
\<close>

subsection \<open>The targets\<close>

type_synonym u64 = "64 word"

datatype fuzz_result = Returned int | Trapped

type_synonym harness = "buf option \<Rightarrow> u64 \<Rightarrow> fuzz_result option"

text \<open>The distance of two pointers into one object; for others it is undefined.\<close>

definition ptr_sub :: "buf \<Rightarrow> buf \<Rightarrow> int option" where
  "ptr_sub p d = (if suffix p d then Some (int (length d) - int (length p)) else None)"

definition outside :: "buf option \<Rightarrow> u64 \<Rightarrow> buf option option \<Rightarrow> u32 option \<Rightarrow> bool option" where
  "outside data sz payload payload_len =
     (case (data, payload, payload_len) of
        (Some d, Some (Some p), Some n) \<Rightarrow> do {
          off \<leftarrow> ptr_sub p d;
          _ \<leftarrow> ptr_add d (unat sz);
          Some (off < 0 \<or> off > int (unat sz) \<or> n > word_of_int (int (unat sz) - off))
        }
      | _ \<Rightarrow> None)"

definition trap_if :: "bool option \<Rightarrow> fuzz_result option" where
  "trap_if b = map_option (\<lambda>b. if b then Trapped else Returned 0) b"

definition fuzz_eth :: "eth_header_t \<Rightarrow> harness" where
  "fuzz_eth header data sz = do {
     (rc, header, payload, payload_len) \<leftarrow> eth_parse data (ucast sz) (Some header) (Some None) (Some 0);
     if payload \<noteq> Some None then trap_if (outside data sz payload payload_len) else Some (Returned 0)
   }"

definition fuzz_arp :: "arp_header_t \<Rightarrow> harness" where
  "fuzz_arp header data sz = do {
     (rc, header) \<leftarrow> arp_parse data (ucast sz) (Some header);
     Some (Returned 0)
   }"

definition fuzz_ip :: "ip_header_t \<Rightarrow> harness" where
  "fuzz_ip header data sz = do {
     (rc, header, payload, payload_len) \<leftarrow> ip_parse data (ucast sz) (Some header) (Some None) (Some 0);
     if rc = 0 \<and> payload \<noteq> Some None then trap_if (outside data sz payload payload_len) else Some (Returned 0)
   }"

definition fuzz_ipv6 :: "ipv6_header_t \<Rightarrow> harness" where
  "fuzz_ipv6 header data sz = do {
     (rc, header, payload, payload_len) \<leftarrow> ipv6_parse data (ucast sz) (Some header) (Some None) (Some 0);
     if rc = 0 \<and> payload \<noteq> Some None then trap_if (outside data sz payload payload_len) else Some (Returned 0)
   }"

definition fuzz_icmp :: "icmp_header_t \<Rightarrow> harness" where
  "fuzz_icmp header data sz = do {
     (rc, header) \<leftarrow> icmp_parse data (ucast sz) ICMP_FAMILY_V4 (Some header);
     (rc, header) \<leftarrow> icmp_parse data (ucast sz) ICMP_FAMILY_V6 header;
     Some (Returned 0)
   }"

definition DUMMY_SRC_IP :: buf where "DUMMY_SRC_IP = [192, 168, 1, 10]"

definition DUMMY_DST_IP :: buf where "DUMMY_DST_IP = [93, 184, 216, 34]"

definition fuzz_tcp_udp :: "tcp_header_t \<Rightarrow> udp_header_t \<Rightarrow> harness" where
  "fuzz_tcp_udp tcp_header udp_header data sz = do {
     (rc, _, tcp_payload, tcp_payload_len) \<leftarrow> tcp_parse data (ucast sz) (Some tcp_header) (Some None) (Some 0);
     t \<leftarrow> (if rc = 0 then trap_if (outside data sz tcp_payload tcp_payload_len) else Some (Returned 0));
     if t = Trapped then Some Trapped
     else do {
       _ \<leftarrow> tcp_verify_checksum data (ucast sz) (Some DUMMY_SRC_IP) (Some DUMMY_DST_IP);
       (rc, _, udp_payload, udp_payload_len) \<leftarrow> udp_parse data (ucast sz) (Some udp_header) (Some None) (Some 0);
       t \<leftarrow> (if rc = 0 then trap_if (outside data sz udp_payload udp_payload_len) else Some (Returned 0));
       if t = Trapped then Some Trapped
       else do {
         _ \<leftarrow> udp_verify_checksum data (ucast sz) (Some DUMMY_SRC_IP) (Some DUMMY_DST_IP);
         Some (Returned 0)
       }
     }
   }"

subsection \<open>Targets never trap\<close>

text \<open>
  The input of a target: \<open>sz\<close> bytes at \<open>data\<close>. The parsers see the size cut to 32 bits, which is at most
  the size, and the check cuts the remaining length to 32 bits in the same way.
\<close>

definition input_ok :: "buf option \<Rightarrow> u64 \<Rightarrow> bool" where
  "input_ok data sz \<longleftrightarrow> (case data of None \<Rightarrow> True | Some d \<Rightarrow> unat sz \<le> length d)"

lemma unat_size_le: "unat (ucast sz :: u32) \<le> unat sz" for sz :: u64
  by (simp add: unsigned_ucast_eq take_bit_nat_less_eq_self)

lemma input_ok_buf: "input_ok (Some d) sz \<Longrightarrow> buf_ok d (ucast sz)"
  using unat_size_le [of sz] by (simp add: input_ok_def buf_ok_def)

lemma payload_inside:
  assumes "input_ok (Some d) sz" "off + unat m \<le> unat (ucast sz :: u32)"
  shows "outside (Some d) sz (Some (Some (drop off d))) (Some m) = Some False"
proof -
  have off: "off \<le> unat sz" "unat sz \<le> length d"
    using assms unat_size_le [of sz] by (simp_all add: input_ok_def)
  define r :: u32 where "r = word_of_int (int (unat sz) - int off)"
  have "unat (ucast sz :: u32) < 4294967296" using unsigned_less [of "ucast sz :: u32"] by simp
  then have "unat (of_nat off :: u32) = off" using assms(2) by (simp add: unat_of_nat)
  moreover have r: "r = ucast sz - of_nat off" by (simp add: r_def)
  ultimately have "unat r = unat (ucast sz :: u32) - off"
    using assms(2) by (simp only: unat_sub word_le_nat_alt)
  then have "\<not> m > r" using assms(2) by (simp add: word_less_nat_alt)
  moreover have "ptr_sub (drop off d) d = Some (int off)" using off by (simp add: ptr_sub_def suffix_drop)
  moreover have "\<not> int off > int (unat sz)" using off(1) by (simp only: of_nat_less_iff not_less)
  ultimately show ?thesis
    unfolding outside_def using off(2) by (auto simp: ptr_add_inside r)
qed

context header_parser
begin

text \<open>A call the way the targets make it ends without a payload or with one inside the input.\<close>

lemma harness_call:
  assumes "input_ok data sz"
  obtains (reject) oh where "parse data (ucast sz) (Some h) (Some None) (Some 0) = Some (-1, oh, Some None, Some 0)"
  | (accept) oh p m where "parse data (ucast sz) (Some h) (Some None) (Some 0) = Some (0, oh, Some (Some p), Some m)"
      "outside data sz (Some (Some p)) (Some m) = Some False"
proof (cases data)
  case None
  then show thesis by (intro reject [of "Some h"]) (simp add: null)
next
  case (Some d)
  have ok: "buf_ok d (ucast sz)" using assms Some by (simp add: input_ok_buf)
  obtain rc oh op ol where r: "parse (Some d) (ucast sz) (Some h) (Some None) (Some 0) = Some (rc, oh, op, ol)"
    using safe [OF ok] by (metis not_None_eq surj_pair)
  show thesis
  proof (cases "rc = 0")
    case True
    from accepted [OF ok r [unfolded True]] obtain off m where
      a: "op = Some (Some (drop off d))" "ol = Some m" "off + unat m \<le> unat (ucast sz :: u32)" by auto
    show thesis
    proof (rule accept)
      show "parse data (ucast sz) (Some h) (Some None) (Some 0) = Some (0, oh, Some (Some (drop off d)), Some m)"
        using r True a Some by simp
      show "outside data sz (Some (Some (drop off d))) (Some m) = Some False"
        using payload_inside a(3) assms Some by simp
    qed
  next
    case False
    with code [OF ok r] have "rc = -1 \<and> op = Some None \<and> ol = Some 0" by blast
    with r Some show thesis by (intro reject [of oh]) simp
  qed
qed

end

lemma leaf_harness:
  assumes "leaf_parser leaf n" "input_ok data sz"
  shows "\<exists>rc h'. leaf data (ucast sz) (Some h) = Some (rc, Some h')"
  using leaf_parser.null [OF assms(1), of data "Some h"] leaf_parser.outcome [OF assms(1) input_ok_buf, of _ sz h] assms(2)
  by (cases data) fastforce+

lemma checksum_verify_ipv4_pseudo_total:
  assumes "buf_ok seg len" "4 \<le> length src" "4 \<le> length dst"
  shows "checksum_verify_ipv4_pseudo seg len src dst proto \<noteq> None"
proof -
  have "src \<noteq> []" "dst \<noteq> []" using assms(2,3) by auto
  with assms show ?thesis
    by (simp add: checksum_verify_ipv4_pseudo_def checksum_partial_spec mem_simps buf_ok_def)
qed

lemma verify_harness:
  assumes "input_ok data sz"
  shows "\<exists>v. tcp_verify_checksum data (ucast sz) (Some DUMMY_SRC_IP) (Some DUMMY_DST_IP) = Some v"
    and "\<exists>v. udp_verify_checksum data (ucast sz) (Some DUMMY_SRC_IP) (Some DUMMY_DST_IP) = Some v"
proof -
  have "checksum_verify_ipv4_pseudo d (ucast sz) DUMMY_SRC_IP DUMMY_DST_IP proto \<noteq> None" if "data = Some d" for d proto
    using assms that input_ok_buf by (intro checksum_verify_ipv4_pseudo_total) (auto simp: DUMMY_SRC_IP_def DUMMY_DST_IP_def)
  moreover have "length d \<ge> unat (ucast sz :: u32)" if "data = Some d" for d
    using input_ok_buf assms that by (simp add: buf_ok_def)
  ultimately show "\<exists>v. tcp_verify_checksum data (ucast sz) (Some DUMMY_SRC_IP) (Some DUMMY_DST_IP) = Some v"
    and "\<exists>v. udp_verify_checksum data (ucast sz) (Some DUMMY_SRC_IP) (Some DUMMY_DST_IP) = Some v"
    by (cases data; force simp: tcp_verify_checksum_def udp_verify_checksum_def word_less_nat_alt mem_simps)+
qed


lemma trap_if_False [simp]: "trap_if (Some False) = Some (Returned 0)"
  by (simp add: trap_if_def)

lemma fuzz_eth_ok: "input_ok data sz \<Longrightarrow> fuzz_eth h data sz = Some (Returned 0)"
  by (rule eth.harness_call [of data sz h]) (simp_all add: fuzz_eth_def)

lemma fuzz_ip_ok: "input_ok data sz \<Longrightarrow> fuzz_ip h data sz = Some (Returned 0)"
  by (rule ip.harness_call [of data sz h]) (simp_all add: fuzz_ip_def)

lemma fuzz_ipv6_ok: "input_ok data sz \<Longrightarrow> fuzz_ipv6 h data sz = Some (Returned 0)"
  by (rule ipv6.harness_call [of data sz h]) (simp_all add: fuzz_ipv6_def)

lemma fuzz_arp_ok: "input_ok data sz \<Longrightarrow> fuzz_arp h data sz = Some (Returned 0)"
  using leaf_harness [OF arp.leaf_parser_axioms, of data sz h] by (auto simp: fuzz_arp_def)

lemma fuzz_icmp_ok:
  assumes "input_ok data sz"
  shows "fuzz_icmp h data sz = Some (Returned 0)"
proof -
  obtain rc h1 where 1: "icmp_parse data (ucast sz) ICMP_FAMILY_V4 (Some h) = Some (rc, Some h1)"
    using leaf_harness [OF icmp.leaf_parser_axioms assms] by blast
  obtain rc' h2 where "icmp_parse data (ucast sz) ICMP_FAMILY_V6 (Some h1) = Some (rc', Some h2)"
    using leaf_harness [OF icmp.leaf_parser_axioms assms] by blast
  with 1 show ?thesis by (simp add: fuzz_icmp_def)
qed

lemma fuzz_tcp_udp_ok:
  assumes "input_ok data sz"
  shows "fuzz_tcp_udp th uh data sz = Some (Returned 0)"
proof -
  obtain rc oh op ol where t: "tcp_parse data (ucast sz) (Some th) (Some None) (Some 0) = Some (rc, oh, op, ol)"
    "rc = 0 \<Longrightarrow> outside data sz op ol = Some False" by (rule tcp.harness_call [OF assms, of th]) auto
  obtain rc' oh' op' ol' where u: "udp_parse data (ucast sz) (Some uh) (Some None) (Some 0) = Some (rc', oh', op', ol')"
    "rc' = 0 \<Longrightarrow> outside data sz op' ol' = Some False" by (rule udp.harness_call [OF assms, of uh]) auto
  show ?thesis using t u verify_harness [OF assms] by (auto simp: fuzz_tcp_udp_def)
qed

subsection \<open>The replay driver\<close>

text \<open>
  What the calls on one argument answer: whether \<open>fopen\<close>, the two \<open>fseek\<close> and \<open>malloc\<close> succeed, the result of
  \<open>ftell\<close>, the bytes \<open>fread\<close> delivers, the byte in a fresh block of one byte, and the text of \<open>perror\<close>.
\<close>

record seed_file =
  sf_opens :: bool
  sf_seek_end :: bool
  sf_tell :: int
  sf_seek_set :: bool
  sf_mem :: bool
  sf_read :: buf
  sf_fresh :: u8
  sf_strerror :: string

record driver =
  drv_err :: string
  drv_files :: nat
  drv_blocks :: nat

definition say :: "string \<Rightarrow> driver \<Rightarrow> driver" where
  "say s d = d\<lparr>drv_err := drv_err d @ s\<rparr>"

definition open_file :: "driver \<Rightarrow> driver" where
  "open_file d = d\<lparr>drv_files := drv_files d + 1\<rparr>"

definition close_file :: "driver \<Rightarrow> driver" where
  "close_file d = d\<lparr>drv_files := drv_files d - 1\<rparr>"

definition perror :: "string \<Rightarrow> seed_file \<Rightarrow> driver \<Rightarrow> driver" where
  "perror s f = say (s @ '': '' @ sf_strerror f @ ''\<newline>'')"

text \<open>One turn of the loop: \<open>Inl\<close> when the program ends in it, with the exit status, or by the trap.\<close>

datatype ended = Exit int | Killed

definition replay_one :: "harness \<Rightarrow> string \<Rightarrow> seed_file \<Rightarrow> driver \<Rightarrow> (ended option \<times> driver) option" where
  "replay_one one arg f d =
     (if \<not> sf_opens f then Some (Some (Exit 1), perror arg f d)
      else
        let d = open_file d in
        if \<not> sf_seek_end f then Some (Some (Exit 1), close_file (perror ''fseek'' f d))
        else if sf_tell f < 0 \<or> \<not> sf_seek_set f then Some (Some (Exit 1), close_file (perror ''ftell/fseek'' f d))
        else if \<not> sf_mem f then Some (Some (Exit 1), close_file (say ''out of memory\<newline>'' d))
        else
          let d = d\<lparr>drv_blocks := drv_blocks d + 1\<rparr>;
            len = nat (sf_tell f);
            bytes = take len (sf_read f);
            buf = (if len > 0 then bytes @ replicate (len - length bytes) (sf_fresh f) else [sf_fresh f]);
            d = close_file d in
          if length bytes \<noteq> len then
            Some (Some (Exit 1), (say (arg @ '': short read\<newline>'') d)\<lparr>drv_blocks := drv_blocks d - 1\<rparr>)
          else do {
            r \<leftarrow> one (Some buf) (of_nat (length bytes));
            if r = Trapped then Some (Some Killed, d)
            else Some (None, d\<lparr>drv_blocks := drv_blocks d - 1\<rparr>)
          })"

fun replay :: "harness \<Rightarrow> (string \<times> seed_file) list \<Rightarrow> driver \<Rightarrow> (ended option \<times> driver) option" where
  "replay one [] d = Some (None, d)"
| "replay one ((arg, f) # fs) d = do {
     (e, d) \<leftarrow> replay_one one arg f d;
     if e \<noteq> None then Some (e, d) else replay one fs d }"

definition driver_main :: "harness \<Rightarrow> string \<Rightarrow> (string \<times> seed_file) list \<Rightarrow> driver \<Rightarrow> (ended \<times> driver) option" where
  "driver_main one argv0 args d =
     (if args = [] then Some (Exit 1, say (''usage: '' @ argv0 @ '' <seed-file> [seed-file...]\<newline>'') d)
      else do {
        (e, d) \<leftarrow> replay one args d;
        case e of
          Some e \<Rightarrow> Some (e, d)
        | None \<Rightarrow> Some (Exit 0, say (''replayed '' @ fmt_u (length args) @ '' input(s) OK\<newline>'') d)
      })"

definition no_driver :: driver where
  "no_driver = \<lparr>drv_err = [], drv_files = 0, drv_blocks = 0\<rparr>"


text \<open>A file that can be read as a whole; a file position is a signed 64-bit number.\<close>

definition readable :: "seed_file \<Rightarrow> bool" where
  "readable f \<longleftrightarrow> sf_opens f \<and> sf_seek_end f \<and> 0 \<le> sf_tell f \<and> sf_seek_set f \<and> sf_mem f
     \<and> nat (sf_tell f) \<le> length (sf_read f)"

definition never_traps :: "harness \<Rightarrow> bool" where
  "never_traps one \<longleftrightarrow> (\<forall>data sz. input_ok data sz \<longrightarrow> one data sz = Some (Returned 0))"

lemma replay_one_outcome:
  assumes "never_traps one" "sf_tell f < 2 ^ 63"
  shows "\<exists>d'. replay_one one arg f d = Some (if readable f then None else Some (Exit 1), d')
    \<and> drv_files d' = drv_files d \<and> drv_blocks d' = drv_blocks d
    \<and> (if readable f then drv_err d' = drv_err d else drv_err d' \<noteq> [])"
proof -
  let ?len = "nat (sf_tell f)"
  have "one (Some buf) (of_nat ?len) = Some (Returned 0)" if "?len \<le> length buf" for buf
  proof -
    have "?len < 2 ^ 64" using assms(2) by auto
    then have "unat (of_nat ?len :: u64) = ?len" by (simp add: unat_of_nat)
    with that assms(1) show ?thesis by (simp add: never_traps_def input_ok_def)
  qed
  then show ?thesis
    by (auto simp: replay_one_def readable_def Let_def perror_def say_def open_file_def close_file_def)
qed

lemma replay_outcome:
  assumes "never_traps one" "\<forall>(arg, f) \<in> set args. sf_tell f < 2 ^ 63"
  shows "\<exists>d'. replay one args d = Some (if list_all (readable \<circ> snd) args then None else Some (Exit 1), d')
    \<and> drv_files d' = drv_files d \<and> drv_blocks d' = drv_blocks d
    \<and> (if list_all (readable \<circ> snd) args then drv_err d' = drv_err d else drv_err d' \<noteq> [])"
  using assms(2)
proof (induction args arbitrary: d)
  case (Cons a args)
  obtain arg f where a: "a = (arg, f)" by (cases a)
  from replay_one_outcome [OF assms(1), of f arg d] Cons.prems a obtain d1 where
    "replay_one one arg f d = Some (if readable f then None else Some (Exit 1), d1)"
    "drv_files d1 = drv_files d" "drv_blocks d1 = drv_blocks d"
    "if readable f then drv_err d1 = drv_err d else drv_err d1 \<noteq> []" by auto
  with Cons.IH [of d1] Cons.prems a show ?case by (auto split: if_splits)
qed simp

lemma driver_main_outcome:
  assumes "never_traps one" "\<forall>(arg, f) \<in> set args. sf_tell f < 2 ^ 63"
  shows "\<exists>d'. driver_main one argv0 args no_driver
      = Some (Exit (if args \<noteq> [] \<and> list_all (readable \<circ> snd) args then 0 else 1), d')
    \<and> drv_files d' = 0 \<and> drv_blocks d' = 0 \<and> drv_err d' \<noteq> []
    \<and> (args \<noteq> [] \<and> list_all (readable \<circ> snd) args \<longrightarrow>
        drv_err d' = ''replayed '' @ fmt_u (length args) @ '' input(s) OK\<newline>'')"
  using replay_outcome [OF assms, of no_driver]
  by (auto simp: driver_main_def say_def no_driver_def split: if_splits)

lemmas harnesses_ok = fuzz_eth_ok fuzz_arp_ok fuzz_ip_ok fuzz_ipv6_ok fuzz_icmp_ok fuzz_tcp_udp_ok

lemma harnesses_never_trap:
  "never_traps (fuzz_eth eh)" "never_traps (fuzz_arp ah)" "never_traps (fuzz_ip ih)" "never_traps (fuzz_ipv6 jh)"
  "never_traps (fuzz_icmp ch)" "never_traps (fuzz_tcp_udp th uh)"
  by (simp_all add: never_traps_def harnesses_ok)

subsection \<open>Properties\<close>

text \<open>
  C18: No fuzz target traps, and none reads outside its input, on any input: for \<open>sz\<close> bytes at \<open>data\<close>, of
  whatever contents and size, 4 gigabytes and more included, or a null pointer, and whatever the
  headers on the stack contain, each of the six targets returns 0.
\<close>

theorem fuzz_targets_return:
  assumes "input_ok data sz"
  shows "fuzz_eth eh data sz = Some (Returned 0) \<and> fuzz_arp ah data sz = Some (Returned 0)
    \<and> fuzz_ip ih data sz = Some (Returned 0) \<and> fuzz_ipv6 jh data sz = Some (Returned 0)
    \<and> fuzz_icmp ch data sz = Some (Returned 0) \<and> fuzz_tcp_udp th uh data sz = Some (Returned 0)"
  using assms by (simp add: harnesses_ok)

theorem fuzz_targets_return_witness:
  "fuzz_ip (ip_fields (replicate 20 0)) (Some [0x45, 0, 0, 21, 0, 0, 0, 0, 64, 17, 0, 0, 10, 0, 0, 1, 10, 0, 0, 2, 0xAB]) 21
    = Some (Returned 0)"
  using fuzz_targets_return [of "Some [0x45, 0, 0, 21, 0, 0, 0, 0, 64, 17, 0, 0, 10, 0, 0, 1, 10, 0, 0, 2, 0xAB]" 21]
  by (simp add: input_ok_def)

end
