(* ===== verification/Seed_Corpus.thy ===== *)
theory Seed_Corpus
  imports Fuzz_Harnesses
begin

text \<open>
  \<open>src/src/fuzz/corpus/generate_seed_corpus.c\<close>: the tool that writes the seeds the targets are replayed on. The
  arrays of the tool are definitions; its state is the file system below the corpus directory and what
  it prints.
\<close>

subsection \<open>The tool\<close>

text \<open>Whether \<open>fopen\<close> succeeds, how many bytes \<open>fwrite\<close> writes, and the text of \<open>perror\<close>.\<close>

record gen_io =
  io_opens :: bool
  io_written :: nat
  io_strerror :: string

record gen =
  gen_files :: "string \<rightharpoonup> buf"
  gen_out :: string
  gen_err :: string

definition write_file :: "(string \<Rightarrow> gen_io) \<Rightarrow> string \<Rightarrow> buf \<Rightarrow> gen \<Rightarrow> gen" where
  "write_file io path data g =
     (if \<not> io_opens (io path) then g\<lparr>gen_err := gen_err g @ path @ '': '' @ io_strerror (io path) @ ''\<newline>''\<rparr>
      else g\<lparr>gen_files := (gen_files g)(path \<mapsto> if length data > 0 then take (io_written (io path)) data else []),
        gen_out := gen_out g @ ''wrote '' @ path @ '' ('' @ fmt_u (length data) @ '' bytes)\<newline>''\<rparr>)"

definition ipv4_frame :: buf where
  "ipv4_frame = [0x11, 0x22, 0x33, 0x44, 0x55, 0x66, 0xAA, 0xBB, 0xCC, 0xDD, 0xEE, 0xFF, 0x08, 0x00,
     0x45, 0x00, 0x00, 0x14, 0, 0, 0, 0, 64, 6, 0, 0, 192, 168, 1, 10, 93, 184, 216, 34]"

definition vlan_frame :: buf where
  "vlan_frame = [0x11, 0x22, 0x33, 0x44, 0x55, 0x66, 0xAA, 0xBB, 0xCC, 0xDD, 0xEE, 0xFF, 0x81, 0x00, 0x00, 0x64,
     0x08, 0x00, 0x45, 0x00, 0x00, 0x14, 0, 0, 0, 0, 64, 6, 0, 0, 192, 168, 1, 10, 93, 184, 216, 34]"

definition eth_truncated :: buf where
  "eth_truncated = [0x11, 0x22, 0x33, 0x44, 0x55]"

definition eth_seeds :: "(string \<Rightarrow> gen_io) \<Rightarrow> gen \<Rightarrow> gen" where
  "eth_seeds io g =
     (let g = write_file io ''eth/ipv4_frame.bin'' ipv4_frame g;
        g = write_file io ''eth/vlan_frame.bin'' vlan_frame g;
        g = write_file io ''eth/truncated.bin'' eth_truncated g in
      write_file io ''eth/empty.bin'' [] g)"

definition arp_req :: buf where
  "arp_req = [0x00, 0x01, 0x08, 0x00, 6, 4, 0x00, 0x01, 0xAA, 0xBB, 0xCC, 0xDD, 0xEE, 0xFF, 192, 168, 1, 1,
     0, 0, 0, 0, 0, 0, 192, 168, 1, 2]"

definition arp_seeds :: "(string \<Rightarrow> gen_io) \<Rightarrow> gen \<Rightarrow> gen option" where
  "arp_seeds io g = do {
     let g = write_file io ''arp/request.bin'' arp_req g;
     truncated \<leftarrow> memcpy_from arp_req 0 10;
     let g = write_file io ''arp/truncated.bin'' truncated g;
     Some (write_file io ''arp/empty.bin'' [] g)
   }"

definition ip_hdr :: buf where
  "ip_hdr = [0x45, 0x00, 0x00, 0x28, 0xAB, 0x12, 0x00, 0x00, 0x40, 0x06, 0xD8, 0x30, 192, 168, 1, 10, 93, 184, 216, 34]"

definition ip_with_options :: buf where
  "ip_with_options = [0x46, 0x00, 0x00, 0x2C, 0xAB, 0x12, 0x00, 0x00, 0x40, 0x06, 0xD8, 0x30, 192, 168, 1, 10, 93, 184,
     216, 34, 0x01, 0x01, 0x01, 0x00]"

definition ip_seeds :: "(string \<Rightarrow> gen_io) \<Rightarrow> gen \<Rightarrow> gen option" where
  "ip_seeds io g = do {
     let g = write_file io ''ip/basic.bin'' ip_hdr g;
     let g = write_file io ''ip/with_options.bin'' ip_with_options g;
     truncated \<leftarrow> memcpy_from ip_hdr 0 10;
     let g = write_file io ''ip/truncated.bin'' truncated g;
     Some (write_file io ''ip/empty.bin'' [] g)
   }"

definition ipv6_hdr :: buf where
  "ipv6_hdr = [0x60, 0x00, 0x00, 0x00, 0x00, 0x14, 0x06, 0x40,
     0x20, 0x01, 0x0D, 0xB8, 0, 0, 0, 0, 0, 0, 0, 0, 0, 0, 0, 0x01,
     0x20, 0x01, 0x0D, 0xB8, 0, 0, 0, 0, 0, 0, 0, 0, 0, 0, 0, 0x02]"

definition ipv6_seeds :: "(string \<Rightarrow> gen_io) \<Rightarrow> gen \<Rightarrow> gen option" where
  "ipv6_seeds io g = do {
     let g = write_file io ''ipv6/basic.bin'' ipv6_hdr g;
     truncated \<leftarrow> memcpy_from ipv6_hdr 0 15;
     let g = write_file io ''ipv6/truncated.bin'' truncated g;
     Some (write_file io ''ipv6/empty.bin'' [] g)
   }"

definition tcp_hdr :: buf where
  "tcp_hdr = [0x1F, 0x90, 0x00, 0x50, 0x00, 0x00, 0x00, 0x01, 0x00, 0x00, 0x00, 0x00, 0x50, 0x02,
     0xFF, 0xFF, 0x00, 0x00, 0x00, 0x00]"

definition udp_hdr :: buf where
  "udp_hdr = [0x00, 0x35, 0x1F, 0x90, 0x00, 0x08, 0x00, 0x00]"

definition tcp_udp_seeds :: "(string \<Rightarrow> gen_io) \<Rightarrow> gen \<Rightarrow> gen option" where
  "tcp_udp_seeds io g = do {
     let g = write_file io ''tcp_udp/tcp_basic.bin'' tcp_hdr g;
     let g = write_file io ''tcp_udp/udp_basic.bin'' udp_hdr g;
     truncated \<leftarrow> memcpy_from tcp_hdr 0 6;
     let g = write_file io ''tcp_udp/truncated.bin'' truncated g;
     Some (write_file io ''tcp_udp/empty.bin'' [] g)
   }"

definition echo_request :: buf where
  "echo_request = [0x08, 0x00, 0xF7, 0xFD, 0x00, 0x01, 0x00, 0x01]"

definition icmp_seeds :: "(string \<Rightarrow> gen_io) \<Rightarrow> gen \<Rightarrow> gen option" where
  "icmp_seeds io g = do {
     let g = write_file io ''icmp/echo_request.bin'' echo_request g;
     truncated \<leftarrow> memcpy_from echo_request 0 4;
     let g = write_file io ''icmp/truncated.bin'' truncated g;
     Some (write_file io ''icmp/empty.bin'' [] g)
   }"

definition generate_seeds :: "(string \<Rightarrow> gen_io) \<Rightarrow> gen \<Rightarrow> (int \<times> gen) option" where
  "generate_seeds io g = do {
     let g = eth_seeds io g;
     g \<leftarrow> arp_seeds io g;
     g \<leftarrow> ip_seeds io g;
     g \<leftarrow> ipv6_seeds io g;
     g \<leftarrow> tcp_udp_seeds io g;
     g \<leftarrow> icmp_seeds io g;
     Some (0, g)
   }"

subsection \<open>What it writes\<close>

lemmas seed_data = ipv4_frame_def vlan_frame_def eth_truncated_def arp_req_def ip_hdr_def ip_with_options_def
  ipv6_hdr_def tcp_hdr_def udp_hdr_def echo_request_def

definition corpus :: "(string \<times> buf) list" where
  "corpus =
     [(''eth/ipv4_frame.bin'', ipv4_frame), (''eth/vlan_frame.bin'', vlan_frame), (''eth/truncated.bin'', eth_truncated),
      (''eth/empty.bin'', []), (''arp/request.bin'', arp_req), (''arp/truncated.bin'', take 10 arp_req), (''arp/empty.bin'', []),
      (''ip/basic.bin'', ip_hdr), (''ip/with_options.bin'', ip_with_options), (''ip/truncated.bin'', take 10 ip_hdr),
      (''ip/empty.bin'', []), (''ipv6/basic.bin'', ipv6_hdr), (''ipv6/truncated.bin'', take 15 ipv6_hdr), (''ipv6/empty.bin'', []),
      (''tcp_udp/tcp_basic.bin'', tcp_hdr), (''tcp_udp/udp_basic.bin'', udp_hdr), (''tcp_udp/truncated.bin'', take 6 tcp_hdr),
      (''tcp_udp/empty.bin'', []), (''icmp/echo_request.bin'', echo_request), (''icmp/truncated.bin'', take 4 echo_request),
      (''icmp/empty.bin'', [])]"

lemma generate_seeds_fold: "generate_seeds io g = Some (0, fold (\<lambda>(path, d). write_file io path d) corpus g)"
  by (simp add: generate_seeds_def eth_seeds_def arp_seeds_def ip_seeds_def ipv6_seeds_def tcp_udp_seeds_def icmp_seeds_def
      corpus_def memcpy_from_def seed_data Let_def)

definition io_ok :: "(string \<Rightarrow> gen_io) \<Rightarrow> bool" where
  "io_ok io \<longleftrightarrow> (\<forall>path. io_opens (io path) \<and> 40 \<le> io_written (io path))"

lemma fold_write_file:
  assumes "io_ok io" "\<forall>(path, d) \<in> set ws. length d \<le> 40" "distinct (map fst ws)"
  shows "gen_files (fold (\<lambda>(path, d). write_file io path d) ws g) = gen_files g ++ map_of ws"
  using assms(2,3)
proof (induction ws arbitrary: g)
  case (Cons w ws)
  obtain path d where w: "w = (path, d)" by (cases w)
  have d: "take (io_written (io path)) d = d" using assms(1) Cons.prems(1) w by (auto simp: io_ok_def intro: order.trans)
  have "gen_files (write_file io path d g) = (gen_files g)(path \<mapsto> d)"
    using assms(1) d by (auto simp: write_file_def io_ok_def)
  moreover have "path \<notin> dom (map_of ws)" using Cons.prems(2) w by (simp add: dom_map_of_conv_image_fst)
  ultimately show ?case using Cons w by (simp add: map_add_upd_left flip: fun_upd_def)
qed simp

lemma corpus_shape: "\<forall>(path, d) \<in> set corpus. length d \<le> 40" "distinct (map fst corpus)"
  by (simp_all add: corpus_def seed_data)


text \<open>The seeds of one target, in the order in which the build lists them, as files to replay.\<close>

definition seed_of :: "gen \<Rightarrow> string \<Rightarrow> seed_file" where
  "seed_of g path = (let d = the (gen_files g path) in
     \<lparr>sf_opens = True, sf_seek_end = True, sf_tell = int (length d), sf_seek_set = True, sf_mem = True, sf_read = d,
      sf_fresh = 0, sf_strerror = []\<rparr>)"

definition seeds_of :: "gen \<Rightarrow> string list \<Rightarrow> (string \<times> seed_file) list" where
  "seeds_of g paths = map (\<lambda>path. (path, seed_of g path)) paths"

lemma driver_replays_seeds:
  assumes "never_traps one" "paths \<noteq> []" "\<forall>path \<in> set paths. length (the (gen_files g path)) \<le> 40"
  shows "driver_main one argv0 (seeds_of g paths) no_driver
    = Some (Exit 0, \<lparr>drv_err = ''replayed '' @ fmt_u (length paths) @ '' input(s) OK\<newline>'', drv_files = 0, drv_blocks = 0\<rparr>)"
proof -
  have "\<forall>(arg, f) \<in> set (seeds_of g paths). sf_tell f < 2 ^ 63"
    using assms(3) by (auto simp: seeds_of_def seed_of_def Let_def intro: le_less_trans [of _ 40])
  moreover have "list_all (readable \<circ> snd) (seeds_of g paths)"
    by (auto simp: seeds_of_def seed_of_def Let_def readable_def list_all_iff)
  moreover have "seeds_of g paths \<noteq> []" "length (seeds_of g paths) = length paths" using assms(2) by (simp_all add: seeds_of_def)
  ultimately show ?thesis using driver_main_outcome [OF assms(1), of "seeds_of g paths" argv0] by auto
qed

text \<open>The verdict of a parser on a seed, given its header and payload outputs.\<close>

definition seed_verdict :: "'h parser \<Rightarrow> 'h \<Rightarrow> buf \<Rightarrow> int option" where
  "seed_verdict parse h d = map_option fst (parse (Some d) (of_nat (length d)) (Some h) (Some None) (Some 0))"

definition leaf_seed_verdict :: "'h leaf_parser \<Rightarrow> 'h \<Rightarrow> buf \<Rightarrow> int option" where
  "leaf_seed_verdict leaf h d = map_option fst (leaf (Some d) (of_nat (length d)) (Some h))"

lemma eth_seed_verdicts: "seed_verdict eth_parse h ipv4_frame = Some 0" "seed_verdict eth_parse h vlan_frame = Some 0"
    "seed_verdict eth_parse h eth_truncated = Some (-1)" "seed_verdict eth_parse h [] = Some (-1)"
  by (simp_all add: seed_verdict_def eth_parse_eq buf_ok_def seed_data be16_def)

lemma arp_seed_verdicts: "leaf_seed_verdict arp_parse h arp_req = Some 0" "leaf_seed_verdict arp_parse h (take 10 arp_req) = Some (-1)"
    "leaf_seed_verdict arp_parse h [] = Some (-1)"
  by (simp_all add: leaf_seed_verdict_def arp_parse_eq buf_ok_def seed_data arp_wf_def arp_fields_def be16_def)

lemma ip_seed_verdicts: "seed_verdict ip_parse h ip_hdr = Some 0" "seed_verdict ip_parse h ip_with_options = Some 0"
    "seed_verdict ip_parse h (take 10 ip_hdr) = Some (-1)" "seed_verdict ip_parse h [] = Some (-1)"
  by (simp_all add: seed_verdict_def ip_parse_eq buf_ok_def seed_data ip_accepts_def)

lemma ipv6_seed_verdicts: "seed_verdict ipv6_parse h ipv6_hdr = Some 0" "seed_verdict ipv6_parse h (take 15 ipv6_hdr) = Some (-1)"
    "seed_verdict ipv6_parse h [] = Some (-1)"
  by (simp_all add: seed_verdict_def ipv6_parse_eq buf_ok_def seed_data ipv6_accepts_def)

lemma tcp_udp_seed_verdicts: "seed_verdict tcp_parse h tcp_hdr = Some 0" "seed_verdict udp_parse k udp_hdr = Some 0"
  by (simp_all add: seed_verdict_def tcp_parse_eq udp_parse_eq buf_ok_def seed_data tcp_accepts_def)

lemma icmp_seed_verdicts: "leaf_seed_verdict (\<lambda>d n. icmp_parse d n fam) h echo_request = Some 0"
    "leaf_seed_verdict (\<lambda>d n. icmp_parse d n fam) h (take 4 echo_request) = Some (-1)"
    "leaf_seed_verdict (\<lambda>d n. icmp_parse d n fam) h [] = Some (-1)"
  by (simp_all add: leaf_seed_verdict_def icmp_parse_eq buf_ok_def seed_data)

lemma echo_request_checksum: "icmpv4_verify_checksum (Some echo_request) 8 = Some 1"
  by (simp add: icmpv4_verify_checksum_eq buf_ok_def echo_request_def ones_add_def be16_def)


subsection \<open>Properties\<close>

text \<open>The build's replay tests: a target and the seeds of its directory.\<close>

definition eth_paths :: "string list" where
  "eth_paths = [''eth/empty.bin'', ''eth/ipv4_frame.bin'', ''eth/truncated.bin'', ''eth/vlan_frame.bin'']"
definition arp_paths :: "string list" where
  "arp_paths = [''arp/empty.bin'', ''arp/request.bin'', ''arp/truncated.bin'']"
definition ip_paths :: "string list" where
  "ip_paths = [''ip/basic.bin'', ''ip/empty.bin'', ''ip/truncated.bin'', ''ip/with_options.bin'']"
definition ipv6_paths :: "string list" where
  "ipv6_paths = [''ipv6/basic.bin'', ''ipv6/empty.bin'', ''ipv6/truncated.bin'']"
definition tcp_udp_paths :: "string list" where
  "tcp_udp_paths = [''tcp_udp/empty.bin'', ''tcp_udp/tcp_basic.bin'', ''tcp_udp/truncated.bin'', ''tcp_udp/udp_basic.bin'']"
definition icmp_paths :: "string list" where
  "icmp_paths = [''icmp/echo_request.bin'', ''icmp/empty.bin'', ''icmp/truncated.bin'']"

lemmas seed_paths = eth_paths_def arp_paths_def ip_paths_def ipv6_paths_def tcp_udp_paths_def icmp_paths_def



end
