(* ===== verification/Spec2Isabelle.thy ===== *)
theory Spec2Isabelle
  imports Checksum Eth_Parser Arp_Parser Ip_Parser Ipv6_Parser Tcp_Udp_Parser Icmp_Parser Protocol_Stack
    Bpf Capfilter Dispfilter Packets Hex_Dump Packet_Printer Packet_Queue Raw_Ring Raw_Socket Pcap
    Capture_Loop Capture_Backend Stop_Race Filter_Agreement Pipeline Fake_Backend Statistics Main_Program
    Fuzz_Harnesses Seed_Corpus
begin

text \<open>
  A verification of the packet analyzer \<open>my_wireshark\<close>.

  \<^bold>\<open>The program.\<close> \<open>main\<close> (\<open>src/src/main.cpp\<close>) reads its options or asks for them, compiles a display filter
  and starts two threads. The capture thread runs \<open>capture_backend_run\<close>
  (\<open>src/src/c/capture_backend_linux.c\<close>): it compiles a capture filter to classic BPF
  (\<open>src/src/c/capfilter.c\<close>), opens an \<open>AF_PACKET\<close> socket with a \<open>TPACKET_V3\<close> ring, attaches the
  filter (\<open>src/src/c/raw_socket.c\<close>), and then hands every frame of the ring to a callback and to a
  \<open>.pcap\<close> file, until Ctrl+C. The callback puts the frames into a bounded queue
  (\<open>src/src/cpp/packet_queue.cpp\<close>). The main thread takes them out, decodes them with the protocol
  parsers (\<open>src/src/c/*_parser.c\<close>, \<open>checksum.c\<close>), evaluates the display filter
  (\<open>src/src/c/dispfilter.c\<close>) and prints a summary and a dump (\<open>src/src/cpp/packet_printer.cpp\<close> and
  the packet classes).

  \<^bold>\<open>Conventions.\<close> Integers are words of the width of the C type. A buffer is a list of bytes, a pointer
  that may be null an \<open>option\<close>, and an output parameter is passed in and returned. A function that
  can read or write outside an object, or may never return, has an \<open>option\<close> result, and
  \<^const>\<open>None\<close> stands for that; error codes are values. So \<open>f x = Some y\<close> always says that the
  call is memory safe and returns. \<open>buf_ok d len\<close> says that \<open>d\<close> really has \<open>len\<close> bytes. The answers of
  the system and the contents of uninitialised variables are arguments.

  \<^bold>\<open>Theories.\<close>

  \<^item> \<open>Prelude\<close>: word types, big-endian fields, checked memory access, and their lemmas. \<open>C_Text\<close>: \<open>printf\<close>.

  \<^item> \<open>Checksum\<close> (\<open>checksum.c\<close>): the deferred-carry sum equals RFC 1071's one's-complement sum, also under
    the two pseudo-headers; every error in one byte is detected (locale \<open>message_check\<close>).

  \<^item> \<open>Parser_Interface\<close>: the contract \<open>header_parser\<close> of the parsers (total, payload inside the buffer,
    outputs untouched on failure), what follows from it, and stacks of parsers (\<open>parser_stack\<close>).
    \<open>Eth_Parser\<close>, \<open>Arp_Parser\<close>, \<open>Ip_Parser\<close>, \<open>Ipv6_Parser\<close>, \<open>Tcp_Udp_Parser\<close>, \<open>Icmp_Parser\<close>: one parser
    each, interpreted in the contract, characterised against an encoder of the wire format, with its
    address formatter and its checksum verifier. \<open>Protocol_Stack\<close>: their compositions.

  \<^item> \<open>Bpf\<close> (\<open>src/src/tests/bpf_interp.c\<close>): the BPF interpreter of the test suite, and the rules a kernel
    imposes on an attached program.

  \<^item> \<open>Filter_Common\<close>, \<open>Lexer\<close>, \<open>Recursive_Descent\<close>: what the two filter languages share. The locales
    \<open>lexer\<close> and \<open>recursive_descent\<close> are interpreted on both; a sentence is given by the inductive
    relations \<open>spells\<close> (text to tokens) and \<open>or_expr\<close> (tokens to syntax tree), independently of the
    code.

  \<^item> \<open>Capfilter_Lexer\<close>, \<open>Capfilter_Parser\<close>, \<open>Capfilter_Codegen\<close>, \<open>Capfilter\<close> (\<open>capfilter.c\<close>): lexer,
    parser, code generator with its backpatching of short-circuit jumps, and the interface. The
    compiler is correct: the program it emits, run by \<open>Bpf\<close>, accepts exactly the packets on which the
    sentence is true.

  \<^item> \<open>Dispfilter_Literals\<close>, \<open>Dispfilter_Lexer\<close>, \<open>Dispfilter_Parser\<close>, \<open>Dispfilter\<close> (\<open>dispfilter.c\<close>): the
    same for the display filter, with its MAC and IPv6 literals, and its evaluator.

  \<^item> \<open>Filter_Agreement\<close>: the two languages on the same frame.

  \<^item> \<open>Packets\<close> (the classes of \<open>src/src/cpp\<close>), \<open>Hex_Dump\<close>, \<open>Packet_Printer\<close> (\<open>packet_printer.cpp\<close>): what
    is printed for a frame, against a reference decoder; the dump can be read back.

  \<^item> \<open>Packet_Queue\<close>: the monitor as a step relation over the two threads, with their program counters,
    the lock and the two condition variables: order, bound, no deadlock, no infinite run.

  \<^item> \<open>Raw_Ring\<close> (\<open>raw_socket_recv\<close>): user and kernel around the ring; \<open>kernel_ok\<close> is the documented
    protocol of the kernel, \<open>cursor_ok\<close> the invariant of the reader. \<open>Raw_Socket\<close>: the rest of
    \<open>raw_socket.c\<close> over the resources it holds.

  \<^item> \<open>Pcap\<close>: the capture file and a reader for it. \<open>Capture_Loop\<close>: the receive loop of \<open>run_impl\<close>, for any
    callback that satisfies the locale \<open>frame_callback\<close>. \<open>Capture_Backend\<close>: the whole of \<open>run_impl\<close> over
    the state of the process, and the table of function pointers. \<open>Stop_Race\<close>: the end of a run and
    the signal handler, interleaved.

  \<^item> \<open>Pipeline\<close>: the two threads of \<open>main\<close> around any capture back end that satisfies the locale
    \<open>capture_source\<close>. What the consumer takes out of the queue is a parameter \<open>transport\<close>, of which only
    \<open>queue_transport\<close> is assumed: some run of \<open>Packet_Queue\<close>'s step relation produces it. The locale is
    interpreted for the Linux back end in \<open>Main_Program\<close> and for the replaying one of the tests
    (\<open>src/src/tests/fake_capture_backend.c\<close>) in \<open>Fake_Backend\<close>.

  \<^item> \<open>Statistics\<close>: the rates of the statistics line in IEEE doubles, with a bound on the error of what is
    printed. \<open>Main_Program\<close> (\<open>main.cpp\<close>): options, dialogue and the program as a whole. The properties below
    join all parts.

  \<^item> \<open>Fuzz_Harnesses\<close> (\<open>src/src/fuzz/fuzz_*.c\<close>, \<open>standalone_driver.c\<close>): no fuzz target ever traps, and what the
    replay driver reports. \<open>Seed_Corpus\<close> (\<open>generate_seed_corpus.c\<close>): the seeds the tool writes and how the
    parsers take them.

  \<^bold>\<open>Bounds.\<close> The recursive-descent parsers take fuel, \<open>CF_FUEL\<close> and \<open>DF_FUEL\<close>, 1027 levels each: at most
    256 tokens are read and each costs at most four calls, so the fuel never runs out (a lemma of both
    parsers), and no theorem depends on it. A frame has at most 65536 bytes, the buffer of \<open>run_impl\<close>;
    the queue holds 4096 frames, the default of its constructor. Loops that may run for ever
    (\<open>checksum_loop\<close>, \<open>hex_dump_loop\<close>, \<open>recv_loop\<close>, \<open>run_loop\<close>, \<open>fake_loop\<close>) are partial functions with theorems on when they return.

  \<^bold>\<open>Not modelled.\<close> What the capture thread writes to standard error (the messages of \<open>perror\<close> and
    \<open>fprintf\<close> in \<open>raw_socket.c\<close> and \<open>capture_backend_linux.c\<close>), which influences nothing else;
    \<open>dispfilter_free\<close>, the release of a tree that the model has as a value; the width of the ring's
    memory accesses (an update of a block's status word is one step); the kernel and the sockets beyond
    the answers of the calls; the unit tests, apart from the BPF interpreter and the back end they
    contain.
\<close>

subsection \<open>From the command line to the output\<close>

text \<open>A successful run of the program, stage by stage.\<close>

lemma main_stages:
  assumes "main h transport args ins p = Some (0, out, errs, p')"
  obtains c n devices st shown filt err buf where "parse_args args no_cli = Inr c"
    "capture_backend_list_devices (h_ifaddrs h) (h_raw_devices h) (h_devices h) 32 = Some (n, devices)" "0 < n"
    "choose_settings c (take (nat n) devices) ins = (Some st, shown)"
    "dispfilter_compile (h_filter_mem h) (h_nodes_mem h) (Some (c_str (s_display_filter st))) (Some (h_filter_err h)) 128
      = Some (Some filt, err)"
    "run_and_print (capture_thread (h_world h) st) transport (h_locals h) filt
      (shown @ ''Capturing on '' @ s_device st @ '' (Ctrl+C to stop)...\<newline>'') (h_buf h, p) = Some (0, out, buf, p')"
    "errs = report_stats h p'"
proof -
  obtain c where c: "parse_args args no_cli = Inr c" using assms by (auto simp: main_def split: sum.splits)
  obtain n devices where d: "capture_backend_list_devices (h_ifaddrs h) (h_raw_devices h) (h_devices h) 32 = Some (n, devices)" "0 < n"
    using assms c by (auto simp: main_def split: bind_splits if_splits)
  obtain st shown where st: "choose_settings c (take (nat n) devices) ins = (Some st, shown)"
    using assms c d by (auto simp: main_def split: prod.splits option.splits)
  obtain filt err where f: "dispfilter_compile (h_filter_mem h) (h_nodes_mem h) (Some (c_str (s_display_filter st)))
      (Some (h_filter_err h)) 128 = Some (Some filt, err)"
    using assms c d st by (auto simp: main_def split: bind_splits option.splits)
  obtain buf where "run_and_print (capture_thread (h_world h) st) transport (h_locals h) filt
      (shown @ ''Capturing on '' @ s_device st @ '' (Ctrl+C to stop)...\<newline>'') (h_buf h, p) = Some (0, out, buf, p')"
    "errs = report_stats h p'"
    using assms c d st f by (auto simp: main_def split: bind_splits if_splits)
  then show thesis by (rule that [OF c d st f])
qed

text \<open>The statistics line of a complete run.\<close>

definition final_stats :: "host \<Rightarrow> string" where
  "final_stats h = (let s = w_counted (h_world h) in
     if ok_statistics (w_close (h_world h)) then stats_line (packets_captured s) (packets_dropped s) (h_ticks h) else [])"

lemma report_final_stats:
  assumes "capture_thread (h_world h) st cb user (h_buf h, p) = Some (0, user', buf, p')" "capture_ready (h_world h) (h_buf h, p)"
  shows "report_stats h p' = final_stats h"
  using run_impl_last_stats [of "h_world h" _ _ _ cb user "h_buf h" p user' buf p' "h_stats h"] assms
  by (auto simp: report_stats_def final_stats_def capture_ready_def capture_thread_run backend_defs Let_def)

text \<open>
  C1: The whole program, on a kernel that follows the ring protocol: if it exits with 0, the command line was
  valid, a device was chosen and the display filter compiled, and there is one sequence of frames, those
  of the kernel's ring, that is both printed and saved. Standard output is the dialogue, the line
  ``Capturing on ...'' and then, for every frame that satisfies the display filter, its number in the
  sequence, its decoded summary and its dump; and the capture file, if one was asked for, reads back as
  the same sequence, including the frames the display filter hides. The main thread's standard error is the
  statistics line with the numbers the kernel counted for the socket, or nothing if they could not be
  read. This holds for every schedule of the two threads.
\<close>

theorem main_prints_and_saves:
  assumes "main h transport args ins p = Some (0, out, errs, p')" "queue_transport transport"
    and "capture_ready (h_world h) (h_buf h, p)"
  shows "\<exists>c devices st shown filt err xs. parse_args args no_cli = Inr c \<and> choose_settings c devices ins = (Some st, shown)
    \<and> dispfilter_compile (h_filter_mem h) (h_nodes_mem h) (Some (c_str (s_display_filter st))) (Some (h_filter_err h)) 128
      = Some (Some filt, err)
    \<and> out = shown @ ''Capturing on '' @ s_device st @ '' (Ctrl+C to stop)...\<newline>''
        @ numbered 1 (Some filt) (map frame_args (map frame_of xs))
    \<and> (c_str (s_pcap_path st) \<noteq> [] \<longrightarrow> read_pcap (the (files p' (c_str (s_pcap_path st)))) = Some (map frame_of xs))
    \<and> errs = final_stats h"
  using assms(1)
proof (rule main_stages)
  fix c n devices st shown filt err buf
  assume st: "parse_args args no_cli = Inr c" "choose_settings c (take (nat n) devices) ins = (Some st, shown)"
    and filt: "dispfilter_compile (h_filter_mem h) (h_nodes_mem h) (Some (c_str (s_display_filter st))) (Some (h_filter_err h)) 128
      = Some (Some filt, err)"
    and printed: "run_and_print (capture_thread (h_world h) st) transport (h_locals h) filt
      (shown @ ''Capturing on '' @ s_device st @ '' (Ctrl+C to stop)...\<newline>'') (h_buf h, p) = Some (0, out, buf, p')"
    and errs: "errs = report_stats h p'"
  obtain pushed where run: "capture_thread (h_world h) st queue_push_callback [] (h_buf h, p) = Some (0, pushed, buf, p')"
    using run_and_print_ran [OF printed] .
  obtain xs where xs: "pushed = map captured_of (map frame_of xs)"
    "c_str (s_pcap_path st) \<noteq> [] \<longrightarrow> read_pcap (the (files p' (c_str (s_pcap_path st)))) = Some (map frame_of xs)"
    by (rule capture_thread_pushed [OF assms(3) run]) simp
  have "out = shown @ ''Capturing on '' @ s_device st @ '' (Ctrl+C to stop)...\<newline>''
      @ numbered 1 (Some filt) (map frame_args (map frame_of xs))"
    using linux_source.prints [OF assms(3) run [unfolded xs(1)] short_frame_of assms(2) compiled_filter_wf [OF filt]] printed
    by simp
  with st filt xs(2) report_final_stats [OF run assms(3)] errs show ?thesis by blast
qed


text \<open>A host with one interface and one packet in its ring.\<close>

definition sample_host :: host where
  "sample_host = \<lparr>h_argv0 = ''my_wireshark'', h_ifaddrs = Some [Some ''eth0''], h_raw_devices = replicate 32 [],
     h_devices = replicate 32 \<lparr>cd_name = [], cd_description = []\<rparr>, h_filter_mem = True, h_nodes_mem = True, h_filter_err = [],
     h_world = sample_world, h_buf = replicate 65536 0, h_locals = sample_locals, h_ticks = 0,
     h_stats = \<lparr>packets_captured = 0, packets_dropped = 0\<rparr>\<rparr>"

lemma sample_main:
  "\<exists>out errs p'. main sample_host (\<lambda>pushed. pushed) [''-w'', ''a.pcap'', ''-i'', ''eth0''] (cin []) sample_proc = Some (0, out, errs, p')"
proof -
  have args: "parse_args [''-w'', ''a.pcap'', ''-i'', ''eth0''] no_cli
      = Inr (no_cli\<lparr>cli_pcap_path := ''a.pcap'', cli_iface := ''eth0'', have_iface := True\<rparr>)"
    by (simp add: parse_args.simps)
  have dev: "capture_backend_list_devices (h_ifaddrs sample_host) (h_raw_devices sample_host) (h_devices sample_host) (int 32)
      = Some (1, \<lparr>cd_name = ''eth0'', cd_description = []\<rparr> # replicate 31 \<lparr>cd_name = [], cd_description = []\<rparr>)"
    by (simp add: sample_host_def backend_defs list_devices_impl_def raw_socket_list_devices_def strncpy_def
        replicate_Suc [of 31, simplified])
  have run0: "run_impl w d (Some []) path cb u b p = run_impl w d None path cb u b p" for w d path b p and cb :: "'u callback" and u
    by (simp add: run_impl_def compile_filter_def)
  obtain p' where run: "run_impl sample_world (Some ''eth0'') None (Some ''a.pcap'') queue_push_callback [] (replicate 65536 0) sample_proc
      = Some (0, [captured_of ([10, 11, 12], 7, 9)], [10, 11, 12] @ replicate 65533 0, p')" using sample_run by blast
  have filt: "dispfilter_compile True True (Some []) (Some []) 128 = Some (Some \<lparr>node_total = 0, root = None\<rparr>, Some [])"
    by (simp add: dispfilter_compile_def)
  let ?st = "\<lparr>s_device = ''eth0'', s_capture_filter = [], s_display_filter = [], s_pcap_path = ''a.pcap''\<rparr>"
  have st: "choose_settings (no_cli\<lparr>cli_pcap_path := ''a.pcap'', cli_iface := ''eth0'', have_iface := True\<rparr>) devs ins = (Some ?st, [])" for devs ins
    by (simp add: choose_settings_def no_cli_def)
  have fr: "frame_of sample_hdr = ([10, 11, 12], 7, 9)" by (simp add: frame_of_def sample_hdr_def)
  have ready: "capture_ready sample_world (replicate 65536 0, sample_proc)"
    using sample_ring_ok by (simp add: capture_ready_def sample_proc_def) (simp add: sample_world_def)
  have "capture_thread sample_world ?st queue_push_callback [] (replicate 65536 0, sample_proc)
      = Some (0, map captured_of (map frame_of [sample_hdr]), [10, 11, 12] @ replicate 65533 0, p')"
    using run by (simp add: capture_thread_run run0 c_str_def fr)
  from linux_source.prints [OF ready this short_frame_of id_transport compiled_filter_wf [OF filt]] obtain out where
    "run_and_print (capture_thread (h_world sample_host) ?st) (\<lambda>pushed. pushed) (h_locals sample_host) \<lparr>node_total = 0, root = None\<rparr>
      ''Capturing on eth0 (Ctrl+C to stop)...\<newline>'' (h_buf sample_host, sample_proc)
      = Some (0, out, [10, 11, 12] @ replicate 65533 0, p')"
    by (simp add: sample_host_def)
  moreover have "h_filter_mem sample_host" "h_nodes_mem sample_host" "h_filter_err sample_host = []"
    by (simp_all add: sample_host_def)
  ultimately show ?thesis using dev filt by (simp add: main_def args st c_str_def)
qed


theorem main_prints_and_saves_witness:
  "\<exists>out errs p' filt xs. main sample_host (\<lambda>pushed. pushed) [''-w'', ''a.pcap'', ''-i'', ''eth0''] (cin []) sample_proc
      = Some (0, out, errs, p')
    \<and> out = ''Capturing on eth0 (Ctrl+C to stop)...\<newline>'' @ numbered 1 (Some filt) (map frame_args (map frame_of xs))
    \<and> read_pcap (the (files p' ''a.pcap'')) = Some (map frame_of xs) \<and> errs = stats_line 1 0 0"
proof -
  obtain out errs p' where r: "main sample_host (\<lambda>pushed. pushed) [''-w'', ''a.pcap'', ''-i'', ''eth0''] (cin []) sample_proc
      = Some (0, out, errs, p')"
    using sample_main by blast
  have h: "capture_ready (h_world sample_host) (h_buf sample_host, sample_proc)"
    using sample_ring_ok by (simp add: capture_ready_def sample_host_def sample_proc_def) (simp add: sample_world_def)
  from main_prints_and_saves [OF r id_transport h] obtain c devices st shown filt err xs where
    m: "parse_args [''-w'', ''a.pcap'', ''-i'', ''eth0''] no_cli = Inr c" "choose_settings c devices (cin []) = (Some st, shown)"
    "out = shown @ ''Capturing on '' @ s_device st @ '' (Ctrl+C to stop)...\<newline>''
        @ numbered 1 (Some filt) (map frame_args (map frame_of xs))"
    "c_str (s_pcap_path st) \<noteq> [] \<longrightarrow> read_pcap (the (files p' (c_str (s_pcap_path st)))) = Some (map frame_of xs)"
    "errs = final_stats sample_host"
    by blast
  have "s_device st = ''eth0''" "s_pcap_path st = ''a.pcap''" "shown = []"
    using m(1,2) by (auto simp: parse_args.simps choose_settings_def)
  moreover have "final_stats sample_host = stats_line 1 0 0"
    by (simp add: final_stats_def sample_host_def sample_world_def all_ok_def)
  ultimately show ?thesis using m(3-5) r
    by (intro exI [of _ out] exI [of _ errs] exI [of _ p'] exI [of _ filt] exI [of _ xs]) (simp add: c_str_def)
qed


subsection \<open>The program returns\<close>

lemma list_devices_loop_length: "length out \<le> n \<Longrightarrow> length (list_devices_loop (int n) addrs out) \<le> n"
  by (induction "int n" addrs out rule: list_devices_loop.induct) (auto split: option.splits)

lemma copy_devices_total: "length ds \<le> length dst \<Longrightarrow> \<exists>r. copy_devices ds dst = Some r"
  by (induction ds dst rule: copy_devices.induct) auto

lemma list_devices_total:
  assumes "length raw = 32" "length devices = 32"
  shows "\<exists>r. capture_backend_list_devices ifaddrs raw devices 32 = Some r"
proof (cases ifaddrs)
  case None
  then show ?thesis by (simp add: backend_defs list_devices_impl_def raw_socket_list_devices_def)
next
  case (Some addrs)
  define ds where "ds = list_devices_loop 32 addrs []"
  have len: "length ds \<le> 32" using list_devices_loop_length [of "[]" 32 addrs] by (simp add: ds_def)
  then obtain r where "copy_devices ds devices = Some r" using copy_devices_total [of ds devices] assms(2) by auto
  with len show ?thesis
    by (simp add: backend_defs list_devices_impl_def raw_socket_list_devices_def Some assms(1) flip: ds_def)
qed

definition few_tokens :: "settings \<Rightarrow> bool" where
  "few_tokens st \<longleftrightarrow> (\<forall>ts. spells tok_text (c_str (s_capture_filter st)) ts \<longrightarrow> length ts \<noteq> 256)
     \<and> (\<forall>ts. spells df_tok_text (c_str (s_display_filter st)) ts \<longrightarrow> length ts \<noteq> 256)"

lemma ipv6_text_nonempty: "\<not> ipv6_text [] a"
  by (simp add: flip: parse_ipv6_word_iff) code_simp

lemma few_tokens_short:
  assumes "length (c_str (s_capture_filter st)) < 256" "length (c_str (s_display_filter st)) < 256"
  shows "few_tokens st"
proof -
  have "w \<noteq> []" if "tok_text w t" for w t
    using that by (cases rule: tok_text.cases) (auto simp: quad_text_def dest: keyword_shape)
  moreover have "w \<noteq> []" if "df_tok_text w t" for w t
    using that by (cases rule: df_tok_text.cases) (auto simp: quad_text_def mac_text_def ipv6_text_nonempty dest: df_keyword_shape)
  ultimately show ?thesis using assms spells_length unfolding few_tokens_def by (metis not_le)
qed

lemma compile_filter_total:
  assumes "\<forall>ts. spells tok_text s ts \<longrightarrow> length ts \<noteq> 256"
  shows "compile_filter w (Some s) p \<noteq> None"
proof (cases "s = []")
  case False
  show ?thesis
    by (rule compile_outcome [OF False, of "w_mem_ok w" no_filter "Some (w_err w)" 128])
      (use assms False in \<open>auto simp: compile_filter_def\<close>)
qed (simp add: compile_filter_def)

lemma dispfilter_compile_total:
  assumes "\<forall>ts. spells df_tok_text s ts \<longrightarrow> length ts \<noteq> 256"
  shows "\<exists>filt e. dispfilter_compile fm nm (Some s) eb el = Some (filt, e)"
proof (cases "fm \<and> nm \<and> s \<noteq> []")
  case True
  then show ?thesis using df_compile_outcome [of s eb el] assms by (metis (full_types))
qed (auto simp: dispfilter_compile_def)


lemma capture_thread_returns:
  assumes "few_tokens st" "capture_ready w (buf, p)" "\<forall>j \<ge> m. ev_stop (w_events w j)"
  shows "capture_thread w st queue_push_callback [] (buf, p) \<noteq> None"
proof -
  have ready: "length buf = 65536" "\<forall>j. kernel_ok (ev_kernel (w_events w j))" "cursor_ok start_cursor (w_ring w)"
    using assms(2) by (auto simp: capture_ready_def)
  have "compile_filter w (Some (c_str (s_capture_filter st))) p \<noteq> None"
    using assms(1) by (intro compile_filter_total) (simp add: few_tokens_def)
  from run_impl_stops [OF ready(2) assms(3) ready(3,1) this] show ?thesis
    unfolding capture_thread_run by (metis option.distinct(1))
qed

text \<open>
  C8: The program returns. Whatever the command line, the input, the memory allocator and the system calls
  do, \<open>main\<close> neither reads or writes out of bounds nor loops for ever, provided that a stop is requested
  at some point (so that the receive loop sees the flag from turn \<open>m\<close> on) and that no filter that is
  typed in has exactly 256 tokens. Every failure is an exit with status 1 and a message on standard
  error.
\<close>

theorem main_returns:
  assumes "queue_transport transport" "length (h_raw_devices h) = 32" "length (h_devices h) = 32"
    and "capture_ready (h_world h) (h_buf h, p)" "\<forall>j \<ge> m. ev_stop (w_events (h_world h) j)"
    and "\<forall>c devices st shown. parse_args args no_cli = Inr c \<longrightarrow> choose_settings c devices ins = (Some st, shown) \<longrightarrow> few_tokens st"
  shows "\<exists>status out errs p'. main h transport args ins p = Some (status, out, errs, p')
    \<and> (status = 0 \<or> status = 1 \<and> errs \<noteq> [])"
proof (cases "parse_args args no_cli")
  case (Inr c)
  obtain n devices where d: "capture_backend_list_devices (h_ifaddrs h) (h_raw_devices h) (h_devices h) 32 = Some (n, devices)"
    using list_devices_total [OF assms(2,3)] by fast
  obtain ost shown where st: "choose_settings c (take (nat n) devices) ins = (ost, shown)" by (metis surj_pair)
  show ?thesis
  proof (cases "n \<le> 0 \<or> ost = None")
    case False
    then obtain st where ost: "ost = Some st" by auto
    have few: "few_tokens st" using assms(6) Inr st ost by blast
    then obtain filt e where f: "dispfilter_compile (h_filter_mem h) (h_nodes_mem h) (Some (c_str (s_display_filter st)))
        (Some (h_filter_err h)) 128 = Some (filt, e)"
      using dispfilter_compile_total unfolding few_tokens_def by blast
    show ?thesis
    proof (cases filt)
      case (Some fl)
      from linux_source.prints_whatever [OF assms(4) capture_thread_returns [OF few assms(4,5)] assms(1)
          compiled_filter_wf [OF f [unfolded Some]]] obtain res out buf p' where
        "run_and_print (capture_thread (h_world h) st) transport (h_locals h) fl
          (shown @ ''Capturing on '' @ s_device st @ '' (Ctrl+C to stop)...\<newline>'') (h_buf h, p) = Some (res, out, buf, p')"
        by (metis surj_pair)
      with Inr d st ost f Some False show ?thesis by (simp add: main_def)
    qed (use Inr d st ost f False in \<open>simp add: main_def\<close>)
  qed (use Inr d st in \<open>auto simp: main_def\<close>)
qed (simp add: main_def)


theorem main_returns_witness:
  "\<exists>status out errs p'. main (sample_host\<lparr>h_filter_mem := False\<rparr>) (\<lambda>pushed. pushed) [''-Y'', ''tcp'', ''-i'', ''eth0''] (cin []) sample_proc
    = Some (status, out, errs, p') \<and> (status = 0 \<or> status = 1 \<and> errs \<noteq> [])"
proof (rule main_returns [OF id_transport, where m = 1])
  show "\<forall>c devices st shown. parse_args [''-Y'', ''tcp'', ''-i'', ''eth0''] no_cli = Inr c \<longrightarrow>
      choose_settings c devices (cin []) = (Some st, shown) \<longrightarrow> few_tokens st"
    by (auto intro!: few_tokens_short simp: parse_args.simps choose_settings_def no_cli_def c_str_def)
qed (use sample_ring_ok in \<open>simp_all add: capture_ready_def sample_host_def sample_proc_def sample_world_def\<close>)

end
